(* ===== verification/Pipe_Prelude.thy ===== *)
theory Pipe_Prelude
  imports Complex_Main "HOL-Library.Multiset" "HOL-Library.Sublist"
begin

text \<open>
  Shared vocabulary of the development: the Python values the framework looks at, its control
  sentinels (\<^verbatim>\<open>src/pipe/types.py\<close>), the exceptions its handlers tell apart, the messages
  that travel on the queues, and the generic list lemmas the components share.
\<close>

section \<open>Fact collections\<close>

named_theorems size_consts
  \<open>the sizes fixed in the shared-memory transport\<close>

named_theorems store_ops
  \<open>the operations of the payload store\<close>

named_theorems ring_ops
  \<open>the operations of the ring\<close>

section \<open>Exceptions\<close>

text \<open>
  The exceptions the handlers of the framework distinguish. \<open>BrokenPipeError\<close> is a subclass of
  \<open>ConnectionError\<close>; \<open>ConnectionError\<close> and \<open>FileNotFoundError\<close> are subclasses of
  \<open>OSError\<close>. \<open>OtherExn\<close> is any other subclass of \<open>Exception\<close>.
\<close>

datatype exn =
    FullE | EmptyE | ValueE | TypeE | AttributeE | IndexE | ImportE | EOFE
  | OSE | ConnectionE | BrokenPipeE | FileNotFoundE
  | OtherExn

definition is_connection_error :: "exn \<Rightarrow> bool" where
  "is_connection_error e \<longleftrightarrow> e \<in> {ConnectionE, BrokenPipeE, FileNotFoundE}"

definition is_os_error :: "exn \<Rightarrow> bool" where
  "is_os_error e \<longleftrightarrow> e \<in> {OSE, ConnectionE, BrokenPipeE, FileNotFoundE}"

lemma connection_error_is_os_error: "is_connection_error e \<Longrightarrow> is_os_error e"
  by (auto simp: is_connection_error_def is_os_error_def)

section \<open>Sentinels and values\<close>

datatype sentinel = END | WORKER_STOP

text \<open>
  A Python value as the framework sees it: \<open>None\<close>, a sentinel, a list (whose elements it may
  look at), or an opaque user object.
\<close>

datatype 'a val = NoneV | SentV sentinel | ListV "'a val list" | Obj 'a

abbreviation EndV :: "'a val" where "EndV \<equiv> SentV END"
abbreviation WorkerStopV :: "'a val" where "WorkerStopV \<equiv> SentV WORKER_STOP"

text \<open>\<open>Sentinel.__repr__\<close>: the exported alias names.\<close>

fun sentinel_repr :: "sentinel \<Rightarrow> string" where
  "sentinel_repr END = ''End''"
| "sentinel_repr WORKER_STOP = ''WorkerStop''"

text \<open>\<open>workers._is_end\<close> and \<open>workers._is_worker_stop\<close> are identity tests on the enum members.\<close>

definition is_end :: "'a val \<Rightarrow> bool" where
  "is_end x \<longleftrightarrow> x = EndV"

definition is_worker_stop :: "'a val \<Rightarrow> bool" where
  "is_worker_stop x \<longleftrightarrow> x = WorkerStopV"

lemma is_end_simps [simp]:
  "is_end EndV" "\<not> is_end NoneV" "\<not> is_end WorkerStopV" "\<not> is_end (ListV xs)" "\<not> is_end (Obj a)"
  by (simp_all add: is_end_def)

lemma is_worker_stop_simps [simp]:
  "is_worker_stop WorkerStopV" "\<not> is_worker_stop NoneV" "\<not> is_worker_stop EndV"
  "\<not> is_worker_stop (ListV xs)" "\<not> is_worker_stop (Obj a)"
  by (simp_all add: is_worker_stop_def)

text \<open>
  The filter every output path applies: \<open>r is not None and not _is_end(r)\<close>.
\<close>

definition valid_item :: "'a val \<Rightarrow> bool" where
  "valid_item r \<longleftrightarrow> r \<noteq> NoneV \<and> \<not> is_end r"

definition valid_items :: "'a val list \<Rightarrow> 'a val list" where
  "valid_items rs = filter valid_item rs"

lemma valid_item_simps [simp]:
  "\<not> valid_item NoneV" "\<not> valid_item EndV" "valid_item (Obj a)" "valid_item (ListV xs)"
  "valid_item WorkerStopV"
  by (simp_all add: valid_item_def)

lemma valid_items_simps [simp]:
  "valid_items [] = []"
  "valid_items (x # xs) = (if valid_item x then x # valid_items xs else valid_items xs)"
  "valid_items (xs @ ys) = valid_items xs @ valid_items ys"
  by (simp_all add: valid_items_def)

lemma set_valid_items [simp]: "set (valid_items xs) = {x \<in> set xs. valid_item x}"
  by (simp add: valid_items_def)

lemma valid_items_id: "(\<And>x. x \<in> set xs \<Longrightarrow> valid_item x) \<Longrightarrow> valid_items xs = xs"
  by (simp add: valid_items_def filter_id_conv)

lemma valid_items_idem [simp]: "valid_items (valid_items xs) = valid_items xs"
  by (simp add: valid_items_def)

text \<open>
  What calling a stage gives back: a plain value, a generator (the values it yields and, if it
  does not simply end, the exception it raises), or an exception from the call itself.
\<close>

datatype 'a outcome =
    Ret "'a val"
  | Gen "'a val list" "exn option"
  | Raise exn

section \<open>Generic lemmas\<close>

lemma map_filter_append [simp]: "List.map_filter f (xs @ ys) = List.map_filter f xs @ List.map_filter f ys"
  by (induction xs) (auto simp: List.map_filter_def)

lemma list_all_concat_map: "list_all P (concat (map f xs)) \<longleftrightarrow> list_all (\<lambda>x. list_all P (f x)) xs"
  by (induction xs) auto

lemma filter_mset_split: "filter_mset P M + filter_mset (\<lambda>x. \<not> P x) M = M"
  by (metis multiset_partition)

lemma mset_concat_update:
  "i < length rs \<Longrightarrow>
   mset (concat (map f (rs[i := r]))) + mset (f (rs ! i)) = mset (concat (map f rs)) + mset (f r)"
proof (induction rs arbitrary: i)
  case (Cons a rs)
  then show ?case by (cases i) (auto simp: ac_simps)
qed simp

lemma length_filter_update:
  "i < length rs \<Longrightarrow>
   length (filter P (rs[i := r])) + (if P (rs ! i) then 1 else 0) = length (filter P rs) + (if P r then 1 else 0)"
proof (induction rs arbitrary: i)
  case (Cons a rs)
  then show ?case by (cases i) auto
qed simp

lemma sum_list_map_update:
  fixes f :: "'a \<Rightarrow> nat"
  shows "i < length rs \<Longrightarrow> sum_list (map f (rs[i := r])) + f (rs ! i) = sum_list (map f rs) + f r"
proof (induction rs arbitrary: i)
  case (Cons a rs)
  show ?case
  proof (cases i)
    case (Suc j)
    with Cons.IH [of j] Cons.prems show ?thesis by simp
  qed simp
qed simp

lemma filter_length_lt: "i < length rs \<Longrightarrow> \<not> P (rs ! i) \<Longrightarrow> length (filter P rs) < length rs"
  by (metis length_filter_less nth_mem)

lemma filter_length_eqD: "length (filter P xs) = length xs \<Longrightarrow> \<forall>x \<in> set xs. P x"
  by (metis length_filter_less less_irrefl)

lemma transfer_balance:
  fixes D :: "'a multiset"
  assumes "B' + b = B + b'" and "b + u = X + b' + u'"
  shows "(D + X) + B' + u' = D + B + u"
proof -
  have "((D + X) + B' + u') + b = D + X + u' + (B' + b)" by (simp add: ac_simps)
  also have "\<dots> = D + B + (X + b' + u')" by (simp add: assms(1) ac_simps)
  also have "\<dots> = (D + B + u) + b" unfolding assms(2) [symmetric] by (simp add: ac_simps)
  finally show ?thesis by simp
qed

text \<open>Two window positions congruent modulo the window size are equal.\<close>

lemma mod_window_inj:
  fixes x y c :: nat
  assumes "x mod c = y mod c" and "lo \<le> x" and "x < lo + c" and "lo \<le> y" and "y < lo + c"
  shows "x = y"
proof (rule ccontr)
  assume ne: "x \<noteq> y"
  have main: "False" if "u < v" and "u mod c = v mod c" and "lo \<le> u" and "v < lo + c" for u v :: nat
  proof -
    from that have "c dvd v - u"
      by (metis mod_eq_dvd_iff_nat less_imp_le_nat)
    moreover from that have "0 < v - u" and "v - u < c" by auto
    ultimately show False
      by (simp add: nat_dvd_not_less)
  qed
  show False
  proof (cases "x < y")
    case True
    with assms show False by (intro main [of x y]) auto
  next
    case False
    with ne assms show False by (intro main [of y x]) auto
  qed
qed

end
