(* ===== verification/Pipe_Queue_Spec.thy ===== *)
theory Pipe_Queue_Spec
  imports Pipe_Prelude
begin

text \<open>
  What the pipeline relies on from the queue of an edge, as a locale: a first-in first-out list of
  messages with an invariant, a \<open>put\<close> that either appends its message or leaves the queue as it
  was, and a \<open>get\<close> that takes the oldest message. The client's lemmas (histories of interleaved
  puts and gets, the retrying put) are proved once from these laws.
\<close>

section \<open>Operations on an edge, by any number of processes\<close>

text \<open>
  The puts and gets of all attached processes are atomic (each runs under the ring's lock), so an
  execution is a sequence of operations. \<open>queue_run\<close> collects the messages accepted by puts and
  the messages delivered by gets, in the order in which they happened.
\<close>

datatype ('e, 'm) queue_op = PutOp 'e 'm | GetOp

fun queue_run ::
  "('e \<Rightarrow> 'm \<Rightarrow> 'q \<Rightarrow> 'q \<times> (exn + bool)) \<Rightarrow> ('q \<Rightarrow> 'q \<times> (exn + 'm option)) \<Rightarrow>
   ('e, 'm) queue_op list \<Rightarrow> 'q \<Rightarrow> 'q \<times> 'm list \<times> 'm list" where
  "queue_run put get [] q = (q, [], [])"
| "queue_run put get (PutOp e m # ops) q =
     (case put e m q of (q1, res) \<Rightarrow>
        case queue_run put get ops q1 of (q2, acc, del) \<Rightarrow>
          (q2, (if res = Inr True then m # acc else acc), del))"
| "queue_run put get (GetOp # ops) q =
     (case get q of (q1, res) \<Rightarrow>
        case queue_run put get ops q1 of (q2, acc, del) \<Rightarrow>
          (q2, acc, (case res of Inr (Some m) \<Rightarrow> m # del | _ \<Rightarrow> del)))"

text \<open>Every put of an execution is admissible in the state where it happens.\<close>

fun ops_admissible ::
  "('e \<Rightarrow> 'm \<Rightarrow> 'q \<Rightarrow> bool) \<Rightarrow> ('e \<Rightarrow> 'm \<Rightarrow> 'q \<Rightarrow> 'q \<times> (exn + bool)) \<Rightarrow>
   ('q \<Rightarrow> 'q \<times> (exn + 'm option)) \<Rightarrow> ('e, 'm) queue_op list \<Rightarrow> 'q \<Rightarrow> bool" where
  "ops_admissible adm put get [] q \<longleftrightarrow> True"
| "ops_admissible adm put get (PutOp e m # ops) q \<longleftrightarrow>
     adm e m q \<and> ops_admissible adm put get ops (fst (put e m q))"
| "ops_admissible adm put get (GetOp # ops) q \<longleftrightarrow> ops_admissible adm put get ops (fst (get q))"

section \<open>The retrying put\<close>

text \<open>
  \<open>queues._put_retry\<close>: a put with a short timeout, repeated for as long as the queue is full.
  Between two attempts other processes act on the queue; that is the environment, one function per
  attempt, and the times read from the clock after a failed attempt. Running out of attempts means
  that the call has not returned yet (\<open>None\<close>). The result carries the queue and how often the
  \<open>on_stall\<close> hook ran; a put that fails with an error other than \<open>Full\<close> raises it.
\<close>

record 'q attempt =
  at_env :: "'q \<Rightarrow> 'q"
  at_now :: real

datatype 'q retry_result = Delivered 'q nat | Raised exn 'q nat

fun put_retry ::
  "('m \<Rightarrow> 'q \<Rightarrow> 'q \<times> (exn + bool)) \<Rightarrow> bool \<Rightarrow> real \<Rightarrow> 'q attempt list \<Rightarrow> real option \<Rightarrow> nat \<Rightarrow>
   'm \<Rightarrow> 'q \<Rightarrow> 'q retry_result option" where
  "put_retry put on_stall stall_s [] t0 fired m q = None"
| "put_retry put on_stall stall_s (a # as) t0 fired m q =
     (case put m (at_env a q) of
        (q1, Inr True) \<Rightarrow> Some (Delivered q1 fired)
      | (q1, Inl e) \<Rightarrow> Some (Raised e q1 fired)
      | (q1, Inr False) \<Rightarrow>
          (if on_stall then
             (case t0 of
                None \<Rightarrow> put_retry put on_stall stall_s as (Some (at_now a)) fired m q1
              | Some t \<Rightarrow>
                  (if stall_s \<le> at_now a - t
                   then put_retry put False stall_s as t0 (Suc fired) m q1
                   else put_retry put on_stall stall_s as t0 fired m q1))
           else put_retry put False stall_s as t0 fired m q1))"

lemma put_retry_stall_off:
  "put_retry put False stall_s as t0 fired m q = Some (Delivered q' n) \<Longrightarrow> n = fired"
  by (induction as arbitrary: q) (auto split: prod.splits sum.splits bool.splits)

text \<open>The stall hook runs at most once per put.\<close>

lemma put_retry_stall_once:
  "put_retry put st stall_s as t0 0 m q = Some (Delivered q' n) \<Longrightarrow> n \<le> 1"
proof (induction as arbitrary: q t0 st)
  case (Cons a as)
  then show ?case
    by (auto split: prod.splits sum.splits bool.splits if_splits option.splits
             dest: put_retry_stall_off)
qed simp

text \<open>The queue as attempt \<open>k\<close> finds it, if no attempt before it changed anything.\<close>

definition env_after :: "nat \<Rightarrow> 'q attempt list \<Rightarrow> 'q \<Rightarrow> 'q" where
  "env_after k as q = fold at_env (take (Suc k) as) q"

lemma env_after_Cons [simp]:
  "env_after 0 (a # as) q = at_env a q"
  "env_after (Suc k) (a # as) q = env_after k as (at_env a q)"
  by (simp_all add: env_after_def)

section \<open>The interface\<close>

locale fifo_queue =
  fixes inv :: "'q \<Rightarrow> bool"
    and contents :: "'q \<Rightarrow> 'm list"
    and admissible :: "'e \<Rightarrow> 'm \<Rightarrow> 'q \<Rightarrow> bool"
    and put :: "'e \<Rightarrow> 'm \<Rightarrow> 'q \<Rightarrow> 'q \<times> (exn + bool)"
    and get :: "'q \<Rightarrow> 'q \<times> (exn + 'm option)"
  assumes put_ok: "inv q \<Longrightarrow> admissible e m q \<Longrightarrow> put e m q = (q', Inr True) \<Longrightarrow>
                     inv q' \<and> contents q' = contents q @ [m]"
    and put_fail: "inv q \<Longrightarrow> admissible e m q \<Longrightarrow> put e m q = (q', res) \<Longrightarrow> res \<noteq> Inr True \<Longrightarrow> q' = q"
    and get_Nil: "inv q \<Longrightarrow> contents q = [] \<Longrightarrow> get q = (q, Inr None)"
    and get_Cons: "inv q \<Longrightarrow> contents q = m # ms \<Longrightarrow>
                     \<exists>q'. get q = (q', Inr (Some m)) \<and> inv q' \<and> contents q' = ms"
begin

lemma put_inv: "inv q \<Longrightarrow> admissible e m q \<Longrightarrow> inv (fst (put e m q))"
  using put_ok [of q e m] put_fail [of q e m]
  by (cases "put e m q"; cases "snd (put e m q) = Inr True") auto

lemma put_contents:
  "inv q \<Longrightarrow> admissible e m q \<Longrightarrow>
   contents (fst (put e m q)) = contents q @ (if snd (put e m q) = Inr True then [m] else [])"
  using put_ok [of q e m] put_fail [of q e m]
  by (cases "put e m q"; cases "snd (put e m q) = Inr True") auto

lemma get_inv: "inv q \<Longrightarrow> inv (fst (get q))"
  by (cases "contents q") (use get_Nil get_Cons in fastforce)+

lemma get_contents:
  "inv q \<Longrightarrow> contents q =
     (case snd (get q) of Inr (Some m) \<Rightarrow> m # contents (fst (get q)) | _ \<Rightarrow> contents (fst (get q)))"
  by (cases "contents q") (use get_Nil get_Cons in fastforce)+

lemma get_never_raises: "inv q \<Longrightarrow> \<exists>r. snd (get q) = Inr r"
  by (cases "contents q") (use get_Nil get_Cons in fastforce)+

text \<open>
  Nothing is lost, duplicated or reordered: at every point of an execution the messages that were
  there plus the accepted ones are the delivered ones followed by what is still queued.
\<close>

lemma run_history:
  "inv q \<Longrightarrow> ops_admissible admissible put get ops q \<Longrightarrow> queue_run put get ops q = (q', acc, del) \<Longrightarrow>
   inv q' \<and> contents q @ acc = del @ contents q'"
proof (induction ops arbitrary: q acc del)
  case Nil
  then show ?case by simp
next
  case (Cons x ops)
  show ?case
  proof (cases x)
    case (PutOp e m)
    obtain q1 res where p: "put e m q = (q1, res)" by force
    obtain acc1 del1 where r: "queue_run put get ops q1 = (q', acc1, del1)"
      using Cons.prems(3) PutOp p by (auto split: prod.splits)
    from Cons.prems PutOp p have i1: "inv q1" and adm: "ops_admissible admissible put get ops q1"
      and c1: "contents q1 = contents q @ (if res = Inr True then [m] else [])"
      using put_inv [of q e m] put_contents [of q e m] by auto
    from Cons.IH [OF i1 adm r] c1 Cons.prems(3) PutOp p r show ?thesis by auto
  next
    case GetOp
    obtain q1 res where g: "get q = (q1, res)" by force
    obtain acc1 del1 where r: "queue_run put get ops q1 = (q', acc1, del1)"
      using Cons.prems(3) GetOp g by (auto split: prod.splits)
    from Cons.prems GetOp g have i1: "inv q1" and adm: "ops_admissible admissible put get ops q1"
      using get_inv [of q] by auto
    from Cons.IH [OF i1 adm r] get_contents [OF Cons.prems(1)] Cons.prems(3) GetOp g r show ?thesis
      by (auto split: sum.splits option.splits)
  qed
qed

text \<open>
  A retrying put that returns has put its message exactly once, behind whatever the other
  processes left in the queue meanwhile; and it returns as soon as one attempt finds room.
\<close>

lemma put_retry_delivers:
  assumes "inv q"
    and "put_retry (put e) st stall_s as t0 fired m q = Some (Delivered q' n)"
    and "\<And>a q. a \<in> set as \<Longrightarrow> inv q \<Longrightarrow> inv (at_env a q) \<and> admissible e m (at_env a q)"
  shows "\<exists>k < length as. inv (env_after k as q) \<and> inv q' \<and> contents q' = contents (env_after k as q) @ [m]"
  using assms
proof (induction as arbitrary: q t0 st fired)
  case (Cons a as)
  let ?q0 = "at_env a q"
  from Cons.prems have i0: "inv ?q0" and adm: "admissible e m ?q0" by auto
  obtain q1 res where p: "put e m ?q0 = (q1, res)" by force
  show ?case
  proof (cases "res = Inr True")
    case True
    with Cons.prems(2) p have "q' = q1" by auto
    with put_ok [OF i0 adm] p True i0 show ?thesis by (intro exI [of _ 0]) auto
  next
    case False
    with put_fail [OF i0 adm p] have q1: "q1 = ?q0" by simp
    from False p Cons.prems(2) obtain st' t0' fired' where
      "put_retry (put e) st' stall_s as t0' fired' m ?q0 = Some (Delivered q' n)"
      by (auto simp: q1 split: sum.splits bool.splits if_splits option.splits)
    from Cons.IH [OF i0 this] Cons.prems(3) obtain k where
      "k < length as" "inv (env_after k as ?q0)" "inv q'" "contents q' = contents (env_after k as ?q0) @ [m]"
      by auto
    then show ?thesis by (intro exI [of _ "Suc k"]) auto
  qed
qed simp

lemma put_retry_returns:
  assumes "inv q" and "k < length as" and "snd (put e m (env_after k as q)) = Inr True"
    and "\<And>a q. a \<in> set as \<Longrightarrow> inv q \<Longrightarrow>
           inv (at_env a q) \<and> admissible e m (at_env a q) \<and> (\<exists>b. snd (put e m (at_env a q)) = Inr b)"
  shows "\<exists>q' n. put_retry (put e) st stall_s as t0 fired m q = Some (Delivered q' n)"
  using assms
proof (induction as arbitrary: q t0 st fired k)
  case (Cons a as)
  let ?q0 = "at_env a q"
  from Cons.prems(1,4) have i0: "inv ?q0" and adm: "admissible e m ?q0"
    and ne: "\<exists>b. snd (put e m ?q0) = Inr b" by auto
  obtain q1 b where p: "put e m ?q0 = (q1, Inr b)" using ne by (cases "put e m ?q0") auto
  show ?case
  proof (cases b)
    case True
    with p show ?thesis by simp
  next
    case False
    with put_fail [OF i0 adm p] have q1: "q1 = ?q0" by simp
    from Cons.prems(3) p False obtain k' where k': "k = Suc k'" by (cases k) auto
    have "\<exists>q' n. put_retry (put e) st' stall_s as t0' fired' m ?q0 = Some (Delivered q' n)" for st' t0' fired'
      using Cons.prems k' by (intro Cons.IH [OF i0, of k']) auto
    with p False q1 show ?thesis by (auto split: option.splits)
  qed
qed simp

end

section \<open>The abstract bounded queue\<close>

text \<open>
  The specification every transport of the pipeline implements: a list of messages with an item
  bound (\<open>0\<close> means unbounded). \<open>put\<close> answers \<open>False\<close> where the caller raises \<open>Full\<close>,
  \<open>get\<close> answers \<open>None\<close> where the caller raises \<open>Empty\<close>.
\<close>

record 'm bqueue =
  bq_maxsize :: nat
  bq_items :: "'m list"

definition bq_full :: "'m bqueue \<Rightarrow> bool" where
  "bq_full q \<longleftrightarrow> 0 < bq_maxsize q \<and> bq_maxsize q \<le> length (bq_items q)"

definition bq_put :: "'m \<Rightarrow> 'm bqueue \<Rightarrow> 'm bqueue \<times> (exn + bool)" where
  "bq_put m q = (if bq_full q then (q, Inr False) else (q\<lparr>bq_items := bq_items q @ [m]\<rparr>, Inr True))"

definition bq_get :: "'m bqueue \<Rightarrow> 'm bqueue \<times> (exn + 'm option)" where
  "bq_get q = (case bq_items q of [] \<Rightarrow> (q, Inr None) | m # ms \<Rightarrow> (q\<lparr>bq_items := ms\<rparr>, Inr (Some m)))"

interpretation bq: fifo_queue "\<lambda>_. True" bq_items "\<lambda>_ _ _. True" "\<lambda>_. bq_put" bq_get
  by unfold_locales (auto simp: bq_put_def bq_get_def split: if_splits)

end
