(* ===== verification/Pipe_Push.thy ===== *)
theory Pipe_Push
  imports Pipe_Queue_Spec
begin

text \<open>
  The back edge: \<open>_make_push\<close> of \<^verbatim>\<open>src/pipe/workers.py\<close>, which lets a worker send an item to the
  input queue of an earlier stage. The put is the one of the queue interface; between its attempts
  other processes act on all the queues. What is shown: which queue the item goes to, that the
  answer \<open>True\<close> means that the item is on it (and \<open>False\<close> or an exception that it is on none),
  and that a push with a timeout ends.
\<close>

section \<open>Naming a stage\<close>

text \<open>What a caller may pass as \<open>stage\<close>; a class or an instance counts by its class name.\<close>

datatype stage_ref = BoolRef bool | IndexRef int | NameRef string | ClassRef string | InstanceRef string

text \<open>The dictionary built from the stage names; \<open>setdefault\<close> keeps the first entry.\<close>

definition setdefault :: "('k \<rightharpoonup> 'v) \<Rightarrow> 'k \<Rightarrow> 'v \<Rightarrow> ('k \<rightharpoonup> 'v)" where
  "setdefault m k v = (if m k = None then m(k \<mapsto> v) else m)"

definition name_to_idx :: "string list \<Rightarrow> (string \<rightharpoonup> nat)" where
  "name_to_idx names = fold (\<lambda>(i, nm) m. setdefault m nm i) (enumerate 0 names) Map.empty"

definition resolve_stage :: "string list \<Rightarrow> nat \<Rightarrow> stage_ref \<Rightarrow> exn + nat" where
  "resolve_stage names n_queues stage =
     (let by_name = (\<lambda>nm. case name_to_idx names nm of None \<Rightarrow> Inl ValueE | Some i \<Rightarrow> Inr (int i));
          idx = (case stage of
             BoolRef _ \<Rightarrow> Inl TypeE
           | IndexRef i \<Rightarrow> Inr i
           | NameRef nm \<Rightarrow> by_name nm
           | ClassRef nm \<Rightarrow> by_name nm
           | InstanceRef nm \<Rightarrow> by_name nm)
      in case idx of
           Inl e \<Rightarrow> Inl e
         | Inr i \<Rightarrow> if i \<le> 0 \<or> i \<ge> int n_queues + 1 then Inl ValueE else Inr (nat i))"

section \<open>The push itself\<close>

text \<open>
  One round of the retry loop: whether \<open>should_stop\<close> is set when the loop tests it, what other
  processes do to the queues while the put waits, and the clock reading after a failed put.
\<close>

record 'q push_round =
  pr_stop :: bool
  pr_env :: "'q list \<Rightarrow> 'q list"
  pr_now :: real

datatype push_result = Pushed bool | PushRaised exn | Pushing

fun push_loop ::
  "('m \<Rightarrow> 'q \<Rightarrow> 'q \<times> (exn + bool)) \<Rightarrow> 'm \<Rightarrow> nat \<Rightarrow> real option \<Rightarrow> 'q push_round list \<Rightarrow> 'q list \<Rightarrow>
   'q list \<times> push_result" where
  "push_loop put item i deadline [] qs = (qs, Pushing)"
| "push_loop put item i deadline (r # rs) qs =
     (if pr_stop r then (qs, Pushed False)
      else let qs1 = pr_env r qs in
        case put item (qs1 ! i) of
          (q', Inr True) \<Rightarrow> (qs1[i := q'], Pushed True)
        | (q', Inl e) \<Rightarrow> (qs1[i := q'], PushRaised e)
        | (q', Inr False) \<Rightarrow>
            (case deadline of
               Some d \<Rightarrow> if d \<le> pr_now r then (qs1[i := q'], Pushed False)
                         else push_loop put item i deadline rs (qs1[i := q'])
             | None \<Rightarrow> push_loop put item i deadline rs (qs1[i := q'])))"

definition push ::
  "('m \<Rightarrow> 'q \<Rightarrow> 'q \<times> (exn + bool)) \<Rightarrow> string list \<Rightarrow> stage_ref \<Rightarrow> 'm option \<Rightarrow> bool \<Rightarrow> real option \<Rightarrow> real \<Rightarrow>
   'q push_round list \<Rightarrow> 'q list \<Rightarrow> 'q list \<times> push_result" where
  "push put names stage item block timeout now rounds qs =
     (case item of
        None \<Rightarrow> (qs, Pushed False)
      | Some m \<Rightarrow>
          (case resolve_stage names (length qs) stage of
             Inl e \<Rightarrow> (qs, PushRaised e)
           | Inr idx \<Rightarrow>
               let i = idx - 1 in
               if \<not> block then
                 (case put m (qs ! i) of
                    (q', Inr True) \<Rightarrow> (qs[i := q'], Pushed True)
                  | (q', Inr False) \<Rightarrow> (qs[i := q'], Pushed False)
                  | (q', Inl e) \<Rightarrow> (qs[i := q'], PushRaised e))
               else push_loop put m i (map_option (\<lambda>t. now + t) timeout) rounds qs))"

section \<open>Which stage a name means\<close>

lemma name_fold:
  "fold (\<lambda>(i, nm) m. setdefault m nm i) (enumerate k names) m0 nm =
   (case m0 nm of
      Some i \<Rightarrow> Some i
    | None \<Rightarrow> if nm \<in> set names then Some (k + length (takeWhile (\<lambda>x. x \<noteq> nm) names)) else None)"
proof (induction names arbitrary: k m0)
  case (Cons a names)
  have "fold (\<lambda>(i, nm) m. setdefault m nm i) (enumerate k (a # names)) m0 nm =
        (case setdefault m0 a k nm of
           Some i \<Rightarrow> Some i
         | None \<Rightarrow> if nm \<in> set names then Some (Suc k + length (takeWhile (\<lambda>x. x \<noteq> nm) names)) else None)"
    by (simp add: Cons.IH)
  then show ?case by (auto simp: setdefault_def split: option.splits)
qed (simp split: option.splits)

lemma name_to_idx_first:
  "name_to_idx names nm = (if nm \<in> set names then Some (length (takeWhile (\<lambda>x. x \<noteq> nm) names)) else None)"
  by (simp add: name_to_idx_def name_fold)

lemma resolve_stage_bound: "resolve_stage names n stage = Inr idx \<Longrightarrow> 0 < idx \<and> idx \<le> n"
  by (auto simp: resolve_stage_def Let_def split: stage_ref.splits option.splits sum.splits if_splits)

text \<open>
  A stage name (or class) resolves to the first stage of that name, which is accepted exactly
  when it has an input queue; an index is accepted exactly between 1 and the number of queues; the
  root, an unknown name and a boolean are refused with the exception the code raises.
\<close>

theorem push_target:
  "resolve_stage names n (NameRef nm) =
     (if nm \<in> set names \<and> 0 < length (takeWhile (\<lambda>x. x \<noteq> nm) names) \<and> length (takeWhile (\<lambda>x. x \<noteq> nm) names) \<le> n
      then Inr (length (takeWhile (\<lambda>x. x \<noteq> nm) names)) else Inl ValueE)
   \<and> resolve_stage names n (ClassRef nm) = resolve_stage names n (NameRef nm)
   \<and> resolve_stage names n (IndexRef i) = (if 1 \<le> i \<and> i \<le> int n then Inr (nat i) else Inl ValueE)
   \<and> resolve_stage names n (BoolRef b) = Inl TypeE"
  by (auto simp: resolve_stage_def name_to_idx_first Let_def)

section \<open>The contract\<close>

text \<open>The queues after the first \<open>k\<close> rounds of other processes' actions alone.\<close>

definition others :: "nat \<Rightarrow> 'q push_round list \<Rightarrow> 'q list \<Rightarrow> 'q list" where
  "others k rs qs = fold pr_env (take k rs) qs"

lemma others_simps [simp]:
  "others 0 rs qs = qs" "others (Suc k) (r # rs) qs = others k rs (pr_env r qs)"
  by (simp_all add: others_def)

context fifo_queue
begin

text \<open>
  A push against an interface queue: a refused put changes nothing, so up to the accepted put the
  queues are what the other processes made of them.
\<close>

lemma push_loop_contract:
  assumes "\<And>qs. list_all inv qs \<Longrightarrow> i < length qs \<Longrightarrow> admissible e m (qs ! i)"
    and "\<And>r qs. r \<in> set rounds \<Longrightarrow> list_all inv qs \<Longrightarrow> list_all inv (pr_env r qs) \<and> length (pr_env r qs) = length qs"
    and "list_all inv qs" and "i < length qs"
    and "push_loop (put e) m i deadline rounds qs = (qs', res)"
  shows "\<exists>k \<le> length rounds.
    (res = Pushed True \<and> length qs' = length qs \<and> list_all inv qs'
       \<and> contents (qs' ! i) = contents (others k rounds qs ! i) @ [m]
       \<and> (\<forall>j. j \<noteq> i \<longrightarrow> qs' ! j = others k rounds qs ! j))
    \<or> (res \<noteq> Pushed True \<and> qs' = others k rounds qs)"
  using assms(2-5)
proof (induction rounds arbitrary: qs)
  case Nil
  then show ?case by auto
next
  case (Cons r rounds)
  let ?qs1 = "pr_env r qs"
  have inv1: "list_all inv ?qs1" and len1: "length ?qs1 = length qs"
    using Cons.prems(1) [of r qs] Cons.prems(2) by auto
  have adm: "admissible e m (?qs1 ! i)" using assms(1) inv1 len1 Cons.prems(3) by simp
  have inv_i: "inv (?qs1 ! i)" using inv1 len1 Cons.prems(3) by (simp add: list_all_length)
  obtain q' a where pa: "put e m (?qs1 ! i) = (q', a)" by force
  show ?case
  proof (cases "pr_stop r")
    case True
    then have "res \<noteq> Pushed True \<and> qs' = others 0 (r # rounds) qs" using Cons.prems(4) by auto
    then show ?thesis by blast
  next
    case False
    show ?thesis
    proof (cases "a = Inr True")
      case True
      then have q: "inv q'" "contents q' = contents (?qs1 ! i) @ [m]"
        using put_ok [OF inv_i adm] pa by auto
      then have "res = Pushed True" "qs' = ?qs1[i := q']" using Cons.prems(4) pa False True by auto
      moreover have "list_all inv (?qs1[i := q'])"
        using inv1 q by (auto simp: list_all_iff dest!: set_update_subset_insert [THEN subsetD])
      ultimately show ?thesis using q len1 Cons.prems(3) by (intro exI [of _ 1]) auto
    next
      case nt: False
      then have same: "?qs1[i := q'] = ?qs1" using put_fail [OF inv_i adm pa] by simp
      show ?thesis
      proof (cases "push_loop (put e) m i deadline rounds ?qs1 = (qs', res)")
        case True
        from Cons.IH [OF _ inv1 _ this] Cons.prems(1,3) len1 obtain k where
          "k \<le> length rounds" and
          "(res = Pushed True \<and> length qs' = length qs \<and> list_all inv qs'
             \<and> contents (qs' ! i) = contents (others k rounds ?qs1 ! i) @ [m]
             \<and> (\<forall>j. j \<noteq> i \<longrightarrow> qs' ! j = others k rounds ?qs1 ! j))
           \<or> (res \<noteq> Pushed True \<and> qs' = others k rounds ?qs1)" by auto
        then show ?thesis by (intro exI [of _ "Suc k"]) auto
      next
        case ended: False
        then have "res \<noteq> Pushed True \<and> qs' = ?qs1"
          using Cons.prems(4) pa False nt same
          by (auto simp: Let_def split: sum.splits bool.splits option.splits if_splits)
        then show ?thesis by (intro exI [of _ 1]) auto
      qed
    qed
  qed
qed

end

lemma push_loop_ends:
  assumes "r \<in> set rounds" and "d \<le> pr_now r \<or> pr_stop r"
  shows "snd (push_loop put m i (Some d) rounds qs) \<noteq> Pushing"
  using assms
  by (induction rounds arbitrary: qs) (auto simp: Let_def split: prod.splits sum.splits bool.splits)



end
