(* ===== verification/Pipe_Channels.thy ===== *)
theory Pipe_Channels
  imports Pipe_Queue_Spec
begin

text \<open>
  The chunked-transport primitives of \<^verbatim>\<open>src/pipe/queues.py\<close>: \<open>Chunk\<close>, \<open>_OutputChannel\<close>,
  \<open>_InputChannel\<close>, \<open>InstrumentedQueue\<close> and \<open>PipeIterator\<close>. A channel operation takes the clock
  readings the code takes (\<open>time.monotonic()\<close>) as arguments and returns the messages it puts on the
  queue, in order; the blocking put itself is \<open>put_retry\<close>. The main result is that chunking is
  transparent: an edge with an output and an input channel delivers the payloads that were sent,
  in order, whatever the chunk size and the clock do.
\<close>

section \<open>Messages\<close>

datatype 'a msg = ItemM "'a val" | ChunkM "'a val list"

fun payloads :: "'a msg \<Rightarrow> 'a val list" where
  "payloads (ItemM x) = [x]"
| "payloads (ChunkM xs) = xs"

definition unchunk :: "'a msg list \<Rightarrow> 'a val list" where
  "unchunk ms = concat (map payloads ms)"

lemma unchunk_simps [simp]:
  "unchunk [] = []" "unchunk (m # ms) = payloads m @ unchunk ms" "unchunk (ms @ ms') = unchunk ms @ unchunk ms'"
  by (simp_all add: unchunk_def)

section \<open>The output channel\<close>

record 'a out_channel =
  oc_chunk_size :: int
  oc_chunk_s :: real
  oc_pending :: "'a val list"
  oc_oldest :: real

definition oc_new :: "int \<Rightarrow> real \<Rightarrow> 'a out_channel" where
  "oc_new chunk_size chunk_ms =
     \<lparr>oc_chunk_size = chunk_size, oc_chunk_s = chunk_ms / 1000, oc_pending = [], oc_oldest = 0\<rparr>"

definition oc_flush :: "'a out_channel \<Rightarrow> 'a out_channel \<times> 'a msg list" where
  "oc_flush ch =
     (if oc_pending ch = [] then (ch, []) else (ch\<lparr>oc_pending := []\<rparr>, [ChunkM (oc_pending ch)]))"

definition oc_send :: "real \<Rightarrow> real \<Rightarrow> 'a val \<Rightarrow> 'a out_channel \<Rightarrow> 'a out_channel \<times> 'a msg list" where
  "oc_send t1 t2 payload ch =
     (if oc_chunk_size ch \<le> 0 then (ch, [ItemM payload])
      else
        let ch1 = (if oc_pending ch = [] then ch\<lparr>oc_oldest := t1\<rparr> else ch);
            ch2 = ch1\<lparr>oc_pending := oc_pending ch1 @ [payload]\<rparr>
        in if oc_chunk_size ch2 \<le> int (length (oc_pending ch2)) \<or> oc_chunk_s ch2 \<le> t2 - oc_oldest ch2
           then oc_flush ch2 else (ch2, []))"

definition oc_maybe_flush :: "real \<Rightarrow> 'a out_channel \<Rightarrow> 'a out_channel \<times> 'a msg list" where
  "oc_maybe_flush t ch =
     (if oc_pending ch \<noteq> [] \<and> oc_chunk_s ch \<le> t - oc_oldest ch then oc_flush ch else (ch, []))"

text \<open>What a worker does with its channel: a sequence of these calls.\<close>

datatype 'a oc_op = Send real real "'a val" | MaybeFlush real | Flush

fun oc_step :: "'a oc_op \<Rightarrow> 'a out_channel \<Rightarrow> 'a out_channel \<times> 'a msg list" where
  "oc_step (Send t1 t2 x) ch = oc_send t1 t2 x ch"
| "oc_step (MaybeFlush t) ch = oc_maybe_flush t ch"
| "oc_step Flush ch = oc_flush ch"

fun sent_by :: "'a oc_op \<Rightarrow> 'a val list" where
  "sent_by (Send t1 t2 x) = [x]"
| "sent_by _ = []"

fun oc_run :: "'a oc_op list \<Rightarrow> 'a out_channel \<Rightarrow> 'a out_channel \<times> 'a msg list" where
  "oc_run [] ch = (ch, [])"
| "oc_run (x # xs) ch =
     (case oc_step x ch of (ch1, ms) \<Rightarrow> case oc_run xs ch1 of (ch2, ms') \<Rightarrow> (ch2, ms @ ms'))"

text \<open>
  The channel invariant: a pass-through channel holds nothing back, a chunking one holds less than
  a chunk.
\<close>

definition oc_inv :: "'a out_channel \<Rightarrow> bool" where
  "oc_inv ch \<longleftrightarrow>
     (if oc_chunk_size ch \<le> 0 then oc_pending ch = []
      else int (length (oc_pending ch)) < oc_chunk_size ch)"

definition msg_ok :: "int \<Rightarrow> 'a msg \<Rightarrow> bool" where
  "msg_ok n m = (case m of
      ItemM _ \<Rightarrow> n \<le> 0
    | ChunkM xs \<Rightarrow> 0 < n \<and> xs \<noteq> [] \<and> int (length xs) \<le> n)"

lemma oc_new_inv [simp]: "oc_inv (oc_new n ms)" "oc_pending (oc_new n ms) = []" "oc_chunk_size (oc_new n ms) = n"
  by (simp_all add: oc_inv_def oc_new_def)

lemma oc_step_correct:
  assumes "oc_inv ch" and "oc_step x ch = (ch', ms)"
  shows "oc_inv ch'" and "oc_chunk_size ch' = oc_chunk_size ch" and "oc_chunk_s ch' = oc_chunk_s ch"
    and "unchunk ms @ oc_pending ch' = oc_pending ch @ sent_by x"
    and "\<forall>m \<in> set ms. msg_ok (oc_chunk_size ch) m"
  using assms
  by (cases x; auto simp: oc_send_def oc_maybe_flush_def oc_flush_def oc_inv_def msg_ok_def Let_def split: if_splits)+

lemma oc_run_correct:
  assumes "oc_inv ch" and "oc_run xs ch = (ch', ms)"
  shows "oc_inv ch' \<and> oc_chunk_size ch' = oc_chunk_size ch \<and>
         unchunk ms @ oc_pending ch' = oc_pending ch @ concat (map sent_by xs) \<and>
         (\<forall>m \<in> set ms. msg_ok (oc_chunk_size ch) m)"
  using assms
proof (induction xs arbitrary: ch ms)
  case Nil
  then show ?case by simp
next
  case (Cons x xs)
  obtain ch1 ms1 where s: "oc_step x ch = (ch1, ms1)" by force
  obtain ms2 where r: "oc_run xs ch1 = (ch', ms2)" and ms: "ms = ms1 @ ms2"
    using Cons.prems(2) s by (auto split: prod.splits)
  note S = oc_step_correct [OF Cons.prems(1) s]
  note R = Cons.IH [OF S(1) r]
  have "unchunk ms @ oc_pending ch' = unchunk ms1 @ (oc_pending ch1 @ concat (map sent_by xs))"
    using R ms by simp
  also have "\<dots> = oc_pending ch @ sent_by x @ concat (map sent_by xs)"
    using S(4) by (metis append_assoc)
  finally show ?case using R S ms by auto
qed

text \<open>
  Chunked output is transparent. Whatever a worker sends, whenever its idle loop looks at the
  clock, and whatever the chunk size, the payloads inside the messages it put, followed by the
  payloads still pending, are exactly the payloads sent, in order; chunks are never empty and never
  longer than the chunk size; and after the final flush nothing is pending.
\<close>

theorem output_channel_transparent:
  assumes "oc_run ops (oc_new chunk_size chunk_ms) = (ch, ms)"
  shows "unchunk ms @ oc_pending ch = concat (map sent_by ops) \<and>
         (\<forall>m \<in> set ms. msg_ok chunk_size m) \<and>
         unchunk (ms @ snd (oc_flush ch)) = concat (map sent_by ops) \<and> oc_pending (fst (oc_flush ch)) = []"
proof -
  have R: "unchunk ms @ oc_pending ch = concat (map sent_by ops)" "\<forall>m \<in> set ms. msg_ok chunk_size m"
    using oc_run_correct [OF oc_new_inv(1) assms] by auto
  moreover have "unchunk (snd (oc_flush ch)) = oc_pending ch" "oc_pending (fst (oc_flush ch)) = []"
    by (auto simp: oc_flush_def)
  ultimately show ?thesis by simp
qed

theorem output_channel_transparent_witness:
  "\<exists>ch ms. oc_run [Send 0 0 (Obj 1), Send 0 0 (Obj (2::nat)), Send 1 1 (Obj 3), MaybeFlush 2] (oc_new 2 10) = (ch, ms) \<and>
     ms = [ChunkM [Obj 1, Obj 2], ChunkM [Obj 3]] \<and> unchunk ms @ oc_pending ch = [Obj 1, Obj 2, Obj 3]"
proof -
  let ?ops = "[Send 0 0 (Obj 1), Send 0 0 (Obj (2::nat)), Send 1 1 (Obj 3), MaybeFlush 2]"
  obtain ch ms where r: "oc_run ?ops (oc_new 2 10) = (ch, ms)" by force
  have "ms = [ChunkM [Obj 1, Obj 2], ChunkM [Obj 3]]"
    using r by (auto simp: oc_new_def oc_send_def oc_maybe_flush_def oc_flush_def Let_def)
  with output_channel_transparent [OF r] r show ?thesis by auto
qed

text \<open>
  The age bound of a partial chunk. After the idle loop has called \<open>maybe_flush\<close> at time
  \<open>t\<close>, nothing that has been pending for \<open>chunk_ms\<close> is still held back.
\<close>

theorem maybe_flush_age:
  assumes "oc_maybe_flush t ch = (ch', ms)" and "oc_pending ch' \<noteq> []"
  shows "t - oc_oldest ch' < oc_chunk_s ch' \<and> ms = [] \<and> ch' = ch"
  using assms by (auto simp: oc_maybe_flush_def oc_flush_def split: if_splits)

theorem maybe_flush_age_witness:
  "\<exists>ch' ms. oc_maybe_flush 5 (\<lparr>oc_chunk_size = 4, oc_chunk_s = 10, oc_pending = [Obj (1::nat)], oc_oldest = 0\<rparr>) = (ch', ms) \<and>
     oc_pending ch' \<noteq> [] \<and> 5 - oc_oldest ch' < oc_chunk_s ch'"
proof -
  let ?c = "\<lparr>oc_chunk_size = 4, oc_chunk_s = 10, oc_pending = [Obj (1::nat)], oc_oldest = 0\<rparr>"
  have r: "oc_maybe_flush 5 ?c = (?c, [])" by (simp add: oc_maybe_flush_def)
  with maybe_flush_age [OF r] show ?thesis by auto
qed

section \<open>The input channel\<close>

text \<open>
  The buffer starts as a \<open>deque\<close>. \<open>requeue_buffered\<close> rebinds it to a plain Python list, which
  has no \<open>popleft\<close>; the flag \<open>ic_deque\<close> records which of the two it is.
\<close>

record 'a in_channel =
  ic_buf :: "'a val list"
  ic_deque :: bool

definition ic_new :: "'a in_channel" where
  "ic_new = \<lparr>ic_buf = [], ic_deque = True\<rparr>"

text \<open>\<open>self._buf.popleft()\<close>\<close>

definition popleft :: "'a in_channel \<Rightarrow> 'a in_channel \<times> (exn + 'a val)" where
  "popleft ch =
     (if \<not> ic_deque ch then (ch, Inl AttributeE)
      else case ic_buf ch of [] \<Rightarrow> (ch, Inl IndexE) | x # xs \<Rightarrow> (ch\<lparr>ic_buf := xs\<rparr>, Inr x))"

text \<open>
  \<open>get\<close> and \<open>get_nowait\<close> differ only in how long the underlying queue waits before it answers
  that it is empty.
\<close>

definition ic_get ::
  "('q \<Rightarrow> 'q \<times> (exn + 'a msg option)) \<Rightarrow> 'a in_channel \<Rightarrow> 'q \<Rightarrow> 'a in_channel \<times> 'q \<times> (exn + 'a val)" where
  "ic_get get ch q =
     (if ic_buf ch \<noteq> [] then (case popleft ch of (ch', r) \<Rightarrow> (ch', q, r))
      else case get q of
        (q', Inl e) \<Rightarrow> (ch, q', Inl e)
      | (q', Inr None) \<Rightarrow> (ch, q', Inl EmptyE)
      | (q', Inr (Some (ItemM x))) \<Rightarrow> (ch, q', Inr x)
      | (q', Inr (Some (ChunkM xs))) \<Rightarrow>
          (case popleft (ch\<lparr>ic_buf := ic_buf ch @ xs\<rparr>) of (ch', r) \<Rightarrow> (ch', q', r)))"

definition ic_buffered :: "'a in_channel \<Rightarrow> nat" where
  "ic_buffered ch = length (ic_buf ch)"

text \<open>\<open>requeue_buffered\<close>: the messages it puts back, in one chunk.\<close>

definition ic_requeue_buffered :: "'a in_channel \<Rightarrow> 'a in_channel \<times> 'a msg list" where
  "ic_requeue_buffered ch =
     (if ic_buf ch = [] then (ch, [])
      else (ch\<lparr>ic_buf := [], ic_deque := False\<rparr>, [ChunkM (ic_buf ch)]))"

text \<open>
  Leaving the pool early loses nothing: what the channel had already taken off the queue is
  exactly what it puts back.
\<close>

theorem requeue_conserves:
  "unchunk (snd (ic_requeue_buffered ch)) = ic_buf ch \<and> ic_buffered (fst (ic_requeue_buffered ch)) = 0"
  by (simp add: ic_requeue_buffered_def ic_buffered_def)

text \<open>
  A channel that has requeued buffered payloads cannot read a chunk any more: the next
  chunk it takes off the queue raises \<open>AttributeError\<close> (a list has no \<open>popleft\<close>) and its
  payloads stay in the local buffer, off the shared queue.
\<close>

theorem requeued_channel_breaks_on_chunk:
  assumes "ic_buf ch \<noteq> []" and "get q = (q', Inr (Some (ChunkM xs)))"
  shows "ic_get get (fst (ic_requeue_buffered ch)) q =
           (\<lparr>ic_buf = xs, ic_deque = False\<rparr>, q', Inl AttributeE)"
  using assms by (cases ch) (simp add: ic_get_def ic_requeue_buffered_def popleft_def)

theorem requeued_channel_breaks_on_chunk_witness:
  "ic_get bq_get (fst (ic_requeue_buffered \<lparr>ic_buf = [Obj (1::nat)], ic_deque = True\<rparr>))
     \<lparr>bq_maxsize = 0, bq_items = [ChunkM [Obj 2, Obj 3]]\<rparr> =
   (\<lparr>ic_buf = [Obj 2, Obj 3], ic_deque = False\<rparr>, \<lparr>bq_maxsize = 0, bq_items = []\<rparr>, Inl AttributeE)"
  by (rule requeued_channel_breaks_on_chunk) (simp_all add: bq_get_def)

section \<open>An edge: output channel, queue, input channel\<close>

text \<open>
  The blocking puts of a channel operation happen one after the other; \<open>put_all\<close> is \<open>None\<close> while
  one of them is still waiting for room.
\<close>

fun put_all :: "('e \<Rightarrow> 'm \<Rightarrow> 'q \<Rightarrow> 'q \<times> (exn + bool)) \<Rightarrow> 'e \<Rightarrow> 'm list \<Rightarrow> 'q \<Rightarrow> 'q option" where
  "put_all put e [] q = Some q"
| "put_all put e (m # ms) q =
     (case put e m q of (q', Inr True) \<Rightarrow> put_all put e ms q' | _ \<Rightarrow> None)"

datatype ('e, 'a) edge_op = Produce 'e "'a oc_op" | Consume

record ('q, 'a) edge =
  ed_out :: "'a out_channel"
  ed_queue :: 'q
  ed_in :: "'a in_channel"

fun edge_step ::
  "('e \<Rightarrow> 'a msg \<Rightarrow> 'q \<Rightarrow> 'q \<times> (exn + bool)) \<Rightarrow> ('q \<Rightarrow> 'q \<times> (exn + 'a msg option)) \<Rightarrow>
   ('e, 'a) edge_op \<Rightarrow> ('q, 'a) edge \<Rightarrow> (('q, 'a) edge \<times> (exn + 'a val) option) option" where
  "edge_step put get (Produce e x) d =
     (case oc_step x (ed_out d) of (ch, ms) \<Rightarrow>
        case put_all put e ms (ed_queue d) of
          None \<Rightarrow> None
        | Some q \<Rightarrow> Some (d\<lparr>ed_out := ch, ed_queue := q\<rparr>, None))"
| "edge_step put get Consume d =
     (case ic_get get (ed_in d) (ed_queue d) of (ch, q, r) \<Rightarrow>
        Some (d\<lparr>ed_in := ch, ed_queue := q\<rparr>, Some r))"

fun edge_run ::
  "('e \<Rightarrow> 'a msg \<Rightarrow> 'q \<Rightarrow> 'q \<times> (exn + bool)) \<Rightarrow> ('q \<Rightarrow> 'q \<times> (exn + 'a msg option)) \<Rightarrow>
   ('e, 'a) edge_op list \<Rightarrow> ('q, 'a) edge \<Rightarrow> (('q, 'a) edge \<times> (exn + 'a val) list) option" where
  "edge_run put get [] d = Some (d, [])"
| "edge_run put get (x # xs) d =
     (case edge_step put get x d of
        None \<Rightarrow> None
      | Some (d1, r) \<Rightarrow>
          (case edge_run put get xs d1 of
             None \<Rightarrow> None
           | Some (d2, rs) \<Rightarrow> Some (d2, (case r of None \<Rightarrow> rs | Some y \<Rightarrow> y # rs))))"

definition received :: "(exn + 'a val) list \<Rightarrow> 'a val list" where
  "received rs = concat (map (\<lambda>r. case r of Inl _ \<Rightarrow> [] | Inr x \<Rightarrow> [x]) rs)"

fun produced :: "('e, 'a) edge_op \<Rightarrow> 'a val list" where
  "produced (Produce e x) = sent_by x"
| "produced Consume = []"

definition chunks_nonempty :: "'a msg list \<Rightarrow> bool" where
  "chunks_nonempty ms \<longleftrightarrow> ChunkM [] \<notin> set ms"

lemma msg_ok_nonempty: "\<forall>m \<in> set ms. msg_ok n m \<Longrightarrow> chunks_nonempty ms"
  by (auto simp: chunks_nonempty_def msg_ok_def)

text \<open>
  The interface an edge needs: a first-in first-out queue of messages whose puts are always
  admissible.
\<close>

locale chunked_edge = fifo_queue inv contents "\<lambda>_ _ _. True" put get
  for inv :: "'q \<Rightarrow> bool" and contents :: "'q \<Rightarrow> 'a msg list"
    and put :: "'e \<Rightarrow> 'a msg \<Rightarrow> 'q \<Rightarrow> 'q \<times> (exn + bool)"
    and get :: "'q \<Rightarrow> 'q \<times> (exn + 'a msg option)"
begin

lemma put_all_contents:
  "inv q \<Longrightarrow> put_all put e ms q = Some q' \<Longrightarrow> inv q' \<and> contents q' = contents q @ ms"
proof (induction ms arbitrary: q)
  case (Cons m ms)
  obtain q1 where p: "put e m q = (q1, Inr True)" and r: "put_all put e ms q1 = Some q'"
    using Cons.prems(2) by (auto split: prod.splits sum.splits bool.splits)
  from put_ok [OF Cons.prems(1) _ p] Cons.IH [OF _ r] show ?case by simp
qed simp

text \<open>Reading one payload takes the head of what is buffered and queued.\<close>

lemma ic_get_view:
  assumes "inv q" and "ic_deque ch" and "chunks_nonempty (contents q)" and "ic_get get ch q = (ch', q', r)"
  shows "inv q' \<and> ic_deque ch' \<and> chunks_nonempty (contents q') \<and>
         ic_buf ch @ unchunk (contents q) =
           (case r of Inl _ \<Rightarrow> [] | Inr x \<Rightarrow> [x]) @ ic_buf ch' @ unchunk (contents q') \<and>
         (\<forall>e. r = Inl e \<longrightarrow> e = EmptyE \<and> ic_buf ch = [] \<and> contents q = [])"
proof (cases "ic_buf ch")
  case Nil
  show ?thesis
  proof (cases "contents q")
    case c: Nil
    from get_Nil [OF assms(1) c] assms c Nil show ?thesis by (auto simp: ic_get_def)
  next
    case (Cons m ms)
    from get_Cons [OF assms(1) Cons] obtain q1 where
      g: "get q = (q1, Inr (Some m))" "inv q1" "contents q1 = ms" by auto
    show ?thesis
    proof (cases m)
      case (ItemM x)
      with g assms Cons Nil show ?thesis by (auto simp: ic_get_def chunks_nonempty_def)
    next
      case (ChunkM xs)
      with assms(3) Cons obtain y ys where "xs = y # ys"
        by (cases xs) (auto simp: chunks_nonempty_def)
      with g assms Cons Nil ChunkM show ?thesis
        by (auto simp: ic_get_def popleft_def chunks_nonempty_def)
    qed
  qed
next
  case (Cons x xs)
  with assms show ?thesis by (auto simp: ic_get_def popleft_def)
qed

definition edge_inv :: "('q, 'a) edge \<Rightarrow> bool" where
  "edge_inv d \<longleftrightarrow> oc_inv (ed_out d) \<and> inv (ed_queue d) \<and> ic_deque (ed_in d) \<and>
     chunks_nonempty (contents (ed_queue d))"

definition in_transit :: "('q, 'a) edge \<Rightarrow> 'a val list" where
  "in_transit d = ic_buf (ed_in d) @ unchunk (contents (ed_queue d)) @ oc_pending (ed_out d)"

lemma edge_step_correct:
  assumes "edge_inv d" and "edge_step put get x d = Some (d', r)"
  shows "edge_inv d' \<and> in_transit d @ produced x = received (case r of None \<Rightarrow> [] | Some y \<Rightarrow> [y]) @ in_transit d'"
proof (cases x)
  case (Produce e y)
  obtain ch ms where s: "oc_step y (ed_out d) = (ch, ms)" by force
  with assms(2) Produce obtain q where p: "put_all put e ms (ed_queue d) = Some q"
    and d': "d' = d\<lparr>ed_out := ch, ed_queue := q\<rparr>" and r: "r = None"
    by (auto split: option.splits)
  have i: "oc_inv (ed_out d)" "inv (ed_queue d)" using assms(1) by (auto simp: edge_inv_def)
  note S = oc_step_correct [OF i(1) s] and P = put_all_contents [OF i(2) p]
  from P msg_ok_nonempty [OF S(5)] assms(1) S(1) d' have "edge_inv d'"
    by (auto simp: edge_inv_def chunks_nonempty_def)
  moreover have "in_transit d @ produced x = in_transit d'"
    using S(4) P d' Produce by (simp add: in_transit_def)
  ultimately show ?thesis using r by (simp add: received_def)
next
  case Consume
  obtain ch q y where g: "ic_get get (ed_in d) (ed_queue d) = (ch, q, y)" by (metis prod_cases3)
  with assms(2) Consume have d': "d' = d\<lparr>ed_in := ch, ed_queue := q\<rparr>" "r = Some y" by auto
  from assms(1) have "inv (ed_queue d)" "ic_deque (ed_in d)" "chunks_nonempty (contents (ed_queue d))"
    by (auto simp: edge_inv_def)
  from ic_get_view [OF this g] assms(1) d' Consume show ?thesis
    by (auto simp: edge_inv_def in_transit_def received_def split: sum.splits)
qed

lemma edge_run_correct:
  assumes "edge_inv d" and "edge_run put get xs d = Some (d', rs)"
  shows "edge_inv d' \<and> in_transit d @ concat (map produced xs) = received rs @ in_transit d'"
  using assms
proof (induction xs arbitrary: d rs)
  case Nil
  then show ?case by (simp add: received_def)
next
  case (Cons x xs)
  obtain d1 r rs1 where s: "edge_step put get x d = Some (d1, r)"
    and t: "edge_run put get xs d1 = Some (d', rs1)"
    and rs: "rs = (case r of None \<Rightarrow> rs1 | Some y \<Rightarrow> y # rs1)"
    using Cons.prems(2) by (auto split: option.splits)
  note S = edge_step_correct [OF Cons.prems(1) s]
  note T = Cons.IH [OF conjunct1 [OF S] t]
  have "received rs = received (case r of None \<Rightarrow> [] | Some y \<Rightarrow> [y]) @ received rs1"
    using rs by (auto simp: received_def split: option.splits)
  with S T show ?case by (metis append_assoc concat.simps(2) list.map(2))
qed

end

interpretation be: chunked_edge "\<lambda>_. True" bq_items "\<lambda>_. bq_put" bq_get
  by unfold_locales

definition edge_new :: "int \<Rightarrow> real \<Rightarrow> nat \<Rightarrow> ('a msg bqueue, 'a) edge" where
  "edge_new chunk_size chunk_ms maxsize =
     \<lparr>ed_out = oc_new chunk_size chunk_ms, ed_queue = \<lparr>bq_maxsize = maxsize, bq_items = []\<rparr>, ed_in = ic_new\<rparr>"

lemma edge_new_inv:
  "be.edge_inv (edge_new chunk_size chunk_ms maxsize)"
  "be.in_transit (edge_new chunk_size chunk_ms maxsize) = []"
  by (simp_all add: be.edge_inv_def be.in_transit_def edge_new_def ic_new_def chunks_nonempty_def)

text \<open>
  C19: a chunked edge delivers exactly what was sent. For any interleaving of a producer's sends
  and idle flushes with a consumer's reads, on any bounded queue and with any chunk size: the
  payloads received, then those buffered at the consumer, those on the queue and those pending at
  the producer, are the payloads sent, in order.
\<close>

theorem chunked_edge_transparent:
  assumes "edge_run (\<lambda>_. bq_put) bq_get ops (edge_new chunk_size chunk_ms maxsize) = Some (d, rs)"
  shows "concat (map produced ops) =
           received rs @ ic_buf (ed_in d) @ unchunk (bq_items (ed_queue d)) @ oc_pending (ed_out d)"
  using be.edge_run_correct [OF edge_new_inv(1) assms] unfolding edge_new_inv(2)
  by (simp add: be.in_transit_def)

theorem chunked_edge_transparent_witness:
  "\<exists>d rs. edge_run (\<lambda>_. bq_put) bq_get
      [Produce () (Send 0 0 (Obj (1::nat))), Produce () (Send 0 0 (Obj 2)), Consume, Produce () (Send 0 0 (Obj 3))]
      (edge_new 2 10 1) = Some (d, rs) \<and> received rs = [Obj 1] \<and>
     [Obj 1, Obj 2, Obj 3] =
       received rs @ ic_buf (ed_in d) @ unchunk (bq_items (ed_queue d)) @ oc_pending (ed_out d)"
proof -
  let ?ops = "[Produce () (Send 0 0 (Obj (1::nat))), Produce () (Send 0 0 (Obj 2)), Consume,
    Produce () (Send 0 0 (Obj 3))]"
  let ?r = "edge_run (\<lambda>_. bq_put) bq_get ?ops (edge_new 2 10 1)"
  have "?r \<noteq> None" and rec: "\<And>d rs. ?r = Some (d, rs) \<Longrightarrow> received rs = [Obj 1]"
    by (auto simp: edge_new_def oc_new_def oc_send_def oc_flush_def ic_get_def ic_new_def popleft_def
        bq_put_def bq_get_def bq_full_def received_def Let_def)
  then obtain d rs where r: "?r = Some (d, rs)" by auto
  from chunked_edge_transparent [OF r] rec [OF r] r show ?thesis by auto
qed

section \<open>The instrumented queue\<close>

text \<open>
  \<open>debug=True\<close> wraps every edge: messages carry the time they were put, and counters record
  puts, gets and the total transit time. The counters move only after the inner operation
  succeeded (a full or empty queue raises first).
\<close>

record 'm iqueue =
  iq_queue :: "('m \<times> real) bqueue"
  iq_items_put :: nat
  iq_items_got :: nat
  iq_total_transit :: real

definition iq_new :: "nat \<Rightarrow> 'm iqueue" where
  "iq_new maxsize =
     \<lparr>iq_queue = \<lparr>bq_maxsize = maxsize, bq_items = []\<rparr>, iq_items_put = 0, iq_items_got = 0, iq_total_transit = 0\<rparr>"

definition iq_put :: "real \<Rightarrow> 'm \<Rightarrow> 'm iqueue \<Rightarrow> 'm iqueue \<times> (exn + unit)" where
  "iq_put now m q =
     (case bq_put (m, now) (iq_queue q) of
        (q1, Inr True) \<Rightarrow> (q\<lparr>iq_queue := q1, iq_items_put := iq_items_put q + 1\<rparr>, Inr ())
      | (q1, Inr False) \<Rightarrow> (q\<lparr>iq_queue := q1\<rparr>, Inl FullE)
      | (q1, Inl e) \<Rightarrow> (q\<lparr>iq_queue := q1\<rparr>, Inl e))"

definition iq_get :: "real \<Rightarrow> 'm iqueue \<Rightarrow> 'm iqueue \<times> (exn + 'm)" where
  "iq_get now q =
     (case bq_get (iq_queue q) of
        (q1, Inr (Some (m, put_time))) \<Rightarrow>
          (q\<lparr>iq_queue := q1, iq_total_transit := iq_total_transit q + (now - put_time),
             iq_items_got := iq_items_got q + 1\<rparr>, Inr m)
      | (q1, Inr None) \<Rightarrow> (q\<lparr>iq_queue := q1\<rparr>, Inl EmptyE)
      | (q1, Inl e) \<Rightarrow> (q\<lparr>iq_queue := q1\<rparr>, Inl e))"

definition iq_qsize :: "'m iqueue \<Rightarrow> nat" where
  "iq_qsize q = length (bq_items (iq_queue q))"

datatype 'm iq_op = IPut real 'm | IGet real

fun iq_step :: "'m iq_op \<Rightarrow> 'm iqueue \<Rightarrow> 'm iqueue" where
  "iq_step (IPut t m) q = fst (iq_put t m q)"
| "iq_step (IGet t) q = fst (iq_get t q)"

definition iq_balanced :: "'m iqueue \<Rightarrow> bool" where
  "iq_balanced q \<longleftrightarrow> iq_items_put q = iq_items_got q + iq_qsize q"

lemma iq_step_balanced: "iq_balanced q \<Longrightarrow> iq_balanced (iq_step x q)"
  by (cases x)
     (auto simp: iq_balanced_def iq_put_def iq_get_def iq_qsize_def bq_put_def bq_get_def split: list.splits)

text \<open>
  The transit counters of the instrumented queue always account for what is queued: puts
  minus gets is the queue size, through any sequence of successful and refused operations.
\<close>

theorem instrumented_counts:
  "iq_items_put (fold iq_step ops (iq_new maxsize)) =
     iq_items_got (fold iq_step ops (iq_new maxsize)) + iq_qsize (fold iq_step ops (iq_new maxsize))"
proof -
  have "iq_balanced q \<Longrightarrow> iq_balanced (fold iq_step ops q)" for q
    by (induction ops arbitrary: q) (auto intro: iq_step_balanced)
  from this [of "iq_new maxsize"] show ?thesis
    by (simp add: iq_balanced_def iq_new_def iq_qsize_def)
qed

section \<open>PipeIterator: competing readers of the final queue\<close>

text \<open>One turn of the loop in \<open>PipeIterator.__next__\<close>.\<close>

datatype 'a poll = Yield "'a val" | StopIteration | Again | Failed exn

definition pi_poll ::
  "('q \<Rightarrow> 'q \<times> (exn + 'a msg option)) \<Rightarrow> 'a in_channel \<Rightarrow> 'q \<Rightarrow> 'a in_channel \<times> 'q \<times> 'a poll" where
  "pi_poll get ch q =
     (case ic_get get ch q of
        (ch', q', Inr x) \<Rightarrow> (ch', q', if is_end x then StopIteration else Yield x)
      | (ch', q', Inl e) \<Rightarrow> (ch', q', if e = EmptyE then Again else Failed e))"

text \<open>
  Shared-queue (DDP) mode: every rank has its own iterator on the same queue. A rank whose iterator
  has stopped does not read again. A schedule is the order in which ranks poll.
\<close>

record 'a reader =
  rd_ch :: "'a in_channel"
  rd_got :: "'a val list"
  rd_stopped :: bool

record 'a ddp =
  dd_queue :: "'a msg bqueue"
  dd_readers :: "'a reader list"

definition ddp_step :: "nat \<Rightarrow> 'a ddp \<Rightarrow> 'a ddp" where
  "ddp_step i s =
     (if length (dd_readers s) \<le> i \<or> rd_stopped (dd_readers s ! i) then s
      else
        let r = dd_readers s ! i in
        (case pi_poll bq_get (rd_ch r) (dd_queue s) of
           (ch, q, Yield x) \<Rightarrow>
             s\<lparr>dd_queue := q, dd_readers := (dd_readers s)[i := r\<lparr>rd_ch := ch, rd_got := rd_got r @ [x]\<rparr>]\<rparr>
         | (ch, q, StopIteration) \<Rightarrow>
             s\<lparr>dd_queue := q, dd_readers := (dd_readers s)[i := r\<lparr>rd_ch := ch, rd_stopped := True\<rparr>]\<rparr>
         | (ch, q, _) \<Rightarrow> s\<lparr>dd_queue := q, dd_readers := (dd_readers s)[i := r\<lparr>rd_ch := ch\<rparr>]\<rparr>))"

definition ddp_new :: "nat \<Rightarrow> 'a msg list \<Rightarrow> 'a ddp" where
  "ddp_new n ms =
     \<lparr>dd_queue = \<lparr>bq_maxsize = 0, bq_items = ms\<rparr>,
      dd_readers = replicate n \<lparr>rd_ch = ic_new, rd_got = [], rd_stopped = False\<rparr>\<rparr>"

text \<open>What the final stage leaves on the queue: its messages, then one \<open>End\<close> per consumer.\<close>

definition no_end :: "'a val list \<Rightarrow> bool" where
  "no_end xs \<longleftrightarrow> EndV \<notin> set xs"

definition final_queue :: "nat \<Rightarrow> 'a msg list \<Rightarrow> 'a msg list" where
  "final_queue n ms = ms @ replicate n (ItemM EndV)"

definition stopped_count :: "'a ddp \<Rightarrow> nat" where
  "stopped_count s = length (filter rd_stopped (dd_readers s))"

definition delivered :: "'a ddp \<Rightarrow> 'a val multiset" where
  "delivered s = mset (concat (map rd_got (dd_readers s)))"

definition buffered :: "'a ddp \<Rightarrow> 'a val multiset" where
  "buffered s = mset (concat (map (\<lambda>r. ic_buf (rd_ch r)) (dd_readers s)))"

text \<open>
  The invariant of shared-queue mode, for \<open>n\<close> readers and the items of \<open>ms\<close>: the queue holds
  a rest of the messages and then one \<open>End\<close> for every reader that is still running; a reader has
  stopped only if that rest is empty; every item is queued, buffered or delivered.
\<close>

definition reader_ok :: "'a reader \<Rightarrow> bool" where
  "reader_ok r \<longleftrightarrow> ic_deque (rd_ch r) \<and> no_end (ic_buf (rd_ch r)) \<and> (rd_stopped r \<longrightarrow> ic_buf (rd_ch r) = [])"

definition ddp_inv :: "nat \<Rightarrow> 'a msg list \<Rightarrow> 'a msg list \<Rightarrow> 'a ddp \<Rightarrow> bool" where
  "ddp_inv n ms rest s \<longleftrightarrow>
     length (dd_readers s) = n \<and>
     bq_items (dd_queue s) = final_queue (n - stopped_count s) rest \<and>
     no_end (unchunk rest) \<and> chunks_nonempty rest \<and>
     (rest \<noteq> [] \<longrightarrow> stopped_count s = 0) \<and>
     (\<forall>r \<in> set (dd_readers s). reader_ok r) \<and>
     delivered s + buffered s + mset (unchunk rest) = mset (unchunk ms)"

lemma stopped_count_le: "stopped_count s \<le> length (dd_readers s)"
  by (simp add: stopped_count_def)

text \<open>What a reader that still runs finds when it polls.\<close>

lemma pi_poll_running:
  assumes "reader_ok r" and "bq_items q = final_queue k rest" and "0 < k"
    and "no_end (unchunk rest)" and "chunks_nonempty rest"
  shows "(\<exists>x ch' q' rest'. pi_poll bq_get (rd_ch r) q = (ch', q', Yield x) \<and>
            ic_buf (rd_ch r) @ unchunk rest = x # ic_buf ch' @ unchunk rest' \<and> ic_deque ch' \<and>
            no_end (ic_buf ch') \<and> bq_items q' = final_queue k rest' \<and>
            no_end (unchunk rest') \<and> chunks_nonempty rest' \<and> (rest = [] \<longrightarrow> rest' = [])) \<or>
         ic_buf (rd_ch r) = [] \<and> rest = [] \<and>
         pi_poll bq_get (rd_ch r) q = (rd_ch r, q\<lparr>bq_items := final_queue (k - 1) []\<rparr>, StopIteration)"
proof (cases "ic_buf (rd_ch r)")
  case (Cons x xs)
  with assms show ?thesis
    by (auto simp: pi_poll_def ic_get_def popleft_def reader_ok_def no_end_def is_end_def)
next
  case Nil
  show ?thesis
  proof (cases rest)
    case r: Nil
    with assms obtain k' where "k = Suc k'" by (cases k) auto
    with Nil r assms show ?thesis
      by (auto simp: pi_poll_def ic_get_def bq_get_def final_queue_def)
  next
    case (Cons m ms)
    show ?thesis
    proof (cases m)
      case (ItemM x)
      with Nil Cons assms show ?thesis
        by (auto simp: pi_poll_def ic_get_def bq_get_def final_queue_def reader_ok_def no_end_def is_end_def
              chunks_nonempty_def)
    next
      case (ChunkM xs)
      with Cons assms obtain y ys where "xs = y # ys" by (cases xs) (auto simp: chunks_nonempty_def)
      with ChunkM Nil Cons assms show ?thesis
        by (auto simp: pi_poll_def ic_get_def bq_get_def popleft_def final_queue_def reader_ok_def no_end_def
              is_end_def chunks_nonempty_def)
    qed
  qed
qed

lemma reader_ok_update:
  "\<forall>r \<in> set rs. reader_ok r \<Longrightarrow> reader_ok r' \<Longrightarrow> \<forall>r \<in> set (rs[i := r']). reader_ok r"
  using set_update_subset_insert by fastforce

lemma ddp_step_inv:
  assumes inv: "ddp_inv n ms rest s"
  shows "\<exists>rest'. ddp_inv n ms rest' (ddp_step i s)"
proof (cases "length (dd_readers s) \<le> i \<or> rd_stopped (dd_readers s ! i)")
  case True
  with inv show ?thesis by (auto simp: ddp_step_def)
next
  case False
  let ?r = "dd_readers s ! i" and ?rs = "dd_readers s" and ?k = "n - stopped_count s"
  from False have i: "i < length ?rs" and run: "\<not> rd_stopped ?r" by auto
  have sc: "stopped_count s < n"
    using filter_length_lt [OF i, of rd_stopped] run inv by (simp add: stopped_count_def ddp_inv_def)
  have ok: "reader_ok ?r" using inv i by (auto simp: ddp_inv_def)
  from inv sc have pre: "bq_items (dd_queue s) = final_queue ?k rest" "0 < ?k"
    "no_end (unchunk rest)" "chunks_nonempty rest" by (auto simp: ddp_inv_def)
  from pi_poll_running [OF ok pre] show ?thesis
  proof (elim disjE exE conjE)
    fix x ch' q' rest'
    assume p: "pi_poll bq_get (rd_ch ?r) (dd_queue s) = (ch', q', Yield x)"
      and v: "ic_buf (rd_ch ?r) @ unchunk rest = x # ic_buf ch' @ unchunk rest'" "ic_deque ch'"
      "no_end (ic_buf ch')" "bq_items q' = final_queue ?k rest'" "no_end (unchunk rest')"
      "chunks_nonempty rest'" "rest = [] \<longrightarrow> rest' = []"
    let ?r' = "?r\<lparr>rd_ch := ch', rd_got := rd_got ?r @ [x]\<rparr>"
    have s': "ddp_step i s = s\<lparr>dd_queue := q', dd_readers := ?rs[i := ?r']\<rparr>"
      using False p by (simp add: ddp_step_def Let_def)
    have cnt: "stopped_count (ddp_step i s) = stopped_count s"
      using length_filter_update [OF i, of rd_stopped ?r'] run by (simp add: s' stopped_count_def)
    have dl: "delivered (ddp_step i s) = delivered s + {#x#}"
      using mset_concat_update [OF i, of rd_got ?r'] by (simp add: s' delivered_def)
    have bf: "buffered (ddp_step i s) + mset (ic_buf (rd_ch ?r)) = buffered s + mset (ic_buf ch')"
      using mset_concat_update [OF i, of "\<lambda>r. ic_buf (rd_ch r)" ?r'] by (simp add: s' buffered_def)
    have tk: "mset (ic_buf (rd_ch ?r)) + mset (unchunk rest) = {#x#} + mset (ic_buf ch') + mset (unchunk rest')"
      using arg_cong [OF v(1), of mset] by (simp add: ac_simps)
    have cons: "delivered (ddp_step i s) + buffered (ddp_step i s) + mset (unchunk rest') =
        delivered s + buffered s + mset (unchunk rest)"
      unfolding dl by (rule transfer_balance [OF bf tk])
    have "\<forall>r \<in> set (?rs[i := ?r']). reader_ok r"
      using inv v run by (intro reader_ok_update) (auto simp: ddp_inv_def reader_ok_def)
    with inv v cnt cons s' have "ddp_inv n ms rest' (ddp_step i s)"
      by (auto simp: ddp_inv_def)
    then show ?thesis ..
  next
    assume p: "pi_poll bq_get (rd_ch ?r) (dd_queue s) =
        (rd_ch ?r, (dd_queue s)\<lparr>bq_items := final_queue (?k - 1) []\<rparr>, StopIteration)"
      and e: "ic_buf (rd_ch ?r) = []" "rest = []"
    let ?r' = "?r\<lparr>rd_ch := rd_ch ?r, rd_stopped := True\<rparr>"
    have s': "ddp_step i s = s\<lparr>dd_queue := (dd_queue s)\<lparr>bq_items := final_queue (?k - 1) []\<rparr>,
        dd_readers := ?rs[i := ?r']\<rparr>"
      using False p by (simp add: ddp_step_def Let_def)
    have cnt: "stopped_count (ddp_step i s) = Suc (stopped_count s)"
      using length_filter_update [OF i, of rd_stopped ?r'] run by (simp add: s' stopped_count_def)
    have "delivered (ddp_step i s) = delivered s" "buffered (ddp_step i s) = buffered s"
      using mset_concat_update [OF i, of rd_got ?r'] mset_concat_update [OF i, of "\<lambda>r. ic_buf (rd_ch r)" ?r']
      by (simp_all add: s' delivered_def buffered_def)
    moreover have "\<forall>r \<in> set (?rs[i := ?r']). reader_ok r"
      using inv e ok by (intro reader_ok_update) (auto simp: ddp_inv_def reader_ok_def)
    ultimately have "ddp_inv n ms [] (ddp_step i s)"
      using inv e cnt s' by (auto simp: ddp_inv_def)
    then show ?thesis ..
  qed
qed

lemma ddp_run_inv: "ddp_inv n ms rest s \<Longrightarrow> \<exists>rest'. ddp_inv n ms rest' (fold ddp_step sched s)"
proof (induction sched arbitrary: s rest)
  case (Cons i sched)
  from ddp_step_inv [OF Cons.prems] obtain r1 where "ddp_inv n ms r1 (ddp_step i s)" by blast
  from Cons.IH [OF this] show ?case by simp
qed auto

lemma ddp_new_inv:
  assumes "no_end (unchunk ms)" and "chunks_nonempty ms"
  shows "ddp_inv n ms ms (ddp_new n (final_queue n ms))"
proof -
  have "stopped_count (ddp_new n (final_queue n ms)) = 0"
    by (simp add: stopped_count_def ddp_new_def)
  moreover have "delivered (ddp_new n (final_queue n ms)) = {#}" "buffered (ddp_new n (final_queue n ms)) = {#}"
    by (simp_all add: delivered_def buffered_def ddp_new_def ic_new_def concat_replicate_trivial)
  ultimately show ?thesis
    using assms by (auto simp: ddp_inv_def ddp_new_def reader_ok_def ic_new_def no_end_def)
qed

text \<open>
  C27: one pipeline feeding \<open>n\<close> ranks. With one \<open>End\<close> per rank behind the items, under every
  schedule of the ranks: no item is delivered twice or invented, and once every rank has stopped,
  every item was delivered to exactly one of them.
\<close>

theorem ddp_exactly_once:
  assumes "no_end (unchunk ms)" and "chunks_nonempty ms" and "0 < n"
    and "s = fold ddp_step sched (ddp_new n (final_queue n ms))"
  shows "delivered s \<subseteq># mset (unchunk ms) \<and>
         (stopped_count s = n \<longrightarrow> delivered s = mset (unchunk ms))"
proof -
  from ddp_run_inv [OF ddp_new_inv [OF assms(1,2)]] assms(4) obtain rest where inv: "ddp_inv n ms rest s"
    by blast
  have "delivered s \<subseteq># mset (unchunk ms)"
  proof -
    have "mset (unchunk ms) = delivered s + (buffered s + mset (unchunk rest))"
      using inv by (simp add: ddp_inv_def add.assoc)
    then show ?thesis by simp
  qed
  moreover have "delivered s = mset (unchunk ms)" if all: "stopped_count s = n"
  proof -
    have "length (filter rd_stopped (dd_readers s)) = length (dd_readers s)"
      using all inv by (simp add: ddp_inv_def stopped_count_def)
    then have "\<forall>r \<in> set (dd_readers s). rd_stopped r" by (rule filter_length_eqD)
    with inv have "\<forall>r \<in> set (dd_readers s). ic_buf (rd_ch r) = []"
      by (auto simp: ddp_inv_def reader_ok_def)
    then have "buffered s = {#}" by (simp add: buffered_def)
    moreover have "rest = []" using inv all assms(3) by (auto simp: ddp_inv_def)
    ultimately show ?thesis using inv by (simp add: ddp_inv_def)
  qed
  ultimately show ?thesis by blast
qed

theorem ddp_exactly_once_witness:
  "\<exists>s. s = fold ddp_step [0, 1, 0, 1, 1] (ddp_new 2 (final_queue 2 [ItemM (Obj (1::nat)), ChunkM [Obj 2, Obj 3]])) \<and>
     stopped_count s = 2 \<and> delivered s = {#Obj 1, Obj 2, Obj 3#}"
proof -
  let ?ms = "[ItemM (Obj (1::nat)), ChunkM [Obj 2, Obj 3]]"
  define s where "s = fold ddp_step [0, 1, 0, 1, 1] (ddp_new 2 (final_queue 2 ?ms))"
  have "stopped_count s = 2"
    by (simp add: s_def ddp_new_def final_queue_def ddp_step_def pi_poll_def ic_get_def ic_new_def popleft_def
        bq_get_def stopped_count_def numeral_2_eq_2)
  with ddp_exactly_once [of ?ms 2 s "[0, 1, 0, 1, 1]"] show ?thesis
    by (auto simp: s_def no_end_def chunks_nonempty_def)
qed

text \<open>
  No rank is left behind. A rank that has not stopped always gets an item or its own
  \<open>End\<close> when it polls: it never finds the queue empty and never fails.
\<close>

theorem ddp_rank_progress:
  assumes "no_end (unchunk ms)" and "chunks_nonempty ms"
    and "s = fold ddp_step sched (ddp_new n (final_queue n ms))"
    and "i < n" and "\<not> rd_stopped (dd_readers s ! i)"
  shows "(\<exists>x. snd (snd (pi_poll bq_get (rd_ch (dd_readers s ! i)) (dd_queue s))) = Yield x) \<or>
         snd (snd (pi_poll bq_get (rd_ch (dd_readers s ! i)) (dd_queue s))) = StopIteration"
proof -
  from ddp_run_inv [OF ddp_new_inv [OF assms(1,2)]] assms(3) obtain rest where inv: "ddp_inv n ms rest s"
    by blast
  from inv assms(4) have i: "i < length (dd_readers s)" by (simp add: ddp_inv_def)
  then have sc: "0 < n - stopped_count s" and ok: "reader_ok (dd_readers s ! i)"
    using filter_length_lt [OF i, of rd_stopped] assms(5) inv by (auto simp: stopped_count_def ddp_inv_def)
  from inv have "bq_items (dd_queue s) = final_queue (n - stopped_count s) rest"
    "no_end (unchunk rest)" "chunks_nonempty rest" by (simp_all add: ddp_inv_def)
  from pi_poll_running [OF ok this(1) sc this(2,3)] show ?thesis
    by (elim disjE exE conjE) simp_all
qed

theorem ddp_rank_progress_witness:
  "(\<exists>x. snd (snd (pi_poll bq_get (rd_ch (dd_readers (ddp_new 1 (final_queue 1 [ItemM (Obj (1::nat))])) ! 0))
      (dd_queue (ddp_new 1 (final_queue 1 [ItemM (Obj 1)]))))) = Yield x) \<or>
   snd (snd (pi_poll bq_get (rd_ch (dd_readers (ddp_new 1 (final_queue 1 [ItemM (Obj (1::nat))])) ! 0))
      (dd_queue (ddp_new 1 (final_queue 1 [ItemM (Obj 1)]))))) = StopIteration"
  by (rule ddp_rank_progress [of "[ItemM (Obj 1)]" _ "[]" 1])
     (simp_all add: no_end_def chunks_nonempty_def ddp_new_def)

end
