(* ===== verification/Pipe_Workers.thy ===== *)
theory Pipe_Workers
  imports Pipe_Channels
begin

text \<open>
  The building blocks of the worker run loops in \<^verbatim>\<open>src/pipe/workers.py\<close>: what a worker may look
  at in an item (\<open>extract_audio_duration\<close>, \<open>_has_cuda_tensor\<close>), its output side (\<open>_emit\<close>), the
  back edge (\<open>_make_push\<close>), draining a source generator with its retry delay
  (\<open>_drain_source_generator\<close>, \<open>_SourceBackoff\<close>), and handing a GPU back (\<open>_maybe_park\<close>,
  \<open>_park_release_gpu\<close>). Whatever the code reads from the outside (clock, flags other processes
  set, the outcome of user hooks and of the underlying put) is an argument.
\<close>

section \<open>Audio seconds in an item\<close>

text \<open>
  The dictionary fields \<open>extract_audio_duration\<close> reads: \<open>duration\<close> (a number or a list of
  numbers), \<open>sample\<close> and \<open>segments\<close> (dictionaries of which only \<open>duration\<close> is read). A user
  object that is not a dictionary has no such view.
\<close>

datatype duration_field = DurNum real | DurList "real list"

record audio_dict =
  d_duration :: "duration_field option"
  d_sample :: "real option option"
  d_segments :: "real option list option"

definition get_or_zero :: "real option \<Rightarrow> real" where
  "get_or_zero d = (case d of None \<Rightarrow> 0 | Some r \<Rightarrow> r)"

definition dict_duration :: "audio_dict \<Rightarrow> real" where
  "dict_duration d =
     (let rest =
        (case d_sample d of
           Some s \<Rightarrow> get_or_zero s
         | None \<Rightarrow> (case d_segments d of
             Some segs \<Rightarrow> sum_list (map get_or_zero segs)
           | None \<Rightarrow> 0))
      in case d_duration d of
           Some (DurList rs) \<Rightarrow> sum_list rs
         | Some (DurNum r) \<Rightarrow> if r \<noteq> 0 then r else rest
         | None \<Rightarrow> rest)"

fun extract_audio_duration :: "('a \<Rightarrow> audio_dict option) \<Rightarrow> 'a val \<Rightarrow> real" where
  "extract_audio_duration dict NoneV = 0"
| "extract_audio_duration dict (SentV s) = 0"
| "extract_audio_duration dict (ListV xs) = sum_list (map (extract_audio_duration dict) xs)"
| "extract_audio_duration dict (Obj a) = (case dict a of None \<Rightarrow> 0 | Some d \<Rightarrow> dict_duration d)"

section \<open>Scanning an outgoing item for CUDA tensors\<close>

text \<open>The shape \<open>_has_cuda_tensor\<close> looks at; tuples and lists are one case in the code.\<close>

datatype shape = Tensor bool | DictS "shape list" | SeqS "shape list" | LeafS

fun has_cuda_tensor :: "bool \<Rightarrow> shape \<Rightarrow> nat \<Rightarrow> bool" where
  "has_cuda_tensor torch (Tensor is_cuda) depth = (torch \<and> is_cuda)"
| "has_cuda_tensor torch (DictS vs) depth =
     (torch \<and> depth < 2 \<and> (\<exists>v \<in> set vs. has_cuda_tensor torch v (depth + 1)))"
| "has_cuda_tensor torch (SeqS vs) depth =
     (torch \<and> depth < 2 \<and> (\<exists>v \<in> set vs. has_cuda_tensor torch v (depth + 1)))"
| "has_cuda_tensor torch LeafS depth = False"

text \<open>The reference: a CUDA tensor at nesting depth at most \<open>k\<close>.\<close>

inductive cuda_within :: "nat \<Rightarrow> shape \<Rightarrow> bool" where
  cuda_here: "cuda_within k (Tensor True)"
| cuda_dict: "v \<in> set vs \<Longrightarrow> cuda_within k v \<Longrightarrow> cuda_within (Suc k) (DictS vs)"
| cuda_seq: "v \<in> set vs \<Longrightarrow> cuda_within k v \<Longrightarrow> cuda_within (Suc k) (SeqS vs)"

inductive_simps cuda_within_simps [simp]:
  "cuda_within k (Tensor c)" "cuda_within 0 (DictS vs)" "cuda_within 0 (SeqS vs)"
  "cuda_within (Suc k) (DictS vs)" "cuda_within (Suc k) (SeqS vs)" "cuda_within k LeafS"

lemma cuda_scan_depth:
  "depth + k = 2 \<Longrightarrow> has_cuda_tensor torch obj depth \<longleftrightarrow> torch \<and> cuda_within k obj"
proof (induction obj arbitrary: depth k)
  case (DictS vs)
  then show ?case by (cases k) auto
next
  case (SeqS vs)
  then show ?case by (cases k) auto
qed auto

text \<open>
  The bounded scan of an outgoing item reports a CUDA tensor exactly when the item holds one
  at nesting depth at most two (no false alarm, nothing missed to that depth), and never anything
  when torch is not loaded.
\<close>

theorem has_cuda_tensor_depth:
  "has_cuda_tensor torch obj 0 \<longleftrightarrow> torch \<and> cuda_within 2 obj"
  using cuda_scan_depth [of 0 2] by simp

section \<open>The output side of a worker\<close>

text \<open>
  The output channel together with the messages that reached the output queue. A blocking put
  either delivers (after any number of retries, \<open>put_retry\<close>) or raises what the queue raised; the
  observation of an emit holds the two clock readings of \<open>send\<close> and that exception. The number
  of IPC checks left, the shared flag and whether torch is loaded belong to \<open>_emit\<close>.
\<close>

record 'a out_port =
  op_ch :: "'a out_channel"
  op_log :: "'a msg list"
  op_ipc_left :: nat
  op_ipc_flag :: bool
  op_torch :: bool

record emit_obs =
  eo_t1 :: real
  eo_t2 :: real
  eo_exn :: "exn option"

definition port_put :: "exn option \<Rightarrow> 'a out_port \<Rightarrow> 'a out_channel \<times> 'a msg list \<Rightarrow> 'a out_port \<times> exn option" where
  "port_put e p r =
     (case r of (ch, ms) \<Rightarrow>
        if ms = [] then (p\<lparr>op_ch := ch\<rparr>, None)
        else case e of
          None \<Rightarrow> (p\<lparr>op_ch := ch, op_log := op_log p @ ms\<rparr>, None)
        | Some x \<Rightarrow> (p\<lparr>op_ch := ch\<rparr>, Some x))"

definition port_flush :: "exn option \<Rightarrow> 'a out_port \<Rightarrow> 'a out_port \<times> exn option" where
  "port_flush e p = port_put e p (oc_flush (op_ch p))"

definition port_maybe_flush :: "real \<Rightarrow> exn option \<Rightarrow> 'a out_port \<Rightarrow> 'a out_port \<times> exn option" where
  "port_maybe_flush now e p = port_put e p (oc_maybe_flush now (op_ch p))"

text \<open>
  \<open>_emit\<close>; \<open>view\<close> gives the shape of a payload. \<open>port_ipc\<close> is the IPC check at its head.
\<close>

definition port_ipc :: "('a val \<Rightarrow> shape) \<Rightarrow> 'a val \<Rightarrow> 'a out_port \<Rightarrow> 'a out_port" where
  "port_ipc view obj p =
     (if op_ipc_left p = 0 then p
      else if has_cuda_tensor (op_torch p) (view obj) 0 then p\<lparr>op_ipc_left := 0, op_ipc_flag := True\<rparr>
      else p\<lparr>op_ipc_left := op_ipc_left p - 1\<rparr>)"

definition emit :: "('a val \<Rightarrow> shape) \<Rightarrow> emit_obs \<Rightarrow> 'a val \<Rightarrow> 'a out_port \<Rightarrow> 'a out_port \<times> exn option" where
  "emit view eo obj p =
     (let p1 = port_ipc view obj p
      in port_put (eo_exn eo) p1 (oc_send (eo_t1 eo) (eo_t2 eo) obj (op_ch p1)))"

text \<open>Emitting a list one by one stops at the first exception.\<close>

fun emit_all ::
  "('a val \<Rightarrow> shape) \<Rightarrow> (nat \<Rightarrow> emit_obs) \<Rightarrow> nat \<Rightarrow> 'a val list \<Rightarrow> 'a out_port \<Rightarrow> 'a out_port \<times> exn option" where
  "emit_all view eos k [] p = (p, None)"
| "emit_all view eos k (x # xs) p =
     (case emit view (eos k) x p of
        (p1, None) \<Rightarrow> emit_all view eos (Suc k) xs p1
      | (p1, Some e) \<Rightarrow> (p1, Some e))"

text \<open>Everything handed to the port so far: what is on the queue, then what is still pending.\<close>

definition sent :: "'a out_port \<Rightarrow> 'a val list" where
  "sent p = unchunk (op_log p) @ oc_pending (op_ch p)"

definition port_ok :: "'a out_port \<Rightarrow> bool" where
  "port_ok p \<longleftrightarrow> oc_inv (op_ch p) \<and> (\<forall>m \<in> set (op_log p). payloads m \<noteq> [])"

definition quiet :: "(nat \<Rightarrow> emit_obs) \<Rightarrow> bool" where
  "quiet eos \<longleftrightarrow> (\<forall>k. eo_exn (eos k) = None)"

lemma quietD [simp]: "quiet eos \<Longrightarrow> eo_exn (eos k) = None"
  by (simp add: quiet_def)

lemma msg_ok_payloads: "msg_ok n m \<Longrightarrow> payloads m \<noteq> []"
  by (cases m) (simp_all add: msg_ok_def)

lemma port_put_step:
  assumes "port_ok p" and "oc_step x (op_ch p) = r" and "port_put e p r = (p', res)"
  shows "port_ok p'"
    and "res = None \<Longrightarrow> sent p' = sent p @ sent_by x"
    and "e = None \<Longrightarrow> res = None"
    and "\<exists>ms. op_log p' = op_log p @ ms"
    and "res \<noteq> None \<Longrightarrow> op_log p' = op_log p"
proof -
  obtain ch ms where r: "oc_step x (op_ch p) = (ch, ms)" by force
  have inv: "oc_inv (op_ch p)" using assms(1) by (simp add: port_ok_def)
  note S = oc_step_correct [OF inv r]
  have ne: "\<forall>m \<in> set ms. payloads m \<noteq> []" using S(5) msg_ok_payloads by blast
  show "port_ok p'" and "res = None \<Longrightarrow> sent p' = sent p @ sent_by x"
    and "e = None \<Longrightarrow> res = None" and "\<exists>ms. op_log p' = op_log p @ ms"
    and "res \<noteq> None \<Longrightarrow> op_log p' = op_log p"
    using S assms r ne
    by (auto simp: port_put_def port_ok_def sent_def split: if_splits option.splits)
qed

lemma port_ipc_fields [simp]:
  "op_ch (port_ipc view x p) = op_ch p" "op_log (port_ipc view x p) = op_log p"
  "port_ok (port_ipc view x p) = port_ok p" "sent (port_ipc view x p) = sent p"
  by (auto simp: port_ipc_def port_ok_def sent_def)

lemma emit_port_ipc:
  "emit view eo x p = port_put (eo_exn eo) (port_ipc view x p) (oc_step (Send (eo_t1 eo) (eo_t2 eo) x) (op_ch p))"
  by (simp add: emit_def)

lemma emit_correct:
  assumes "port_ok p" and "emit view eo x p = (p', res)"
  shows "port_ok p'" and "res = None \<Longrightarrow> sent p' = sent p @ [x]" and "eo_exn eo = None \<Longrightarrow> res = None"
    and "\<exists>ms. op_log p' = op_log p @ ms"
  using port_put_step [of "port_ipc view x p" "Send (eo_t1 eo) (eo_t2 eo) x" _ "eo_exn eo" p' res] assms
  by (auto simp: emit_port_ipc)

lemma port_flush_correct:
  assumes "port_ok p" and "port_flush e p = (p', res)"
  shows "port_ok p'" and "res = None \<Longrightarrow> sent p' = sent p" and "e = None \<Longrightarrow> res = None"
    and "oc_pending (op_ch p') = []" and "\<exists>ms. op_log p' = op_log p @ ms"
  using port_put_step [of p Flush _ e p' res] assms
  by (auto simp: port_flush_def) (auto simp: port_put_def oc_flush_def split: if_splits option.splits)

lemma port_maybe_flush_correct:
  assumes "port_ok p" and "port_maybe_flush now e p = (p', res)"
  shows "port_ok p'" and "res = None \<Longrightarrow> sent p' = sent p" and "e = None \<Longrightarrow> res = None"
    and "\<exists>ms. op_log p' = op_log p @ ms"
  using port_put_step [of p "MaybeFlush now" _ e p' res] assms
  by (auto simp: port_maybe_flush_def)

lemma emit_all_correct:
  assumes "port_ok p" and "emit_all view eos k xs p = (p', res)"
  shows "port_ok p' \<and> (res = None \<longrightarrow> sent p' = sent p @ xs) \<and> (quiet eos \<longrightarrow> res = None)
         \<and> (\<exists>ms. op_log p' = op_log p @ ms)"
  using assms
proof (induction xs arbitrary: k p)
  case (Cons x xs)
  obtain p1 r1 where e: "emit view (eos k) x p = (p1, r1)" by force
  note E = emit_correct [OF Cons.prems(1) e]
  show ?case
  proof (cases r1)
    case None
    with Cons.prems e have "emit_all view eos (Suc k) xs p1 = (p', res)" by simp
    from Cons.IH [OF E(1) this] E None show ?thesis by auto
  next
    case (Some ex)
    with Cons.prems e have "p' = p1" "res = Some ex" by auto
    with E Some show ?thesis by auto
  qed
qed simp

section \<open>Draining a source generator\<close>

text \<open>
  \<open>_drain_source_generator\<close>. The generator is the list of values it yields, each with what
  \<open>stop()\<close> answers when it is looked at, and how it ends. \<open>on_item\<close> and \<open>emit\<close> act on a state
  and may raise. The result is what the function returns, \<open>(raised, sent)\<close>, or the exception it
  lets through.
\<close>

fun drain_source_generator ::
  "bool \<Rightarrow> ('a val \<Rightarrow> 's \<Rightarrow> 's \<times> exn option) option \<Rightarrow> ('a val \<Rightarrow> 's \<Rightarrow> 's \<times> exn option) \<Rightarrow>
   (bool \<times> 'a val) list \<Rightarrow> exn option \<Rightarrow> nat \<Rightarrow> 's \<Rightarrow> 's \<times> (exn + bool \<times> nat)" where
  "drain_source_generator raise_errors em on_item [] fin n s =
     (case fin of
        None \<Rightarrow> (s, Inr (False, n))
      | Some e \<Rightarrow> if is_connection_error e \<or> raise_errors then (s, Inl e) else (s, Inr (True, n)))"
| "drain_source_generator raise_errors em on_item ((stop, x) # xs) fin n s =
     (if stop then (s, Inr (False, n))
      else if x = NoneV \<or> is_end x then drain_source_generator raise_errors em on_item xs fin n s
      else case on_item x s of
        (s1, Some e) \<Rightarrow> if is_connection_error e \<or> raise_errors then (s1, Inl e) else (s1, Inr (True, n))
      | (s1, None) \<Rightarrow>
          (case em of
             None \<Rightarrow> drain_source_generator raise_errors em on_item xs fin (Suc n) s1
           | Some f \<Rightarrow>
               (case f x s1 of
                  (s2, None) \<Rightarrow> drain_source_generator raise_errors em on_item xs fin (Suc n) s2
                | (s2, Some e) \<Rightarrow>
                    if is_connection_error e \<or> raise_errors then (s2, Inl e)
                    else drain_source_generator raise_errors em on_item xs fin (Suc n) s2)))"

text \<open>The items the loop looks at before \<open>stop()\<close> holds.\<close>

definition looked_at :: "(bool \<times> 'a val) list \<Rightarrow> 'a val list" where
  "looked_at xs = map snd (takeWhile (\<lambda>p. \<not> fst p) xs)"

text \<open>
  Draining a source generator handles each yielded item once and in order: with errors not
  raised and no connection error, every item that is neither \<open>None\<close> nor \<open>End\<close> is counted and
  handed to \<open>emit\<close> exactly once, up to the first item at which the worker is stopping; a failed
  send drops only that item and never restarts the generator; and the caller is told to call the
  source again exactly when the generator itself raised.
\<close>

theorem drain_source_generator_once:
  assumes "\<forall>x s. snd (on_item x s) = None"
    and "\<forall>x s e. snd (f x s) = Some e \<longrightarrow> \<not> is_connection_error e"
    and "\<forall>e. fin = Some e \<longrightarrow> \<not> is_connection_error e"
  shows "drain_source_generator False (Some f) on_item xs fin n s =
    (fold (\<lambda>x s. fst (f x (fst (on_item x s)))) (valid_items (looked_at xs)) s,
     Inr (fin \<noteq> None \<and> (\<forall>p \<in> set xs. \<not> fst p), n + length (valid_items (looked_at xs))))"
proof (induction xs arbitrary: n s)
  case Nil
  then show ?case using assms(3) by (auto simp: looked_at_def split: option.splits)
next
  case (Cons p xs)
  obtain stop x where p: "p = (stop, x)" by force
  obtain s1 r1 where o: "on_item x s = (s1, r1)" by force
  obtain s2 r2 where f: "f x s1 = (s2, r2)" by force
  have r1: "r1 = None" using assms(1) o by (metis snd_conv)
  have r2: "\<And>e. r2 = Some e \<Longrightarrow> \<not> is_connection_error e" using assms(2) f by (metis snd_conv)
  show ?case
    using Cons.IH o f r1 r2 unfolding p
    by (cases r2) (auto simp: looked_at_def valid_item_def)
qed

theorem drain_source_generator_once_witness:
  "drain_source_generator False (Some (\<lambda>x s. if x = Obj (2::nat) then (s, Some ValueE) else (s @ [x], None)))
     (\<lambda>x s. (s, None)) [(False, Obj 1), (False, NoneV), (False, Obj 2), (False, Obj 3)] (Some OtherExn) 0 []
   = ([Obj 1, Obj 3], Inr (True, 3))"
  using drain_source_generator_once [of "\<lambda>x s. (s, None)"
      "\<lambda>x s. if x = Obj (2::nat) then (s, Some ValueE) else (s @ [x], None)" "Some OtherExn"
      "[(False, Obj 1), (False, NoneV), (False, Obj 2), (False, Obj 3)]" 0 "[]"]
  by (simp add: looked_at_def is_connection_error_def)

section \<open>The delay before a failing source is called again\<close>

text \<open>
  \<open>_SourceBackoff.wait\<close>. \<open>self.base * 2 ** self.failures\<close> multiplies a float by an int, and
  converting an int of \<open>2 ^ 1024\<close> or more to a float raises \<open>OverflowError\<close>, before
  \<open>failures\<close> is incremented. The waiting loop is the list of its rounds, each the answer of
  \<open>stop()\<close> and the clock reading that follows; it has ended when the result is \<open>Some\<close>.
\<close>

record backoff =
  bo_base :: real
  bo_failures :: nat

definition backoff_delay :: "bool \<Rightarrow> backoff \<Rightarrow> backoff \<times> (exn + real)" where
  "backoff_delay made_progress b =
     (let b1 = (if made_progress then b\<lparr>bo_failures := 0\<rparr> else b) in
      if 1024 \<le> bo_failures b1 then (b1, Inl OtherExn)
      else (b1\<lparr>bo_failures := Suc (bo_failures b1)\<rparr>, Inr (min (bo_base b1 * 2 ^ bo_failures b1) 60)))"

fun backoff_rounds :: "real \<Rightarrow> (bool \<times> real) list \<Rightarrow> nat option" where
  "backoff_rounds deadline [] = None"
| "backoff_rounds deadline ((stop, now) # rs) =
     (if stop then Some 0
      else if deadline - now \<le> 0 then Some 0
      else map_option Suc (backoff_rounds deadline rs))"

definition backoff_wait :: "bool \<Rightarrow> real \<Rightarrow> (bool \<times> real) list \<Rightarrow> backoff \<Rightarrow> backoff \<times> (exn + nat option)" where
  "backoff_wait made_progress now rounds b =
     (case backoff_delay made_progress b of
        (b1, Inl e) \<Rightarrow> (b1, Inl e)
      | (b1, Inr delay) \<Rightarrow> (b1, Inr (backoff_rounds (now + delay) rounds)))"

text \<open>The delays of a run of failed calls, the first after progress.\<close>

fun backoff_run :: "nat \<Rightarrow> backoff \<Rightarrow> (exn + real) list" where
  "backoff_run 0 b = []"
| "backoff_run (Suc k) b = (case backoff_delay False b of (b1, r) \<Rightarrow> r # backoff_run k b1)"

lemma backoff_run_nth:
  assumes "bo_failures b + k \<le> 1024" and "i < k"
  shows "backoff_run k b ! i = Inr (min (bo_base b * 2 ^ (bo_failures b + i)) 60)"
  using assms
proof (induction k arbitrary: b i)
  case (Suc k)
  then show ?case
    by (cases i) (auto simp: backoff_delay_def Let_def)
qed simp

lemma backoff_rounds_end:
  "\<exists>(stop, t) \<in> set rounds. stop \<or> deadline \<le> t \<Longrightarrow> \<exists>n < length rounds. backoff_rounds deadline rounds = Some n"
proof (induction rounds)
  case (Cons r rounds)
  obtain stop t where r: "r = (stop, t)" by force
  show ?case
  proof (cases "stop \<or> deadline \<le> t")
    case False
    with Cons r obtain n where "n < length rounds" "backoff_rounds deadline rounds = Some n" by auto
    with False r show ?thesis by auto
  qed (auto simp: r)
qed simp

text \<open>
  The delay before a failing source is called again starts at the base, doubles with every
  failure and is capped at a minute, and returns to the base once a call has made progress, for up
  to 1024 failures in a row; and the waiting loop ends as soon as the worker is stopping or the
  clock reaches the deadline.
\<close>

theorem source_backoff_delays:
  assumes "0 < bo_base b" and "i < k" and "k \<le> 1024"
  shows "backoff_run k (b\<lparr>bo_failures := 0\<rparr>) ! i = Inr (min (bo_base b * 2 ^ i) 60)
    \<and> snd (backoff_delay True b) = Inr (min (bo_base b) 60)
    \<and> ((\<exists>(stop, t) \<in> set rounds. stop \<or> deadline \<le> t) \<longrightarrow> (\<exists>n < length rounds. backoff_rounds deadline rounds = Some n))"
  using assms backoff_run_nth [of "b\<lparr>bo_failures := 0\<rparr>" k i] backoff_rounds_end [of rounds deadline]
  by (auto simp: backoff_delay_def)

theorem source_backoff_delays_witness:
  "backoff_run 8 \<lparr>bo_base = 1, bo_failures = 0\<rparr> ! 5 = Inr 32"
  using source_backoff_delays [of "\<lparr>bo_base = 1, bo_failures = 0\<rparr>" 5 8] by simp

text \<open>
  After 1024 failed calls without progress the delay is gone: every further wait raises
  instead of waiting and leaves the failure count as it is, so the source is called again at once,
  for ever, although the class promises that a source that keeps failing does not spin.
\<close>

theorem source_backoff_overflow:
  assumes "bo_failures b = 1024"
  shows "backoff_wait False now rounds b = (b, Inl OtherExn) \<and> backoff_run k b = replicate k (Inl OtherExn)"
proof -
  have d: "backoff_delay False b = (b, Inl OtherExn)" using assms by (simp add: backoff_delay_def)
  have "backoff_run k b = replicate k (Inl OtherExn)" by (induction k) (simp_all add: d)
  with d show ?thesis by (simp add: backoff_wait_def)
qed

theorem source_backoff_overflow_witness:
  "backoff_run 3 \<lparr>bo_base = 1, bo_failures = 1024\<rparr> = replicate 3 (Inl OtherExn)"
  using source_backoff_overflow [of "\<lparr>bo_base = 1, bo_failures = 1024\<rparr>" 0 "[]" 3] by simp

end
