(* ===== verification/Pipe_Parking.thy ===== *)
theory Pipe_Parking
  imports Pipe_Workers
begin

text \<open>
  Handing a GPU back, worker side (\<^verbatim>\<open>src/pipe/workers.py\<close>): \<open>_maybe_park\<close>, the cooperative park
  between two items, and \<open>_park_release_gpu\<close>, the release of a finished worker. The park word is
  shared with the scavenger: 0 run, 1 park requested, 2 parked, 3 refused.
\<close>

section \<open>User hooks\<close>

text \<open>
  What calling the stage's \<open>on_park\<close> does; a stage without the method raises
  \<open>AttributeError\<close> when \<open>_maybe_park\<close> calls it. Returning \<open>None\<close> is returning no items.
\<close>

datatype 'a park_hook = HookMissing | HookRaises exn | HookItems "'a val list"

datatype unpark_call = CallOnUnpark | CallLoad | CallNothing

text \<open>\<open>_emit\<close> of a worker without an output queue fails on \<open>out_ch.send\<close>.\<close>

definition emit_items ::
  "('a val \<Rightarrow> shape) \<Rightarrow> (nat \<Rightarrow> emit_obs) \<Rightarrow> 'a val list \<Rightarrow> 'a out_port option \<Rightarrow> 'a out_port option \<times> exn option" where
  "emit_items view eos xs port =
     (case port of
        Some p \<Rightarrow> (case emit_all view eos 0 xs p of (p', r) \<Rightarrow> (Some p', r))
      | None \<Rightarrow> (None, if xs = [] then None else Some AttributeE))"

definition flush_opt :: "exn option \<Rightarrow> 'a out_port option \<Rightarrow> 'a out_port option \<times> exn option" where
  "flush_opt e port =
     (case port of
        Some p \<Rightarrow> (case port_flush e p of (p', r) \<Rightarrow> (Some p', r))
      | None \<Rightarrow> (None, None))"

section \<open>Parking between items\<close>

record 'a park_obs =
  po_hook :: "'a park_hook"
  po_emit :: "nat \<Rightarrow> emit_obs"
  po_flush :: "exn option"
  po_reads :: "(int \<times> int) list"
  po_stop_after :: int
  po_has_unpark :: bool
  po_has_load :: bool

datatype park_result = NotAsked | Refused | ParkRaised exn | StillParked | StoppedParked | Resumed unpark_call

text \<open>The waiting loop: its rounds are the readings of the park word and of \<open>should_stop\<close>.\<close>

fun park_wait :: "(int \<times> int) list \<Rightarrow> bool" where
  "park_wait [] = False"
| "park_wait ((park, stop) # rs) = (if park = 2 \<and> stop = 0 then park_wait rs else True)"

text \<open>
  \<open>_maybe_park\<close>: the output port, the values written to the park word in order, and how the call
  ends. \<open>StillParked\<close> means that the readings given end while it still waits. An exception of
  \<open>on_unpark\<close> or \<open>load\<close> is reported and swallowed.
\<close>

definition maybe_park ::
  "('a val \<Rightarrow> shape) \<Rightarrow> int option \<Rightarrow> 'a park_obs \<Rightarrow> 'a out_port option \<Rightarrow>
   'a out_port option \<times> int list \<times> park_result" where
  "maybe_park view park ob port =
     (if park \<noteq> Some 1 then (port, [], NotAsked)
      else case po_hook ob of
        HookMissing \<Rightarrow> (port, [3], Refused)
      | HookRaises e \<Rightarrow> (port, [3], Refused)
      | HookItems items \<Rightarrow>
          (case emit_items view (po_emit ob) (valid_items items) port of
             (port1, Some e) \<Rightarrow> (port1, [], ParkRaised e)
           | (port1, None) \<Rightarrow>
               (case flush_opt (po_flush ob) port1 of
                  (port2, Some e) \<Rightarrow> (port2, [], ParkRaised e)
                | (port2, None) \<Rightarrow>
                    (port2, [2],
                     if \<not> park_wait (po_reads ob) then StillParked
                     else if po_stop_after ob \<noteq> 0 then StoppedParked
                     else Resumed (if po_has_unpark ob then CallOnUnpark
                                   else if po_has_load ob then CallLoad else CallNothing)))))"

lemma emit_items_Some:
  assumes "emit_items view eos xs (Some p) = (port', res)" and "port_ok p"
  shows "\<exists>p'. port' = Some p' \<and> port_ok p' \<and> (res = None \<longrightarrow> sent p' = sent p @ xs)
    \<and> (quiet eos \<longrightarrow> res = None) \<and> (\<exists>ms. op_log p' = op_log p @ ms)"
proof -
  obtain p' where "port' = Some p'" "emit_all view eos 0 xs p = (p', res)"
    using assms(1) by (auto simp: emit_items_def split: prod.splits)
  with emit_all_correct [OF assms(2)] show ?thesis by blast
qed

lemma flush_opt_Some:
  assumes "flush_opt e (Some p) = (port', res)" and "port_ok p"
  shows "\<exists>p'. port' = Some p' \<and> port_ok p' \<and> oc_pending (op_ch p') = [] \<and> (res = None \<longrightarrow> sent p' = sent p)
    \<and> (e = None \<longrightarrow> res = None) \<and> (\<exists>ms. op_log p' = op_log p @ ms)"
proof -
  obtain p' where "port' = Some p'" and f: "port_flush e p = (p', res)"
    using assms(1) by (auto simp: flush_opt_def split: prod.splits)
  with port_flush_correct [OF assms(2) f] show ?thesis by blast
qed

text \<open>
  C25: parking never strands or drops work. The worker acknowledges the release of its GPU (writes
  2) only after \<open>on_park\<close> returned, every item it handed back (except \<open>None\<close> and \<open>End\<close>) has been
  emitted in order and nothing is left in the output buffer; a stage whose \<open>on_park\<close> raises or is
  missing refuses (writes 3) and its output is untouched; in no other case is the park word written,
  and without a request nothing happens at all.
\<close>

theorem park_ack_safe:
  assumes "port_ok p" and "maybe_park view park ob (Some p) = (port', writes, res)"
  shows "(park \<noteq> Some 1 \<and> port' = Some p \<and> writes = [])
    \<or> (writes = [3] \<and> (\<nexists>items. po_hook ob = HookItems items) \<and> port' = Some p \<and> res = Refused)
    \<or> (\<exists>items p'. writes = [2] \<and> po_hook ob = HookItems items \<and> port' = Some p' \<and> port_ok p'
         \<and> unchunk (op_log p') = sent p @ valid_items items \<and> oc_pending (op_ch p') = [])
    \<or> (writes = [] \<and> (\<exists>e. res = ParkRaised e))"
proof (cases "park = Some 1 \<and> (\<exists>items. po_hook ob = HookItems items)")
  case False
  with assms(2) show ?thesis
    by (auto simp: maybe_park_def split: if_splits park_hook.splits)
next
  case True
  then obtain items where park: "park = Some 1" and h: "po_hook ob = HookItems items" by blast
  obtain port1 r1 where e: "emit_items view (po_emit ob) (valid_items items) (Some p) = (port1, r1)" by force
  from emit_items_Some [OF e assms(1)] obtain p1
    where p1: "port1 = Some p1" "port_ok p1" "r1 = None \<Longrightarrow> sent p1 = sent p @ valid_items items" by blast
  obtain port2 r2 where f: "flush_opt (po_flush ob) port1 = (port2, r2)" by force
  from flush_opt_Some [OF f [unfolded p1(1)] p1(2)]
  have "\<exists>p2. port2 = Some p2 \<and> port_ok p2 \<and> oc_pending (op_ch p2) = [] \<and> (r2 = None \<longrightarrow> sent p2 = sent p1)"
    by blast
  then show ?thesis
    using assms(2) park h e f p1
    by (cases r1; cases r2) (auto simp: maybe_park_def sent_def)
qed

definition sample_port :: "'a out_port" where
  "sample_port = \<lparr>op_ch = oc_new 4 10, op_log = [], op_ipc_left = 0, op_ipc_flag = False, op_torch = False\<rparr>"

definition sample_emit :: "nat \<Rightarrow> emit_obs" where
  "sample_emit k = \<lparr>eo_t1 = 0, eo_t2 = 0, eo_exn = None\<rparr>"

definition sample_park :: "nat park_obs" where
  "sample_park = \<lparr>po_hook = HookItems [Obj 1, NoneV, Obj 2], po_emit = sample_emit, po_flush = None,
     po_reads = [(2, 0), (2, 0), (0, 0)], po_stop_after = 0, po_has_unpark = True, po_has_load = False\<rparr>"

theorem park_ack_safe_witness:
  "\<exists>p' items. maybe_park (\<lambda>_. LeafS) (Some 1) sample_park (Some sample_port) = (Some p', [2], Resumed CallOnUnpark)
     \<and> unchunk (op_log p') = valid_items items \<and> items = [Obj 1, NoneV, Obj 2]"
proof -
  have run: "maybe_park (\<lambda>_. LeafS) (Some 1) sample_park (Some sample_port) =
    (Some (sample_port\<lparr>op_ch := oc_new 4 10, op_log := [ChunkM [Obj 1, Obj 2]]\<rparr>), [2], Resumed CallOnUnpark)"
    by (simp add: maybe_park_def sample_park_def emit_items_def flush_opt_def port_flush_def
      port_put_def emit_def port_ipc_def sample_port_def sample_emit_def oc_new_def oc_send_def oc_flush_def Let_def)
  have "port_ok sample_port" by (simp add: port_ok_def sample_port_def)
  from park_ack_safe [OF this run] run show ?thesis
    by (auto simp: sample_park_def sample_port_def sent_def)
qed

section \<open>Releasing a finished worker's GPU\<close>

text \<open>
  \<open>_park_release_gpu\<close>, called after the worker has put its \<open>End\<close>. \<open>port = None\<close> is the threaded
  worker, which passes no output channel: what \<open>on_park\<close> returns is then counted and discarded.
  An \<open>on_park\<close> that fails counts as one that returned nothing. The result: the port, how many items
  were discarded, whether the process's references to the stage were dropped, and an exception of
  \<open>emit\<close> or \<open>flush\<close>, which nothing here catches.
\<close>

definition park_release_gpu ::
  "('a val \<Rightarrow> shape) \<Rightarrow> bool \<Rightarrow> 'a park_obs \<Rightarrow> 'a out_port option \<Rightarrow> 'a out_port option \<times> nat \<times> bool \<times> exn option" where
  "park_release_gpu view cuda_initialized ob port =
     (if \<not> cuda_initialized then (port, 0, False, None)
      else case po_hook ob of
        HookMissing \<Rightarrow> (port, 0, True, None)
      | HookRaises e \<Rightarrow> (port, 0, True, None)
      | HookItems items \<Rightarrow>
          if items = [] then (port, 0, True, None)
          else case port of
            None \<Rightarrow> (None, length (valid_items items), True, None)
          | Some p \<Rightarrow>
              (case emit_all view (po_emit ob) 0 (valid_items items) p of
                 (p1, Some e) \<Rightarrow> (Some p1, 0, False, Some e)
               | (p1, None) \<Rightarrow>
                   (case port_flush (po_flush ob) p1 of
                      (p2, Some e) \<Rightarrow> (Some p2, 0, False, Some e)
                    | (p2, None) \<Rightarrow> (Some p2, 0, True, None))))"

text \<open>
  A finished CPU worker is left alone; a GPU worker forwards everything \<open>on_park\<close> hands back and
  flushes it, or, with no channel, reports how many items it discards.
\<close>

lemma park_release_forwards:
  assumes "port_ok p" and "po_hook ob = HookItems items" and "quiet (po_emit ob)" and "po_flush ob = None"
  shows "\<exists>p'. park_release_gpu view True ob (Some p) = (Some p', 0, True, None)
    \<and> (unchunk (op_log p') @ oc_pending (op_ch p') = sent p @ valid_items items)
    \<and> (items \<noteq> [] \<longrightarrow> oc_pending (op_ch p') = [])
    \<and> park_release_gpu view True ob None = (None, length (valid_items items), True, None)
    \<and> park_release_gpu view False ob (Some p) = (Some p, 0, False, None)"
proof (cases "items = []")
  case True
  with assms show ?thesis by (simp add: park_release_gpu_def sent_def)
next
  case False
  obtain p1 r1 where e: "emit_all view (po_emit ob) 0 (valid_items items) p = (p1, r1)" by force
  note E = emit_all_correct [OF assms(1) e]
  obtain p2 r2 where f: "port_flush (po_flush ob) p1 = (p2, r2)" by force
  note F = port_flush_correct [OF conjunct1 [OF E] f]
  from E F assms(3,4) have "r1 = None" "r2 = None" "sent p2 = sent p @ valid_items items" by auto
  with F(4) False assms(2) e f show ?thesis by (simp add: park_release_gpu_def sent_def)
qed

end
