(* ===== verification/Pipe_Loop.thy ===== *)
theory Pipe_Loop
  imports Pipe_Parking
begin

text \<open>
  The run loop of a worker process, \<open>_worker_run\<close> of \<^verbatim>\<open>src/pipe/workers.py\<close>. One iteration is a
  function of the worker's state and of what the iteration reads from outside: shared flags, clocks,
  the outcome of the user's worker, exceptions of the underlying puts. The input queue is the list
  of answers it is going to give to this worker; running out of answers is an empty queue. What
  is shown: in a calm run the worker turns the payloads it takes off its input into outputs, in
  order, each payload once; when it leaves; and that everything it produced is on the output queue
  before it coordinates with its siblings.
\<close>

section \<open>Configuration, state, observations\<close>

record 'a wcfg =
  c_root :: bool
  c_raise_errors :: bool
  c_batch_size :: int
  c_drain :: bool
  c_threshold :: nat
  c_timing :: bool
  c_busy :: bool
  c_view :: "'a val \<Rightarrow> shape"
  c_dict :: "'a \<Rightarrow> audio_dict option"

text \<open>\<open>EMPTY_THRESHOLD\<close>, from the grace period in seconds.\<close>

definition empty_threshold :: "real \<Rightarrow> nat" where
  "empty_threshold grace = max 1 (nat \<lfloor>grace / 0.1\<rfloor>)"

record timing =
  t_items :: nat
  t_time :: real
  t_audio :: real

record 'a wstate =
  ws_in :: "'a in_channel"
  ws_q :: "(exn + 'a msg option) list"
  ws_back :: "'a msg list"
  ws_port :: "'a out_port option"
  ws_empty :: nat
  ws_timing :: timing
  ws_published :: "timing option"
  ws_backoff :: backoff
  ws_stop_write :: "int option"
  ws_park_write :: "int list"
  ws_busy :: "real list"
  ws_emits :: nat

record 'a iter_obs =
  io_stop :: int
  io_now :: real
  io_flush_exn :: "exn option"
  io_stop1 :: int
  io_park :: "int option"
  io_park_obs :: "'a park_obs"
  io_drain_set :: bool
  io_upstream :: bool
  io_call :: "'a val \<Rightarrow> 'a outcome"
  io_call_start :: real
  io_elapsed :: real
  io_emit :: "nat \<Rightarrow> emit_obs"
  io_gen_stop :: "nat \<Rightarrow> bool"
  io_clocks :: "(real \<times> real) list"
  io_deadline :: real
  io_retry_now :: real
  io_retry :: "(bool \<times> real) list"

text \<open>
  How an iteration ends: the next one follows, the loop is left, the function returns at once
  (\<open>WorkerStop\<close>), the worker is still parked, or an exception leaves the function.
\<close>

datatype 'a turn =
    Next "'a wstate" | Leave "'a wstate" | Return "'a wstate" | Parked "'a wstate" | Crash exn "'a wstate"

section \<open>Reading the input\<close>

definition script_get :: "(exn + 'a msg option) list \<Rightarrow> (exn + 'a msg option) list \<times> (exn + 'a msg option)" where
  "script_get q = (case q of [] \<Rightarrow> ([], Inr None) | r # rs \<Rightarrow> (rs, r))"

definition take_input :: "'a wstate \<Rightarrow> 'a wstate \<times> (exn + 'a val)" where
  "take_input s =
     (case ic_get script_get (ws_in s) (ws_q s) of (ch, q, r) \<Rightarrow> (s\<lparr>ws_in := ch, ws_q := q\<rparr>, r))"

text \<open>
  The batch gathering loop. Each round has the clock reading before the get and the one after an
  empty get; past the last reading given the deadline is over.
\<close>

fun gather ::
  "int \<Rightarrow> real \<Rightarrow> (real \<times> real) list \<Rightarrow> 'a val list \<Rightarrow> 'a wstate \<Rightarrow> 'a wstate \<times> (exn + 'a val list)" where
  "gather batch_size deadline [] batch s = (s, Inr batch)"
| "gather batch_size deadline ((t1, t2) # cs) batch s =
     (if batch_size \<le> int (length batch) then (s, Inr batch)
      else if deadline - t1 \<le> 0 then (s, Inr batch)
      else case take_input s of
        (s1, Inl e) \<Rightarrow>
          (if e = EmptyE then if deadline \<le> t2 then (s1, Inr batch) else gather batch_size deadline cs batch s1
           else (s1, Inl e))
      | (s1, Inr raw) \<Rightarrow>
          (if is_worker_stop raw then (s1\<lparr>ws_back := ws_back s1 @ [ItemM WorkerStopV]\<rparr>, Inr batch)
           else if is_end raw then gather batch_size deadline cs batch s1
           else gather batch_size deadline cs (batch @ [raw]) s1))"

section \<open>Writing the output\<close>

definition emit_one :: "'a wcfg \<Rightarrow> 'a iter_obs \<Rightarrow> 'a val \<Rightarrow> 'a wstate \<Rightarrow> 'a wstate \<times> exn option" where
  "emit_one cfg ob x s =
     (case ws_port s of
        None \<Rightarrow> (s, None)
      | Some p \<Rightarrow>
          (case emit (c_view cfg) (io_emit ob (ws_emits s)) x p of
             (p', r) \<Rightarrow> (s\<lparr>ws_port := Some p', ws_emits := Suc (ws_emits s)\<rparr>, r)))"

fun emit_many :: "'a wcfg \<Rightarrow> 'a iter_obs \<Rightarrow> 'a val list \<Rightarrow> 'a wstate \<Rightarrow> 'a wstate \<times> exn option" where
  "emit_many cfg ob [] s = (s, None)"
| "emit_many cfg ob (x # xs) s =
     (case emit_one cfg ob x s of
        (s1, None) \<Rightarrow> emit_many cfg ob xs s1
      | (s1, Some e) \<Rightarrow> (s1, Some e))"

text \<open>The generator loop of a middle stage; \<open>k\<close> counts the values looked at.\<close>

fun middle_generator ::
  "'a wcfg \<Rightarrow> 'a iter_obs \<Rightarrow> nat \<Rightarrow> 'a val list \<Rightarrow> exn option \<Rightarrow> 'a wstate \<Rightarrow> 'a wstate \<times> exn option" where
  "middle_generator cfg ob k [] fin s = (s, fin)"
| "middle_generator cfg ob k (x # xs) fin s =
     (if io_gen_stop ob k then (s, None)
      else if x = NoneV \<or> is_end x then middle_generator cfg ob (Suc k) xs fin s
      else case emit_one cfg ob x s of
        (s1, None) \<Rightarrow> middle_generator cfg ob (Suc k) xs fin s1
      | (s1, Some e) \<Rightarrow> (s1, Some e))"

section \<open>Timing statistics\<close>

definition add_timing :: "nat \<Rightarrow> real \<Rightarrow> real \<Rightarrow> timing \<Rightarrow> timing" where
  "add_timing n dt audio t = \<lparr>t_items = t_items t + n, t_time = t_time t + dt, t_audio = t_audio t + audio\<rparr>"

text \<open>A middle stage publishes on every tenth item (when the count is a multiple of ten).\<close>

definition record_middle :: "'a wcfg \<Rightarrow> nat \<Rightarrow> real \<Rightarrow> real \<Rightarrow> 'a wstate \<Rightarrow> 'a wstate" where
  "record_middle cfg n dt audio s =
     (if \<not> c_timing cfg then s
      else let t = add_timing n dt audio (ws_timing s) in
        s\<lparr>ws_timing := t, ws_published := (if t_items t mod 10 = 0 then Some t else ws_published s)\<rparr>)"

definition record_root :: "'a wcfg \<Rightarrow> nat \<Rightarrow> real \<Rightarrow> real \<Rightarrow> 'a wstate \<Rightarrow> 'a wstate" where
  "record_root cfg n dt audio s =
     (if \<not> c_timing cfg then s
      else let t = add_timing n dt audio (ws_timing s) in s\<lparr>ws_timing := t, ws_published := Some t\<rparr>)"

section \<open>Calling the worker\<close>

text \<open>\<open>_timed_call\<close>: the start is stamped for the health monitor and cleared however the call ends.\<close>

definition timed_call :: "'a wcfg \<Rightarrow> 'a iter_obs \<Rightarrow> 'a val \<Rightarrow> 'a wstate \<Rightarrow> 'a wstate \<times> 'a outcome" where
  "timed_call cfg ob arg s =
     (if c_busy cfg then s\<lparr>ws_busy := ws_busy s @ [io_call_start ob, 0]\<rparr> else s, io_call ob arg)"

definition result_list :: "'a val \<Rightarrow> 'a val list" where
  "result_list r = (case r of ListV rs \<Rightarrow> rs | _ \<Rightarrow> [r])"

text \<open>What a middle stage does with the outcome of its call.\<close>

definition handle_result ::
  "'a wcfg \<Rightarrow> 'a iter_obs \<Rightarrow> nat \<Rightarrow> real \<Rightarrow> 'a outcome \<Rightarrow> 'a wstate \<Rightarrow> 'a wstate \<times> exn option" where
  "handle_result cfg ob n_items input_audio res s =
     (case res of
        Raise e \<Rightarrow> (s, Some e)
      | Gen xs fin \<Rightarrow>
          (case middle_generator cfg ob 0 xs fin s of
             (s1, Some e) \<Rightarrow> (s1, Some e)
           | (s1, None) \<Rightarrow> (record_middle cfg n_items (io_elapsed ob) input_audio s1, None))
      | Ret r \<Rightarrow>
          if r = NoneV then (s, None)
          else
            let audio = sum_list (map (extract_audio_duration (c_dict cfg)) (result_list r));
                s1 = record_middle cfg n_items (io_elapsed ob) (if audio \<noteq> 0 then audio else input_audio) s
            in emit_many cfg ob (valid_items (result_list r)) s1)"

section \<open>Exceptions\<close>

text \<open>The two handlers around an iteration.\<close>

definition on_exception :: "'a wcfg \<Rightarrow> exn \<Rightarrow> 'a wstate \<Rightarrow> 'a turn" where
  "on_exception cfg e s =
     (if is_connection_error e then Leave (s\<lparr>ws_stop_write := Some 2\<rparr>)
      else if c_raise_errors cfg then Crash e s
      else Next s)"

definition continue_or :: "'a wcfg \<Rightarrow> 'a wstate \<times> exn option \<Rightarrow> 'a turn" where
  "continue_or cfg r = (case r of (s, None) \<Rightarrow> Next s | (s, Some e) \<Rightarrow> on_exception cfg e s)"

section \<open>The middle stage branch\<close>

definition call_and_handle :: "'a wcfg \<Rightarrow> 'a iter_obs \<Rightarrow> 'a val \<Rightarrow> nat \<Rightarrow> 'a wstate \<Rightarrow> 'a wstate \<times> exn option" where
  "call_and_handle cfg ob arg n_items s =
     (case timed_call cfg ob arg s of
        (s1, res) \<Rightarrow> handle_result cfg ob n_items (extract_audio_duration (c_dict cfg) arg) res s1)"

text \<open>An early exit puts back what the channel had unpacked and flushes the partial output chunk.\<close>

definition worker_stop_exit :: "'a wcfg \<Rightarrow> 'a iter_obs \<Rightarrow> 'a wstate \<Rightarrow> 'a turn" where
  "worker_stop_exit cfg ob s =
     (case ic_requeue_buffered (ws_in s) of
        (ch, back) \<Rightarrow>
          let s1 = s\<lparr>ws_in := ch, ws_back := ws_back s @ back\<rparr> in
          (case flush_opt (io_flush_exn ob) (ws_port s1) of
             (port, None) \<Rightarrow> Return (s1\<lparr>ws_port := port\<rparr>)
           | (port, Some e) \<Rightarrow> on_exception cfg e (s1\<lparr>ws_port := port\<rparr>)))"

definition middle_turn :: "'a wcfg \<Rightarrow> 'a iter_obs \<Rightarrow> 'a wstate \<Rightarrow> 'a turn" where
  "middle_turn cfg ob s =
     (case take_input s of
        (s1, Inl e) \<Rightarrow>
          (if e = EmptyE then
             let s2 = s1\<lparr>ws_empty := Suc (ws_empty s1)\<rparr> in
             if io_upstream ob \<and> c_threshold cfg \<le> ws_empty s2 then Leave s2 else Next s2
           else if is_os_error e \<or> e = EOFE then Leave s1
           else on_exception cfg e s1)
      | (s1, Inr item) \<Rightarrow>
          let s2 = s1\<lparr>ws_empty := 0\<rparr> in
          if is_worker_stop item then worker_stop_exit cfg ob s2
          else if is_end item then Next s2
          else if 0 < c_batch_size cfg then
            (case gather (c_batch_size cfg) (io_deadline ob) (io_clocks ob) [item] s2 of
               (s3, Inl e) \<Rightarrow> on_exception cfg e s3
             | (s3, Inr batch) \<Rightarrow> continue_or cfg (call_and_handle cfg ob (ListV batch) (length batch) s3))
          else continue_or cfg (call_and_handle cfg ob item 1 s2))"

section \<open>The root branch\<close>

definition root_turn :: "'a wcfg \<Rightarrow> 'a iter_obs \<Rightarrow> 'a wstate \<Rightarrow> 'a turn" where
  "root_turn cfg ob s =
     (case io_call ob NoneV of
        Raise e \<Rightarrow> on_exception cfg e s
      | Gen xs fin \<Rightarrow>
          (let stops = zip (map (io_gen_stop ob) [0..<length xs]) xs;
               count = (\<lambda>x s. (if c_timing cfg
                  then s\<lparr>ws_timing := add_timing 1 0 (extract_audio_duration (c_dict cfg) x) (ws_timing s)\<rparr> else s, None));
               em = (if ws_port s = None then None else Some (emit_one cfg ob))
           in case drain_source_generator (c_raise_errors cfg) em count stops fin 0 s of
                (s1, Inl e) \<Rightarrow> on_exception cfg e s1
              | (s1, Inr (raised, n)) \<Rightarrow>
                  if raised then
                    (case backoff_wait (0 < n) (io_retry_now ob) (io_retry ob) (ws_backoff s1) of
                       (b, Inl e) \<Rightarrow> on_exception cfg e (s1\<lparr>ws_backoff := b\<rparr>)
                     | (b, Inr _) \<Rightarrow> Next (s1\<lparr>ws_backoff := b\<rparr>))
                  else Leave (record_root cfg 0 (io_elapsed ob) 0 s1))
      | Ret r \<Rightarrow>
          if r = NoneV then Next s
          else if is_end r then Leave s
          else
            let result = result_list r;
                has_end = list_ex is_end result;
                valid = valid_items result;
                s1 = (if valid = [] then s
                      else record_root cfg (length valid) (io_elapsed ob)
                             (sum_list (map (extract_audio_duration (c_dict cfg)) valid)) s)
            in case emit_many cfg ob valid s1 of
                 (s2, Some e) \<Rightarrow> on_exception cfg e s2
               | (s2, None) \<Rightarrow> if has_end then Leave s2 else Next s2)"

section \<open>One iteration and the loop\<close>

definition iteration :: "'a wcfg \<Rightarrow> 'a iter_obs \<Rightarrow> 'a wstate \<Rightarrow> 'a turn" where
  "iteration cfg ob s =
     (let flushed = (case ws_port s of
          None \<Rightarrow> (s, None)
        | Some p \<Rightarrow> (case port_maybe_flush (io_now ob) (io_flush_exn ob) p of (p', r) \<Rightarrow> (s\<lparr>ws_port := Some p'\<rparr>, r)))
      in case flushed of
        (s1, Some e) \<Rightarrow> Crash e s1
      | (s1, None) \<Rightarrow>
          if io_stop1 ob = 1 then Leave s1
          else case maybe_park (c_view cfg) (io_park ob) (io_park_obs ob) (ws_port s1) of
            (port, writes, pr) \<Rightarrow>
              (let s2 = s1\<lparr>ws_port := port, ws_park_write := ws_park_write s1 @ writes\<rparr> in
               case pr of
                 ParkRaised e \<Rightarrow> on_exception cfg e s2
               | StillParked \<Rightarrow> Parked s2
               | _ \<Rightarrow>
                   if \<not> c_drain cfg \<and> io_drain_set ob then Leave s2
                   else if c_root cfg then root_turn cfg ob s2
                   else middle_turn cfg ob s2))"

fun worker_loop :: "'a wcfg \<Rightarrow> 'a iter_obs list \<Rightarrow> 'a wstate \<Rightarrow> 'a turn" where
  "worker_loop cfg [] s = Next s"
| "worker_loop cfg (ob # obs) s =
     (if io_stop ob \<noteq> 0 then Leave s
      else case iteration cfg ob s of
        Next s1 \<Rightarrow> worker_loop cfg obs s1
      | t \<Rightarrow> t)"

section \<open>What a calm run reads and writes\<close>

text \<open>
  \<open>pending_in\<close> is the input still ahead of the worker, \<open>out\<close> everything it has sent,
  \<open>outputs\<close> what one call contributes.
\<close>

definition answer :: "exn + 'a msg option \<Rightarrow> 'a val list" where
  "answer r = (case r of Inr (Some m) \<Rightarrow> payloads m | _ \<Rightarrow> [])"

definition pending_in :: "'a wstate \<Rightarrow> 'a val list" where
  "pending_in s = ic_buf (ws_in s) @ concat (map answer (ws_q s))"

definition out :: "'a wstate \<Rightarrow> 'a val list" where
  "out s = (case ws_port s of None \<Rightarrow> [] | Some p \<Rightarrow> sent p)"

definition outputs :: "('a val \<Rightarrow> 'a outcome) \<Rightarrow> 'a val \<Rightarrow> 'a val list" where
  "outputs f x = valid_items (case f x of Raise e \<Rightarrow> [] | Gen xs fin \<Rightarrow> xs | Ret r \<Rightarrow> result_list r)"

definition call_arg :: "'a wcfg \<Rightarrow> 'a val list \<Rightarrow> 'a val" where
  "call_arg cfg batch = (if 0 < c_batch_size cfg then ListV batch else hd batch)"

text \<open>
  A calm iteration: nobody stops, parks or drains the worker, the user's code is \<open>f\<close>, and the
  output queue accepts. The input is regular: the queue answers with messages or with nothing, its
  chunks are not empty, and no \<open>WorkerStop\<close> is on the way. A mild \<open>f\<close> raises no connection error.
\<close>

definition calm :: "('a val \<Rightarrow> 'a outcome) \<Rightarrow> 'a iter_obs \<Rightarrow> bool" where
  "calm f ob \<longleftrightarrow> io_stop ob = 0 \<and> io_stop1 ob = 0 \<and> io_park ob \<noteq> Some 1 \<and> \<not> io_drain_set ob \<and>
     io_call ob = f \<and> quiet (io_emit ob) \<and> io_flush_exn ob = None \<and> (\<forall>k. \<not> io_gen_stop ob k)"

definition input_ok :: "'a wstate \<Rightarrow> bool" where
  "input_ok s \<longleftrightarrow> ic_deque (ws_in s) \<and>
     (\<forall>r \<in> set (ws_q s). r = Inr None \<or> (\<exists>m. r = Inr (Some m) \<and> payloads m \<noteq> [])) \<and>
     WorkerStopV \<notin> set (pending_in s)"

definition has_port :: "'a wstate \<Rightarrow> bool" where
  "has_port s \<longleftrightarrow> (\<exists>p. ws_port s = Some p \<and> port_ok p)"

definition mild :: "('a val \<Rightarrow> 'a outcome) \<Rightarrow> bool" where
  "mild f \<longleftrightarrow> (\<forall>x. case f x of
      Raise e \<Rightarrow> \<not> is_connection_error e
    | Gen xs fin \<Rightarrow> (\<forall>e. fin = Some e \<longrightarrow> \<not> is_connection_error e)
    | Ret r \<Rightarrow> True)"

lemma mildD:
  "mild f \<Longrightarrow> f x = Raise e \<Longrightarrow> \<not> is_connection_error e"
  "mild f \<Longrightarrow> f x = Gen xs (Some e) \<Longrightarrow> \<not> is_connection_error e"
  unfolding mild_def by (drule spec [of _ x], simp)+

text \<open>Two states that agree on the input side.\<close>

definition same_input :: "'a wstate \<Rightarrow> 'a wstate \<Rightarrow> bool" where
  "same_input s s' \<longleftrightarrow> ws_in s' = ws_in s \<and> ws_q s' = ws_q s \<and> ws_empty s' = ws_empty s"

lemma same_input_simps:
  "same_input s s' \<Longrightarrow> pending_in s' = pending_in s" "same_input s s' \<Longrightarrow> input_ok s' = input_ok s"
  by (auto simp: same_input_def pending_in_def input_ok_def)

lemma same_input_trans: "same_input s1 s2 \<Longrightarrow> same_input s2 s3 \<Longrightarrow> same_input s1 s3"
  by (simp add: same_input_def)

lemma take_input_ok:
  assumes "input_ok s" and "take_input s = (s1, r)"
  shows "ws_port s1 = ws_port s \<and> ws_empty s1 = ws_empty s \<and> input_ok s1 \<and>
    (r = Inl EmptyE \<and> pending_in s1 = pending_in s
     \<or> (\<exists>x. r = Inr x \<and> pending_in s = x # pending_in s1 \<and> \<not> is_worker_stop x))"
proof (cases "ic_buf (ws_in s)")
  case (Cons x xs)
  with assms show ?thesis
    by (auto simp: take_input_def ic_get_def popleft_def input_ok_def pending_in_def is_worker_stop_def)
next
  case Nil
  show ?thesis
  proof (cases "ws_q s")
    case Nil
    with \<open>ic_buf (ws_in s) = []\<close> assms show ?thesis
      by (auto simp: take_input_def ic_get_def script_get_def input_ok_def pending_in_def)
  next
    case (Cons a q)
    then have "a = Inr None \<or> (\<exists>m. a = Inr (Some m) \<and> payloads m \<noteq> [])"
      using assms(1) by (auto simp: input_ok_def)
    then show ?thesis
    proof
      assume "a = Inr None"
      with Cons \<open>ic_buf (ws_in s) = []\<close> assms show ?thesis
        by (auto simp: take_input_def ic_get_def script_get_def input_ok_def pending_in_def answer_def)
    next
      assume "\<exists>m. a = Inr (Some m) \<and> payloads m \<noteq> []"
      then obtain m where a: "a = Inr (Some m)" "payloads m \<noteq> []" by blast
      show ?thesis
      proof (cases m)
        case (ItemM x)
        with a Cons \<open>ic_buf (ws_in s) = []\<close> assms show ?thesis
          by (auto simp: take_input_def ic_get_def script_get_def input_ok_def pending_in_def answer_def is_worker_stop_def)
      next
        case (ChunkM xs)
        with a obtain y ys where "xs = y # ys" by (cases xs) auto
        with ChunkM a Cons \<open>ic_buf (ws_in s) = []\<close> assms show ?thesis
          by (auto simp: take_input_def ic_get_def script_get_def popleft_def input_ok_def pending_in_def answer_def is_worker_stop_def)
      qed
    qed
  qed
qed

lemma gather_ok:
  assumes "input_ok s" and "gather bs dl cs batch s = (s', r)" and "int (length batch) \<le> bs"
  shows "\<exists>xs. r = Inr (batch @ filter (\<lambda>x. \<not> is_end x) xs) \<and> pending_in s = xs @ pending_in s' \<and> input_ok s'
    \<and> ws_port s' = ws_port s \<and> int (length (batch @ filter (\<lambda>x. \<not> is_end x) xs)) \<le> bs"
  using assms
proof (induction bs dl cs batch s rule: gather.induct)
  case (1 bs dl batch s)
  then show ?case by (auto intro: exI [of _ "[]"])
next
  case (2 bs dl t1 t2 cs batch s)
  show ?case
  proof (cases "bs \<le> int (length batch) \<or> dl - t1 \<le> 0")
    case True
    with 2 have "r = Inr batch" "s' = s" by (auto split: if_splits)
    with 2 show ?thesis by (auto intro: exI [of _ "[]"])
  next
    case False
    obtain s1 r1 where t: "take_input s = (s1, r1)" by force
    note T = take_input_ok [OF "2.prems"(1) t]
    show ?thesis
    proof (cases r1)
      case (Inl e)
      with T have e: "e = EmptyE" and p: "pending_in s1 = pending_in s" by auto
      show ?thesis
      proof (cases "dl \<le> t2")
        case True
        with False Inl e t "2.prems" T have "r = Inr batch" "s' = s1" by auto
        with T p "2.prems" show ?thesis by (auto intro: exI [of _ "[]"])
      next
        case nd: False
        have "gather bs dl cs batch s1 = (s', r)" using "2.prems"(2) False Inl e t nd by auto
        from "2.IH"(1) [OF _ _ _ Inl e nd _ this] False t T "2.prems"(3) p show ?thesis by auto
      qed
    next
      case (Inr x)
      with T have p: "pending_in s = x # pending_in s1" and nws: "\<not> is_worker_stop x" by auto
      show ?thesis
      proof (cases "is_end x")
        case True
        have "gather bs dl cs batch s1 = (s', r)" using "2.prems"(2) False Inr t nws True by auto
        from "2.IH"(2) [OF _ _ _ Inr nws True _ this] False t T "2.prems"(3) obtain xs where
          "r = Inr (batch @ filter (\<lambda>x. \<not> is_end x) xs) \<and> pending_in s1 = xs @ pending_in s' \<and> input_ok s'
            \<and> ws_port s' = ws_port s \<and> int (length (batch @ filter (\<lambda>x. \<not> is_end x) xs)) \<le> bs" by auto
        with p True show ?thesis by (intro exI [of _ "x # xs"]) auto
      next
        case ne: False
        have "gather bs dl cs (batch @ [x]) s1 = (s', r)" using "2.prems"(2) False Inr t nws ne by auto
        moreover have "int (length (batch @ [x])) \<le> bs" using False by auto
        ultimately obtain xs where
          "r = Inr ((batch @ [x]) @ filter (\<lambda>x. \<not> is_end x) xs) \<and> pending_in s1 = xs @ pending_in s' \<and> input_ok s'
            \<and> ws_port s' = ws_port s \<and> int (length ((batch @ [x]) @ filter (\<lambda>x. \<not> is_end x) xs)) \<le> bs"
          using "2.IH"(3) [OF _ _ _ Inr nws ne] False t T by auto
        with p ne show ?thesis by (intro exI [of _ "x # xs"]) auto
      qed
    qed
  qed
qed

lemma emit_one_ok:
  assumes "has_port s" and "quiet (io_emit ob)"
  shows "\<exists>s'. emit_one cfg ob x s = (s', None) \<and> has_port s' \<and> same_input s s' \<and> out s' = out s @ [x]"
proof -
  from assms(1) obtain p where p: "ws_port s = Some p" "port_ok p" by (auto simp: has_port_def)
  obtain p' r where e: "emit (c_view cfg) (io_emit ob (ws_emits s)) x p = (p', r)" by force
  note E = emit_correct [OF p(2) e]
  have "r = None" using E(3) assms(2) by simp
  with E p e show ?thesis
    by (auto simp: emit_one_def has_port_def same_input_def out_def)
qed

lemma emit_many_ok:
  assumes "has_port s" and "quiet (io_emit ob)"
  shows "\<exists>s'. emit_many cfg ob xs s = (s', None) \<and> has_port s' \<and> same_input s s' \<and> out s' = out s @ xs"
  using assms(1)
proof (induction xs arbitrary: s)
  case Nil
  then show ?case by (simp add: same_input_def)
next
  case (Cons x xs)
  from emit_one_ok [OF Cons.prems assms(2)] obtain s1 where
    1: "emit_one cfg ob x s = (s1, None)" "has_port s1" "same_input s s1" "out s1 = out s @ [x]" by blast
  from Cons.IH [OF 1(2)] obtain s2 where
    "emit_many cfg ob xs s1 = (s2, None)" "has_port s2" "same_input s1 s2" "out s2 = out s1 @ xs" by blast
  with 1 show ?case by (auto intro: same_input_trans)
qed

lemma middle_generator_ok:
  assumes "has_port s" and "quiet (io_emit ob)" and "\<forall>k. \<not> io_gen_stop ob k"
  shows "\<exists>s'. middle_generator cfg ob k xs fin s = (s', fin) \<and> has_port s' \<and> same_input s s' \<and> out s' = out s @ valid_items xs"
  using assms(1)
proof (induction xs arbitrary: k s)
  case Nil
  then show ?case by (simp add: same_input_def)
next
  case (Cons x xs)
  show ?case
  proof (cases "x = NoneV \<or> is_end x")
    case True
    with Cons.IH [OF Cons.prems, of "Suc k"] assms(3) show ?thesis by (auto simp: valid_item_def)
  next
    case False
    from emit_one_ok [OF Cons.prems assms(2)] obtain s1 where
      1: "emit_one cfg ob x s = (s1, None)" "has_port s1" "same_input s s1" "out s1 = out s @ [x]" by blast
    from Cons.IH [OF 1(2), of "Suc k"] obtain s2 where
      "middle_generator cfg ob (Suc k) xs fin s1 = (s2, fin)" "has_port s2" "same_input s1 s2"
      "out s2 = out s1 @ valid_items xs" by blast
    with 1 False assms(3) show ?thesis by (auto simp: valid_item_def intro: same_input_trans)
  qed
qed

lemma record_middle_fields [simp]:
  "has_port (record_middle cfg n dt a s) = has_port s" "out (record_middle cfg n dt a s) = out s"
  "same_input s' (record_middle cfg n dt a s) = same_input s' s"
  "same_input (record_middle cfg n dt a s) s' = same_input s s'"
  by (auto simp: record_middle_def has_port_def out_def same_input_def Let_def)

lemma timed_call_fields:
  assumes "timed_call cfg ob arg s = (s', res)"
  shows "res = io_call ob arg" "has_port s' = has_port s" "out s' = out s" "same_input s s'"
  using assms by (auto simp: timed_call_def has_port_def out_def same_input_def split: if_splits)

lemma handle_result_ok:
  assumes "has_port s" and "quiet (io_emit ob)" and "\<forall>k. \<not> io_gen_stop ob k"
  shows "\<exists>s' e. handle_result cfg ob n a (f x) s = (s', e) \<and> has_port s' \<and> same_input s s' \<and> out s' = out s @ outputs f x
    \<and> (mild f \<longrightarrow> (\<forall>ex. e = Some ex \<longrightarrow> \<not> is_connection_error ex))"
proof (cases "f x")
  case (Raise e)
  with assms show ?thesis by (auto simp: handle_result_def outputs_def same_input_def dest: mildD)
next
  case (Gen xs fin)
  from middle_generator_ok [OF assms, of cfg 0 xs fin] Gen show ?thesis
    by (cases fin) (auto simp: handle_result_def outputs_def dest: mildD)
next
  case (Ret r)
  show ?thesis
  proof (cases "r = NoneV")
    case True
    with Ret assms(1) show ?thesis by (simp add: handle_result_def outputs_def result_list_def same_input_def)
  next
    case False
    define s1 where "s1 = record_middle cfg n (io_elapsed ob)
      (if sum_list (map (extract_audio_duration (c_dict cfg)) (result_list r)) \<noteq> 0
       then sum_list (map (extract_audio_duration (c_dict cfg)) (result_list r)) else a) s"
    have "has_port s1" "out s1 = out s" "same_input s s1"
      using assms(1) by (simp_all add: s1_def) (simp add: same_input_def)
    from emit_many_ok [OF this(1) assms(2), of cfg "valid_items (result_list r)"] this(2,3) show ?thesis
      using False Ret
      by (auto simp: handle_result_def outputs_def Let_def s1_def [symmetric] intro: same_input_trans)
  qed
qed

lemma call_and_handle_ok:
  assumes "has_port s" and "calm f ob" and "mild f" and "\<not> c_raise_errors cfg"
  shows "\<exists>s'. continue_or cfg (call_and_handle cfg ob arg n s) = Next s' \<and> has_port s' \<and> same_input s s'
    \<and> out s' = out s @ outputs f arg"
proof -
  obtain s1 res where t: "timed_call cfg ob arg s = (s1, res)" by force
  note T = timed_call_fields [OF t]
  have res: "res = f arg" using T(1) assms(2) by (simp add: calm_def)
  from handle_result_ok [of s1 ob cfg n "extract_audio_duration (c_dict cfg) arg" f arg] T assms
  obtain s' e where h: "handle_result cfg ob n (extract_audio_duration (c_dict cfg) arg) (f arg) s1 = (s', e)"
      "has_port s'" "same_input s1 s'" "out s' = out s1 @ outputs f arg"
      "\<forall>ex. e = Some ex \<longrightarrow> \<not> is_connection_error ex"
    by (auto simp: calm_def)
  with t res T assms(4) show ?thesis
    by (cases e) (auto simp: call_and_handle_def continue_or_def on_exception_def intro: same_input_trans)
qed

section \<open>Progress\<close>

text \<open>
  From \<open>s\<close> to \<open>s'\<close> the worker took a prefix of its input, split its payloads other than
  \<open>End\<close> into calls of at most a batch each, and appended what the calls contribute to its output.
\<close>

definition progress :: "'a wcfg \<Rightarrow> ('a val \<Rightarrow> 'a outcome) \<Rightarrow> 'a wstate \<Rightarrow> 'a wstate \<Rightarrow> bool" where
  "progress cfg f s s' \<longleftrightarrow> (\<exists>xs calls. pending_in s = xs @ pending_in s'
     \<and> concat calls = filter (\<lambda>x. \<not> is_end x) xs
     \<and> (\<forall>c \<in> set calls. c \<noteq> [] \<and> int (length c) \<le> max 1 (c_batch_size cfg))
     \<and> out s' = out s @ concat (map (\<lambda>c. outputs f (call_arg cfg c)) calls))"

lemma progressI:
  "pending_in s = xs @ pending_in s' \<Longrightarrow> concat calls = filter (\<lambda>x. \<not> is_end x) xs \<Longrightarrow>
   \<forall>c \<in> set calls. c \<noteq> [] \<and> int (length c) \<le> max 1 (c_batch_size cfg) \<Longrightarrow>
   out s' = out s @ concat (map (\<lambda>c. outputs f (call_arg cfg c)) calls) \<Longrightarrow> progress cfg f s s'"
  unfolding progress_def by blast

lemma progress_skip:
  "pending_in s = xs @ pending_in s' \<Longrightarrow> \<forall>x \<in> set xs. is_end x \<Longrightarrow> out s' = out s \<Longrightarrow> progress cfg f s s'"
  by (rule progressI [of _ xs _ "[]"]) (simp_all add: filter_empty_conv)

lemma progress_refl: "progress cfg f s s"
  by (rule progress_skip [of _ "[]"]) simp_all

lemma progress_trans:
  assumes "progress cfg f s1 s2" and "progress cfg f s2 s3"
  shows "progress cfg f s1 s3"
proof -
  obtain xs cs where 1: "pending_in s1 = xs @ pending_in s2" "concat cs = filter (\<lambda>x. \<not> is_end x) xs"
      "\<forall>c \<in> set cs. c \<noteq> [] \<and> int (length c) \<le> max 1 (c_batch_size cfg)"
      "out s2 = out s1 @ concat (map (\<lambda>c. outputs f (call_arg cfg c)) cs)"
    using assms(1) unfolding progress_def by blast
  obtain ys ds where 2: "pending_in s2 = ys @ pending_in s3" "concat ds = filter (\<lambda>x. \<not> is_end x) ys"
      "\<forall>c \<in> set ds. c \<noteq> [] \<and> int (length c) \<le> max 1 (c_batch_size cfg)"
      "out s3 = out s2 @ concat (map (\<lambda>c. outputs f (call_arg cfg c)) ds)"
    using assms(2) unfolding progress_def by blast
  show ?thesis
    by (rule progressI [of _ "xs @ ys" _ "cs @ ds"]) (use 1 2 in auto)
qed

text \<open>The input ahead, counting answers as well as payloads, and the empty answers among them.\<close>

definition ahead :: "'a wstate \<Rightarrow> nat" where
  "ahead s = length (pending_in s) + length (ws_q s)"

definition nones :: "'a wstate \<Rightarrow> nat" where
  "nones s = length (filter (\<lambda>r. r = Inr None) (ws_q s))"

lemma take_input_ahead:
  assumes "input_ok s" and "take_input s = (s1, r)"
  shows "length (ws_q s1) \<le> length (ws_q s) \<and> nones s1 \<le> nones s \<and>
    (r = Inl EmptyE \<longrightarrow> pending_in s = [] \<and> ws_q s = [] \<and> ws_q s1 = [] \<or> ahead s1 < ahead s \<and> nones s = Suc (nones s1))"
proof (cases "ic_buf (ws_in s) = []")
  case False
  with assms show ?thesis
    by (auto simp: take_input_def ic_get_def popleft_def input_ok_def nones_def split: list.splits)
next
  case True
  show ?thesis
  proof (cases "ws_q s")
    case Nil
    with True assms show ?thesis
      by (auto simp: take_input_def ic_get_def script_get_def pending_in_def nones_def)
  next
    case (Cons a q)
    note step = assms(2) [unfolded take_input_def ic_get_def script_get_def Cons]
    have "a = Inr None \<or> (\<exists>m. a = Inr (Some m) \<and> payloads m \<noteq> [])"
      using assms(1) Cons by (auto simp: input_ok_def)
    then show ?thesis
    proof
      assume "a = Inr None"
      with Cons True step show ?thesis by (auto simp: nones_def ahead_def pending_in_def answer_def)
    next
      assume "\<exists>m. a = Inr (Some m) \<and> payloads m \<noteq> []"
      then obtain m where "a = Inr (Some m)" "payloads m \<noteq> []" by blast
      moreover have "ws_q s1 = q" "r \<noteq> Inl EmptyE"
        using step True calculation assms(1)
        by (auto simp: popleft_def input_ok_def split: msg.splits list.splits if_splits)
      ultimately show ?thesis using Cons by (auto simp: nones_def)
    qed
  qed
qed

lemma gather_ahead:
  assumes "input_ok s" and "gather bs dl cs batch s = (s', r)"
  shows "length (ws_q s') \<le> length (ws_q s) \<and> nones s' \<le> nones s"
  using assms
proof (induction bs dl cs batch s rule: gather.induct)
  case (2 bs dl t1 t2 cs batch s)
  obtain s1 r1 where t: "take_input s = (s1, r1)" by force
  note T = take_input_ok [OF "2.prems"(1) t] take_input_ahead [OF "2.prems"(1) t]
  have nb: "nones (s1\<lparr>ws_back := b\<rparr>) = nones s1" for b by (simp add: nones_def)
  show ?case
    using "2.prems" "2.IH" t T nb
    by (auto split: if_splits sum.splits) force+
qed simp

section \<open>One calm iteration\<close>

text \<open>
  What an iteration of a middle stage guarantees: it makes progress, it leaves only when upstream
  is done and enough polls were empty, and it uses up its input or, with none left, counts one more
  empty poll.
\<close>

definition good_turn :: "'a wcfg \<Rightarrow> ('a val \<Rightarrow> 'a outcome) \<Rightarrow> 'a iter_obs \<Rightarrow> 'a wstate \<Rightarrow> 'a turn \<Rightarrow> bool" where
  "good_turn cfg f ob s t \<longleftrightarrow> (\<exists>s'. (t = Next s' \<or> t = Leave s' \<and> io_upstream ob \<and> c_threshold cfg \<le> ws_empty s')
     \<and> progress cfg f s s' \<and> has_port s' \<and> input_ok s'
     \<and> (if ahead s = 0 then ahead s' = 0 \<and> ws_empty s' = Suc (ws_empty s)
           \<and> (io_upstream ob \<and> c_threshold cfg \<le> ws_empty s' \<longrightarrow> t = Leave s')
        else ahead s' < ahead s \<and> nones s' + ws_empty s' \<le> nones s + ws_empty s))"

lemma ahead_0: "ahead s = 0 \<longleftrightarrow> pending_in s = [] \<and> ws_q s = []"
  by (simp add: ahead_def)

lemma set_empty_fields [simp]:
  "pending_in (s\<lparr>ws_empty := n\<rparr>) = pending_in s" "input_ok (s\<lparr>ws_empty := n\<rparr>) = input_ok s"
  "has_port (s\<lparr>ws_empty := n\<rparr>) = has_port s" "out (s\<lparr>ws_empty := n\<rparr>) = out s"
  "ahead (s\<lparr>ws_empty := n\<rparr>) = ahead s" "nones (s\<lparr>ws_empty := n\<rparr>) = nones s"
  by (auto simp: pending_in_def input_ok_def has_port_def out_def ahead_def nones_def)

lemma same_input_measures:
  "same_input s s' \<Longrightarrow> ahead s' = ahead s \<and> nones s' = nones s \<and> ws_empty s' = ws_empty s"
  by (auto simp: same_input_def ahead_def nones_def pending_in_def)

lemma same_port_fields:
  "ws_port s' = ws_port s \<Longrightarrow> has_port s' = has_port s \<and> out s' = out s"
  by (simp add: has_port_def out_def)

lemma gather_empty:
  "gather bs dl cs batch s = (s', r) \<Longrightarrow> ws_empty s' = ws_empty s"
proof (induction bs dl cs batch s rule: gather.induct)
  case (2 bs dl t1 t2 cs batch s)
  obtain s1 r1 where t: "take_input s = (s1, r1)" by force
  then have "ws_empty s1 = ws_empty s" by (auto simp: take_input_def split: prod.splits)
  then show ?case using 2 t by (auto split: if_splits sum.splits)
qed simp

lemma batch_call_ok:
  assumes "has_port s" and "calm f ob" and "mild f" and "\<not> c_raise_errors cfg" and "input_ok s"
    and "0 < c_batch_size cfg" and "ws_empty s = 0"
    and g: "gather (c_batch_size cfg) (io_deadline ob) (io_clocks ob) [x] s = (s3, r)"
  shows "\<exists>batch xs s'. r = Inr batch \<and> batch = x # filter (\<lambda>y. \<not> is_end y) xs
    \<and> continue_or cfg (call_and_handle cfg ob (ListV batch) (length batch) s3) = Next s'
    \<and> pending_in s = xs @ pending_in s' \<and> int (length batch) \<le> c_batch_size cfg
    \<and> out s' = out s @ outputs f (ListV batch)
    \<and> has_port s' \<and> input_ok s' \<and> ahead s' \<le> ahead s \<and> nones s' \<le> nones s \<and> ws_empty s' = 0"
proof -
  from gather_ok [OF assms(5) g] assms(6) obtain xs where
    G: "r = Inr ([x] @ filter (\<lambda>y. \<not> is_end y) xs)" "pending_in s = xs @ pending_in s3" "input_ok s3"
       "ws_port s3 = ws_port s" "int (length ([x] @ filter (\<lambda>y. \<not> is_end y) xs)) \<le> c_batch_size cfg" by auto
  have hp: "has_port s3" and os: "out s3 = out s" using same_port_fields [OF G(4)] assms(1) by auto
  let ?b = "x # filter (\<lambda>y. \<not> is_end y) xs"
  obtain s' where C: "continue_or cfg (call_and_handle cfg ob (ListV ?b) (length ?b) s3) = Next s'"
     "has_port s'" "same_input s3 s'" "out s' = out s3 @ outputs f (ListV ?b)"
    using call_and_handle_ok [OF hp assms(2-4)] by blast
  from gather_ahead [OF assms(5) g] G(2) have "ahead s3 \<le> ahead s" "nones s3 \<le> nones s"
    by (auto simp: ahead_def)
  with C G os gather_empty [OF g] assms(7) same_input_measures [OF C(3)] same_input_simps [OF C(3)] show ?thesis
    by (intro exI [of _ ?b] exI [of _ xs] exI [of _ s']) auto
qed

lemma middle_turn_good:
  assumes "has_port s" and "calm f ob" and "mild f" and "\<not> c_raise_errors cfg" and "input_ok s"
  shows "good_turn cfg f ob s (middle_turn cfg ob s)"
proof -
  obtain s1 r where t: "take_input s = (s1, r)" by force
  note T = take_input_ok [OF assms(5) t] take_input_ahead [OF assms(5) t]
  have hp1: "has_port s1" and out1: "out s1 = out s" using T(1) assms(1) same_port_fields [of s1 s] by auto
  show ?thesis
  proof (cases r)
    case (Inl e)
    with T have e: "e = EmptyE" and p: "pending_in s1 = pending_in s" and io: "input_ok s1" by auto
    let ?s2 = "s1\<lparr>ws_empty := Suc (ws_empty s1)\<rparr>"
    have turn: "middle_turn cfg ob s = (if io_upstream ob \<and> c_threshold cfg \<le> ws_empty ?s2 then Leave ?s2 else Next ?s2)"
      using t Inl e by (simp add: middle_turn_def Let_def)
    have "progress cfg f s ?s2" by (rule progress_skip [of _ "[]"]) (use p out1 in auto)
    then show ?thesis
      unfolding good_turn_def turn using T Inl e p io hp1
      by (intro exI [of _ ?s2]) (auto simp: ahead_def)
  next
    case (Inr x)
    with T have p: "pending_in s = x # pending_in s1" and nw: "\<not> is_worker_stop x" and io: "input_ok s1" by auto
    let ?s2 = "s1\<lparr>ws_empty := 0\<rparr>"
    have a: "ahead s \<noteq> 0" "ahead ?s2 < ahead s" "nones ?s2 \<le> nones s"
      using p T by (auto simp: ahead_def)
    consider (ende) "is_end x" | (batch) "\<not> is_end x" "0 < c_batch_size cfg" | (single) "\<not> is_end x" "\<not> 0 < c_batch_size cfg"
      by blast
    then show ?thesis
    proof cases
      case ende
      have "progress cfg f s ?s2" by (rule progress_skip [of _ "[x]"]) (use p ende out1 in auto)
      then show ?thesis
        unfolding good_turn_def using t Inr nw ende a io hp1
        by (intro exI [of _ ?s2]) (auto simp: middle_turn_def Let_def)
    next
      case batch
      obtain s3 r3 where g: "gather (c_batch_size cfg) (io_deadline ob) (io_clocks ob) [x] ?s2 = (s3, r3)" by force
      from batch_call_ok [OF _ assms(2-4) _ batch(2) _ g] hp1 io obtain b xs s' where B:
        "r3 = Inr b" "b = x # filter (\<lambda>y. \<not> is_end y) xs"
        "continue_or cfg (call_and_handle cfg ob (ListV b) (length b) s3) = Next s'"
        "pending_in s1 = xs @ pending_in s'" "int (length b) \<le> c_batch_size cfg"
        "out s' = out s1 @ outputs f (ListV b)"
        "has_port s'" "input_ok s'" "ahead s' \<le> ahead ?s2" "nones s' \<le> nones ?s2" "ws_empty s' = 0" by auto
      have "progress cfg f s s'"
        by (rule progressI [of _ "x # xs" _ "[b]"]) (use B p batch out1 in \<open>auto simp: call_arg_def\<close>)
      then show ?thesis
        unfolding good_turn_def using t Inr nw batch a g B
        by (intro exI [of _ s']) (auto simp: middle_turn_def Let_def)
    next
      case single
      from call_and_handle_ok [of ?s2, OF _ assms(2-4), of x 1] hp1 obtain s' where C:
        "continue_or cfg (call_and_handle cfg ob x 1 ?s2) = Next s'" "has_port s'" "same_input ?s2 s'"
        "out s' = out s1 @ outputs f x" by auto
      note S = same_input_simps [OF C(3)] same_input_measures [OF C(3)]
      have "progress cfg f s s'"
        by (rule progressI [of _ "[x]" _ "[[x]]"]) (use C S p single out1 in \<open>auto simp: call_arg_def\<close>)
      then show ?thesis
        unfolding good_turn_def using t Inr nw single a C S io
        by (intro exI [of _ s']) (auto simp: middle_turn_def Let_def)
    qed
  qed
qed

lemma good_turn_same:
  assumes "good_turn cfg f ob s1 t" and "same_input s s1" and "out s1 = out s"
  shows "good_turn cfg f ob s t"
proof -
  have p: "progress cfg f s1 = progress cfg f s"
    using same_input_simps(1) [OF assms(2)] assms(3) by (simp add: progress_def fun_eq_iff)
  note m = same_input_measures [OF assms(2)]
  show ?thesis
    using assms(1) unfolding good_turn_def by (simp only: p m)
qed

text \<open>In a calm iteration of a middle stage only the age of the pending chunk is looked at before the get.\<close>

lemma iteration_middle:
  assumes "has_port s" and "calm f ob" and "\<not> c_root cfg"
  shows "\<exists>s2. iteration cfg ob s = middle_turn cfg ob s2 \<and> has_port s2 \<and> same_input s s2 \<and> out s2 = out s"
proof -
  from assms(1) obtain p where p: "ws_port s = Some p" "port_ok p" by (auto simp: has_port_def)
  obtain p' r where m: "port_maybe_flush (io_now ob) (io_flush_exn ob) p = (p', r)" by force
  note M = port_maybe_flush_correct [OF p(2) m]
  define s2 where "s2 = s\<lparr>ws_port := Some p', ws_park_write := ws_park_write s @ []\<rparr>"
  have "r = None" using M(3) assms(2) by (simp add: calm_def)
  then have "iteration cfg ob s = middle_turn cfg ob s2"
    using assms(2,3) p m by (simp add: iteration_def calm_def maybe_park_def s2_def Let_def)
  moreover have "has_port s2" "same_input s s2" "out s2 = out s"
    using M p \<open>r = None\<close> by (auto simp: s2_def has_port_def same_input_def out_def)
  ultimately show ?thesis by blast
qed

lemma iteration_good:
  assumes "has_port s" and "calm f ob" and "mild f" and "\<not> c_raise_errors cfg" and "\<not> c_root cfg" and "input_ok s"
  shows "good_turn cfg f ob s (iteration cfg ob s)"
proof -
  from iteration_middle [OF assms(1,2,5)] obtain s2 where
    s2: "iteration cfg ob s = middle_turn cfg ob s2" "has_port s2" "same_input s s2" "out s2 = out s" by blast
  then have "good_turn cfg f ob s2 (middle_turn cfg ob s2)"
    using assms by (intro middle_turn_good) (auto simp: same_input_simps)
  then show ?thesis using s2 by (auto intro: good_turn_same)
qed

lemma worker_loop_good:
  assumes "\<forall>ob \<in> set obs. calm f ob" and "mild f" and "\<not> c_raise_errors cfg" and "\<not> c_root cfg"
    and "has_port s" and "input_ok s"
  shows "\<exists>s'. (worker_loop cfg obs s = Next s'
       \<or> worker_loop cfg obs s = Leave s' \<and> c_threshold cfg \<le> ws_empty s' \<and> (\<exists>ob \<in> set obs. io_upstream ob))
     \<and> progress cfg f s s' \<and> has_port s' \<and> input_ok s'"
  using assms(1,5,6)
proof (induction obs arbitrary: s)
  case Nil
  then show ?case by (auto intro: progress_refl)
next
  case (Cons ob obs)
  have c: "calm f ob" using Cons.prems(1) by simp
  from iteration_good [OF Cons.prems(2) c assms(2-4) Cons.prems(3)] obtain s1 where
    I: "iteration cfg ob s = Next s1 \<or> iteration cfg ob s = Leave s1 \<and> io_upstream ob \<and> c_threshold cfg \<le> ws_empty s1"
       "progress cfg f s s1" "has_port s1" "input_ok s1"
    unfolding good_turn_def by blast
  show ?case
  proof (cases "iteration cfg ob s = Next s1")
    case False
    with I c show ?thesis by (auto simp: calm_def)
  next
    case True
    with Cons.IH [of s1] Cons.prems(1) I c show ?thesis
      by (auto simp: calm_def intro: progress_trans)
  qed
qed

text \<open>A concrete worker: it returns the batch it was given, in batches of two.\<close>

definition sample_cfg :: "nat wcfg" where
  "sample_cfg = \<lparr>c_root = False, c_raise_errors = False, c_batch_size = 2, c_drain = True,
     c_threshold = empty_threshold 0.3, c_timing = True, c_busy = True, c_view = (\<lambda>_. LeafS), c_dict = (\<lambda>_. None)\<rparr>"

definition sample_state :: "nat wstate" where
  "sample_state = \<lparr>ws_in = ic_new,
     ws_q = [Inr (Some (ChunkM [Obj 1, Obj 2, Obj 3])), Inr None, Inr (Some (ItemM EndV)), Inr (Some (ItemM (Obj 4)))],
     ws_back = [], ws_port = Some sample_port, ws_empty = 0, ws_timing = \<lparr>t_items = 0, t_time = 0, t_audio = 0\<rparr>,
     ws_published = None, ws_backoff = \<lparr>bo_base = 1, bo_failures = 0\<rparr>, ws_stop_write = None, ws_park_write = [],
     ws_busy = [], ws_emits = 0\<rparr>"

definition sample_obs :: "nat iter_obs" where
  "sample_obs = \<lparr>io_stop = 0, io_now = 0, io_flush_exn = None, io_stop1 = 0, io_park = None,
     io_park_obs = sample_park, io_drain_set = False, io_upstream = True, io_call = Ret,
     io_call_start = 1, io_elapsed = 1, io_emit = sample_emit, io_gen_stop = (\<lambda>_. False),
     io_clocks = [(0, 0), (0, 0)], io_deadline = 1, io_retry_now = 0, io_retry = []\<rparr>"

lemma sample_run_ok:
  "calm Ret sample_obs" "io_upstream sample_obs" "mild Ret" "\<not> c_raise_errors sample_cfg" "\<not> c_root sample_cfg"
  "has_port sample_state" "input_ok sample_state" "c_threshold sample_cfg = 3"
  "nones sample_state + ws_empty sample_state < 3" "ahead sample_state = 9" "out sample_state = []"
  "pending_in sample_state = [Obj 1, Obj 2, Obj 3, EndV, Obj 4]" "c_batch_size sample_cfg = 2"
  by (auto simp: calm_def sample_obs_def quiet_def sample_emit_def mild_def sample_cfg_def has_port_def sample_state_def
    sample_port_def port_ok_def input_ok_def ic_new_def pending_in_def answer_def nones_def ahead_def
    out_def sent_def empty_threshold_def)

lemma sample_outputs:
  assumes "WorkerStopV \<notin> set (concat calls)" and "\<forall>x \<in> set (concat calls). valid_item x"
  shows "concat (map (\<lambda>c. outputs Ret (call_arg sample_cfg c)) calls) = concat calls"
  using assms by (induction calls) (auto simp: outputs_def call_arg_def result_list_def sample_run_ok valid_items_id)

text \<open>
  C7: the run loop of a middle stage processes its input as a stream. In every calm run, of any
  length and for any batch size, the payloads taken off the input are cut into consecutive calls of
  at most a batch (\<open>End\<close> sentinels skipped, nothing dropped, nothing repeated), and what the worker
  has sent is, in order, what those calls contribute; the loop is left only when upstream is done
  and \<open>EMPTY_THRESHOLD\<close> polls in a row were empty.
\<close>

theorem worker_stream:
  assumes "\<forall>ob \<in> set obs. calm f ob" and "mild f" and "\<not> c_raise_errors cfg" and "\<not> c_root cfg"
    and "has_port s" and "input_ok s"
  shows "\<exists>s' xs calls. (worker_loop cfg obs s = Next s'
       \<or> worker_loop cfg obs s = Leave s' \<and> c_threshold cfg \<le> ws_empty s' \<and> (\<exists>ob \<in> set obs. io_upstream ob))
     \<and> pending_in s = xs @ pending_in s'
     \<and> concat calls = filter (\<lambda>x. \<not> is_end x) xs
     \<and> (\<forall>c \<in> set calls. c \<noteq> [] \<and> int (length c) \<le> max 1 (c_batch_size cfg))
     \<and> out s' = out s @ concat (map (\<lambda>c. outputs f (call_arg cfg c)) calls)"
  using worker_loop_good [OF assms] unfolding progress_def by blast

theorem worker_stream_witness:
  "\<exists>s' xs calls. worker_loop sample_cfg (replicate 2 (sample_obs\<lparr>io_upstream := False\<rparr>)) sample_state = Next s'
     \<and> [Obj 1, Obj 2, Obj 3, EndV, Obj 4] = xs @ pending_in s'
     \<and> concat calls = filter (\<lambda>x. \<not> is_end x) xs
     \<and> out s' = concat (map (\<lambda>c. outputs Ret (call_arg sample_cfg c)) calls)"
proof -
  have "calm Ret (sample_obs\<lparr>io_upstream := False\<rparr>)"
    using sample_run_ok(1) by (simp add: calm_def)
  then have obs: "\<forall>ob \<in> set (replicate 2 (sample_obs\<lparr>io_upstream := False\<rparr>)). calm Ret ob" by simp
  from worker_stream [OF obs sample_run_ok(3-7)] show ?thesis
    by (auto simp: sample_run_ok)
qed

section \<open>Draining to the end\<close>

lemma worker_loop_drains:
  assumes "\<forall>ob \<in> set obs. calm f ob \<and> io_upstream ob" and "mild f" and "\<not> c_raise_errors cfg" and "\<not> c_root cfg"
    and "has_port s" and "input_ok s"
    and "nones s + ws_empty s < c_threshold cfg \<or> ahead s = 0"
    and "ahead s + c_threshold cfg - (if ahead s = 0 then ws_empty s else 0) \<le> length obs"
    and "ahead s = 0 \<longrightarrow> ws_empty s < c_threshold cfg"
  shows "\<exists>s'. worker_loop cfg obs s = Leave s' \<and> pending_in s' = [] \<and> progress cfg f s s' \<and> has_port s'"
  using assms(1,5-9)
proof (induction obs arbitrary: s)
  case Nil
  then show ?case by (auto split: if_splits)
next
  case (Cons ob obs)
  have c: "calm f ob" and u: "io_upstream ob" using Cons.prems(1) by auto
  from iteration_good [OF Cons.prems(2) c assms(2-4) Cons.prems(3)] obtain s1 where
    I: "iteration cfg ob s = Next s1 \<or> iteration cfg ob s = Leave s1 \<and> io_upstream ob \<and> c_threshold cfg \<le> ws_empty s1"
       "progress cfg f s s1" "has_port s1" "input_ok s1"
       "if ahead s = 0 then ahead s1 = 0 \<and> ws_empty s1 = Suc (ws_empty s)
           \<and> (io_upstream ob \<and> c_threshold cfg \<le> ws_empty s1 \<longrightarrow> iteration cfg ob s = Leave s1)
        else ahead s1 < ahead s \<and> nones s1 + ws_empty s1 \<le> nones s + ws_empty s"
    unfolding good_turn_def by blast
  show ?case
  proof (cases "iteration cfg ob s = Leave s1")
    case True
    then have "ahead s1 = 0" using I Cons.prems(4) by (auto split: if_splits)
    with True I c show ?thesis by (auto simp: calm_def ahead_def)
  next
    case False
    with I(1) have it: "iteration cfg ob s = Next s1" by blast
    have "\<exists>s'. worker_loop cfg obs s1 = Leave s' \<and> pending_in s' = [] \<and> progress cfg f s1 s' \<and> has_port s'"
      using Cons.prems I(3-5) it u False by (intro Cons.IH) (auto split: if_splits)
    with it c I(2) show ?thesis by (auto simp: calm_def intro: progress_trans)
  qed
qed



section \<open>Leaving the loop\<close>

text \<open>
  What follows the loop: the stage's \<open>flush()\<close> (its items are emitted unless they are \<open>None\<close>;
  whatever goes wrong is reported and swallowed), then the output channel is flushed, before any
  coordination with the siblings.
\<close>

definition worker_epilogue ::
  "'a wcfg \<Rightarrow> 'a iter_obs \<Rightarrow> 'a park_hook \<Rightarrow> 'a wstate \<Rightarrow> 'a wstate \<times> exn option" where
  "worker_epilogue cfg ob hook s =
     (let s1 = (case ws_port s of
          None \<Rightarrow> s
        | Some _ \<Rightarrow> (case hook of
            HookItems xs \<Rightarrow> fst (emit_many cfg ob (filter (\<lambda>x. x \<noteq> NoneV) xs) s)
          | _ \<Rightarrow> s))
      in case flush_opt (io_flush_exn ob) (ws_port s1) of (port, r) \<Rightarrow> (s1\<lparr>ws_port := port\<rparr>, r))"

lemma worker_epilogue_flushes:
  assumes "has_port s" and "quiet (io_emit ob)" and "io_flush_exn ob = None"
  shows "\<exists>s' p. worker_epilogue cfg ob hook s = (s', None) \<and> ws_port s' = Some p \<and> port_ok p
    \<and> oc_pending (op_ch p) = []
    \<and> unchunk (op_log p) = out s @ (case hook of HookItems xs \<Rightarrow> filter (\<lambda>x. x \<noteq> NoneV) xs | _ \<Rightarrow> [])"
proof -
  define items where "items = (case hook of HookItems xs \<Rightarrow> filter (\<lambda>x. x \<noteq> NoneV) xs | _ \<Rightarrow> [])"
  obtain s1 where 1: "emit_many cfg ob items s = (s1, None)" "has_port s1" "out s1 = out s @ items"
    using emit_many_ok [OF assms(1,2)] by blast
  then obtain p1 where p1: "ws_port s1 = Some p1" "port_ok p1" by (auto simp: has_port_def)
  obtain port r where f: "flush_opt (io_flush_exn ob) (Some p1) = (port, r)" by force
  from flush_opt_Some [OF f p1(2)] assms(3) obtain p2 where
    p2: "port = Some p2" "port_ok p2" "oc_pending (op_ch p2) = []" "r = None" "sent p2 = sent p1" by blast
  have "worker_epilogue cfg ob hook s = (s1\<lparr>ws_port := port\<rparr>, r)"
    using assms(1) 1(1) p1(1) f
    by (cases hook) (auto simp: worker_epilogue_def items_def has_port_def)
  with p1 p2 1(3) show ?thesis by (auto simp: out_def sent_def items_def)
qed

lemma worker_run_sends:
  assumes "\<forall>ob \<in> set obs. calm f ob \<and> io_upstream ob" and "mild f" and "\<not> c_raise_errors cfg" and "\<not> c_root cfg"
    and "has_port s" and "input_ok s" and "nones s + ws_empty s < c_threshold cfg"
    and "ahead s + c_threshold cfg \<le> length obs" and "calm f ob"
  shows "\<exists>s' s'' p calls. worker_loop cfg obs s = Leave s' \<and> worker_epilogue cfg ob (HookItems items) s' = (s'', None)
     \<and> ws_port s'' = Some p \<and> port_ok p \<and> oc_pending (op_ch p) = []
     \<and> concat calls = filter (\<lambda>x. \<not> is_end x) (pending_in s)
     \<and> (\<forall>c \<in> set calls. c \<noteq> [] \<and> int (length c) \<le> max 1 (c_batch_size cfg))
     \<and> unchunk (op_log p) = out s @ concat (map (\<lambda>c. outputs f (call_arg cfg c)) calls) @ filter (\<lambda>x. x \<noteq> NoneV) items"
proof -
  have "ahead s + c_threshold cfg - (if ahead s = 0 then ws_empty s else 0) \<le> length obs"
    using assms(8) by simp
  with worker_loop_drains [OF assms(1-6)] assms(7)
  obtain s' where l: "worker_loop cfg obs s = Leave s'" "pending_in s' = []" "progress cfg f s s'" "has_port s'" by auto
  then obtain calls where c: "concat calls = filter (\<lambda>x. \<not> is_end x) (pending_in s)"
     "\<forall>c \<in> set calls. c \<noteq> [] \<and> int (length c) \<le> max 1 (c_batch_size cfg)"
     "out s' = out s @ concat (map (\<lambda>c. outputs f (call_arg cfg c)) calls)"
    unfolding progress_def by auto
  from worker_epilogue_flushes [OF l(4), of ob cfg "HookItems items"] assms(9) l c show ?thesis
    by (auto simp: calm_def)
qed

text \<open>
  Nothing a worker produced is left behind when it finishes. In a run that drains its input
  (as in the previous property) and then its stage's \<open>flush()\<close>, the messages on the output queue
  hold exactly the results of all calls, in order, followed by the flushed items, and the output
  channel is empty, before the worker coordinates with its siblings.
\<close>

theorem worker_run_delivers:
  assumes "\<forall>ob \<in> set obs. calm f ob \<and> io_upstream ob" and "mild f" and "\<not> c_raise_errors cfg" and "\<not> c_root cfg"
    and "has_port s" and "input_ok s" and "nones s + ws_empty s < c_threshold cfg"
    and "ahead s + c_threshold cfg \<le> length obs" and "calm f ob"
  shows "\<exists>s' s'' p calls. worker_loop cfg obs s = Leave s' \<and> worker_epilogue cfg ob (HookItems items) s' = (s'', None)
     \<and> ws_port s'' = Some p \<and> oc_pending (op_ch p) = []
     \<and> concat calls = filter (\<lambda>x. \<not> is_end x) (pending_in s)
     \<and> (\<forall>c \<in> set calls. c \<noteq> [] \<and> int (length c) \<le> max 1 (c_batch_size cfg))
     \<and> unchunk (op_log p) = out s @ concat (map (\<lambda>c. outputs f (call_arg cfg c)) calls) @ filter (\<lambda>x. x \<noteq> NoneV) items"
  using worker_run_sends [OF assms, of items] by blast

theorem worker_run_delivers_witness:
  "\<exists>s' s'' p. worker_loop sample_cfg (replicate 12 sample_obs) sample_state = Leave s'
     \<and> worker_epilogue sample_cfg sample_obs (HookItems [NoneV, Obj 9]) s' = (s'', None)
     \<and> ws_port s'' = Some p \<and> unchunk (op_log p) = [Obj 1, Obj 2, Obj 3, Obj 4, Obj 9]"
proof -
  have obs: "\<forall>ob \<in> set (replicate 12 sample_obs). calm Ret ob \<and> io_upstream ob" by (simp add: sample_run_ok)
  from worker_run_delivers [OF obs sample_run_ok(3-7) _ _ sample_run_ok(1), of "[NoneV, Obj 9]"]
  obtain s' s'' p calls where R: "worker_loop sample_cfg (replicate 12 sample_obs) sample_state = Leave s'"
       "worker_epilogue sample_cfg sample_obs (HookItems [NoneV, Obj 9]) s' = (s'', None)"
       "ws_port s'' = Some p" "concat calls = filter (\<lambda>x. \<not> is_end x) (pending_in sample_state)"
       "unchunk (op_log p) = out sample_state @ concat (map (\<lambda>c. outputs Ret (call_arg sample_cfg c)) calls) @ filter (\<lambda>x. x \<noteq> NoneV) [NoneV, Obj 9]"
    by (auto simp: sample_run_ok)
  have c: "concat calls = [Obj 1, Obj 2, Obj 3, Obj 4]" using R(4) by (simp add: sample_run_ok)
  have "concat (map (\<lambda>c. outputs Ret (call_arg sample_cfg c)) calls) = concat calls"
    by (rule sample_outputs) (simp_all add: c)
  with R c show ?thesis by (auto simp: sample_run_ok)
qed

end
