(* ===== verification/Pipe_Completion.thy ===== *)
theory Pipe_Completion
  imports Pipe_Loop
begin

text \<open>
  How a stage ends (\<^verbatim>\<open>src/pipe/workers.py\<close>): \<open>_finish_worker\<close>, the sibling coordination in which the
  last finisher puts the \<open>End\<close> sentinels and sets the stage's done event, and
  \<open>_scavenge_hold_wait\<close>, the wait of a worker whose GPU belongs to someone else. The siblings run
  in parallel: their steps interleave in a step relation, of which the safety of the protocol is
  shown, and where it stops being safe (a restarted finisher).
\<close>

section \<open>Finishing\<close>

text \<open>
  Putting the sentinels: each put may wait while other processes use the queue (\<open>envs\<close>); the first
  one that times out ends the loop. The flag says whether all of them were put.
\<close>

fun put_ends :: "nat \<Rightarrow> ('a msg bqueue \<Rightarrow> 'a msg bqueue) list \<Rightarrow> 'a msg bqueue \<Rightarrow> 'a msg bqueue \<times> bool" where
  "put_ends 0 envs q = (q, True)"
| "put_ends (Suc n) envs q =
     (let q1 = (case envs of [] \<Rightarrow> q | e # _ \<Rightarrow> e q) in
      case bq_put (ItemM EndV) q1 of
        (q2, Inr True) \<Rightarrow> put_ends n (tl envs) q2
      | (q2, _) \<Rightarrow> (q2, False))"

text \<open>The shared objects of a stage: the finish counter, the done event and the output queue.\<close>

record 'a stage_sync =
  sy_counter :: "nat option"
  sy_done :: "bool option"
  sy_queue :: "'a msg bqueue option"

definition finish_worker ::
  "nat option \<Rightarrow> bool \<Rightarrow> nat \<Rightarrow> ('a msg bqueue \<Rightarrow> 'a msg bqueue) list \<Rightarrow> 'a stage_sync \<Rightarrow> 'a stage_sync" where
  "finish_worker worker_count is_final expected_consumers envs sy =
     (case (sy_counter sy, worker_count) of
        (Some c, Some n) \<Rightarrow>
          (let sy1 = sy\<lparr>sy_counter := Some (Suc c)\<rparr> in
           if Suc c < n then sy1
           else sy1\<lparr>sy_queue := map_option (\<lambda>q. fst (put_ends (if is_final then expected_consumers else 1) envs q)) (sy_queue sy1),
                    sy_done := map_option (\<lambda>_. True) (sy_done sy1)\<rparr>)
      | _ \<Rightarrow> sy)"

lemma put_ends_room:
  assumes "bq_maxsize q = 0" and "envs = []"
  shows "put_ends n envs q = (q\<lparr>bq_items := bq_items q @ replicate n (ItemM EndV)\<rparr>, True)"
  using assms
proof (induction n arbitrary: q)
  case (Suc n)
  then show ?case by (simp add: bq_put_def bq_full_def)
qed simp

section \<open>A stage of several workers\<close>

text \<open>
  Where a worker of the stage is: still working (it may put messages), inside the coordination with
  \<open>k\<close> sentinels left to put, or finished. Each event is one atomic action of one worker: putting a
  message, the locked increment of the counter, one sentinel put, giving up on a full queue,
  setting the done event. \<open>Respawn\<close> is the health monitor starting a crashed worker again.
\<close>

datatype phase = Working | Ending nat | Finished

record 'a stage_conf =
  sc_phases :: "phase list"
  sc_counter :: nat
  sc_log :: "'a msg list"
  sc_done :: bool

definition stage_init :: "nat \<Rightarrow> 'a stage_conf" where
  "stage_init n = \<lparr>sc_phases = replicate n Working, sc_counter = 0, sc_log = [], sc_done = False\<rparr>"

text \<open>
  The locked increment and the test that follows, as in \<open>_finish_worker\<close>: the worker whose
  increment reaches the count goes on to put the sentinels.
\<close>

definition count_worker :: "nat \<Rightarrow> nat \<Rightarrow> nat \<Rightarrow> 'a stage_conf \<Rightarrow> 'a stage_conf" where
  "count_worker n n_ends i sc =
     (let c = Suc (sc_counter sc) in
      sc\<lparr>sc_counter := c, sc_phases := (sc_phases sc)[i := if c < n then Finished else Ending n_ends]\<rparr>)"

inductive stage_step :: "nat \<Rightarrow> nat \<Rightarrow> 'a stage_conf \<Rightarrow> 'a stage_conf \<Rightarrow> bool" for n n_ends where
  emit: "i < n \<Longrightarrow> sc_phases sc ! i = Working \<Longrightarrow> list_all (\<lambda>x. \<not> is_end x) (payloads m) \<Longrightarrow>
         stage_step n n_ends sc (sc\<lparr>sc_log := sc_log sc @ [m]\<rparr>)"
| count: "i < n \<Longrightarrow> sc_phases sc ! i = Working \<Longrightarrow> stage_step n n_ends sc (count_worker n n_ends i sc)"
| put_end: "i < n \<Longrightarrow> sc_phases sc ! i = Ending (Suc k) \<Longrightarrow>
         stage_step n n_ends sc (sc\<lparr>sc_log := sc_log sc @ [ItemM EndV], sc_phases := (sc_phases sc)[i := Ending k]\<rparr>)"
| full: "i < n \<Longrightarrow> sc_phases sc ! i = Ending (Suc k) \<Longrightarrow>
         stage_step n n_ends sc (sc\<lparr>sc_phases := (sc_phases sc)[i := Ending 0]\<rparr>)"
| set_done: "i < n \<Longrightarrow> sc_phases sc ! i = Ending 0 \<Longrightarrow>
         stage_step n n_ends sc (sc\<lparr>sc_done := True, sc_phases := (sc_phases sc)[i := Finished]\<rparr>)"

inductive stage_reach :: "nat \<Rightarrow> nat \<Rightarrow> 'a stage_conf \<Rightarrow> bool" for n n_ends where
  init: "stage_reach n n_ends (stage_init n)"
| step: "stage_reach n n_ends sc \<Longrightarrow> stage_step n n_ends sc sc' \<Longrightarrow> stage_reach n n_ends sc'"

definition working :: "'a stage_conf \<Rightarrow> nat" where
  "working sc = length (filter (\<lambda>p. p = Working) (sc_phases sc))"

definition ending :: "'a stage_conf \<Rightarrow> nat" where
  "ending sc = length (filter (\<lambda>p. \<exists>k. p = Ending k) (sc_phases sc))"

text \<open>Sentinels on the queue and sentinels still to put.\<close>

definition ends_on :: "'a stage_conf \<Rightarrow> nat" where
  "ends_on sc = length (filter is_end (unchunk (sc_log sc)))"

definition ends_left :: "'a stage_conf \<Rightarrow> nat" where
  "ends_left sc = sum_list (map (\<lambda>p. case p of Ending k \<Rightarrow> k | _ \<Rightarrow> 0) (sc_phases sc))"

text \<open>
  The invariant: the counter counts the workers that are no longer working; somebody is inside the
  coordination, or the event is set, only when all are counted; and the log is payloads, then
  sentinels.
\<close>

definition stage_inv :: "nat \<Rightarrow> nat \<Rightarrow> 'a stage_conf \<Rightarrow> bool" where
  "stage_inv n n_ends sc \<longleftrightarrow>
     length (sc_phases sc) = n \<and> sc_counter sc + working sc = n
     \<and> (0 < ending sc \<or> sc_done sc \<longrightarrow> working sc = 0)
     \<and> ending sc + (if sc_done sc then 1 else 0) \<le> 1
     \<and> (0 < n \<and> working sc = 0 \<longrightarrow> 0 < ending sc \<or> sc_done sc)
     \<and> ends_on sc + ends_left sc \<le> n_ends
     \<and> (0 < working sc \<longrightarrow> ends_on sc = 0 \<and> ends_left sc = 0)
     \<and> (\<exists>xs k. sc_log sc = xs @ replicate k (ItemM EndV) \<and> list_all (\<lambda>x. \<not> is_end x) (unchunk xs))"

text \<open>How the counts change when worker \<open>i\<close> goes from one phase to another.\<close>

lemma counts_update:
  assumes "i < length (sc_phases sc)" and "sc_phases sc ! i = p"
  shows "working (sc\<lparr>sc_phases := (sc_phases sc)[i := q]\<rparr>) + (if p = Working then 1 else 0)
           = working sc + (if q = Working then 1 else 0)"
    and "ending (sc\<lparr>sc_phases := (sc_phases sc)[i := q]\<rparr>) + (if \<exists>k. p = Ending k then 1 else 0)
           = ending sc + (if \<exists>k. q = Ending k then 1 else 0)"
    and "ends_left (sc\<lparr>sc_phases := (sc_phases sc)[i := q]\<rparr>) + (case p of Ending k \<Rightarrow> k | _ \<Rightarrow> 0)
           = ends_left sc + (case q of Ending k \<Rightarrow> k | _ \<Rightarrow> 0)"
  using length_filter_update [of i "sc_phases sc" "\<lambda>p. p = Working" q]
    length_filter_update [of i "sc_phases sc" "\<lambda>p. \<exists>k. p = Ending k" q]
    sum_list_map_update [of i "sc_phases sc" "\<lambda>p. case p of Ending k \<Rightarrow> k | _ \<Rightarrow> 0" q] assms
  by (simp_all add: working_def ending_def ends_left_def)

lemma counts_other_fields [simp]:
  "working (sc\<lparr>sc_log := l\<rparr>) = working sc" "working (sc\<lparr>sc_done := d\<rparr>) = working sc" "working (sc\<lparr>sc_counter := c\<rparr>) = working sc"
  "ending (sc\<lparr>sc_log := l\<rparr>) = ending sc" "ending (sc\<lparr>sc_done := d\<rparr>) = ending sc" "ending (sc\<lparr>sc_counter := c\<rparr>) = ending sc"
  "ends_left (sc\<lparr>sc_log := l\<rparr>) = ends_left sc" "ends_left (sc\<lparr>sc_done := d\<rparr>) = ends_left sc" "ends_left (sc\<lparr>sc_counter := c\<rparr>) = ends_left sc"
  "ends_on (sc\<lparr>sc_done := d\<rparr>) = ends_on sc" "ends_on (sc\<lparr>sc_counter := c\<rparr>) = ends_on sc" "ends_on (sc\<lparr>sc_phases := ps\<rparr>) = ends_on sc"
  by (simp_all add: working_def ending_def ends_left_def ends_on_def)

lemma in_phase_counts:
  assumes "i < length (sc_phases sc)"
  shows "sc_phases sc ! i = Working \<Longrightarrow> 0 < working sc"
    and "sc_phases sc ! i = Ending k \<Longrightarrow> 0 < ending sc"
  using assms unfolding working_def ending_def
  by (auto simp: length_greater_0_conv filter_empty_conv intro!: nth_mem dest: nth_mem)

text \<open>A log of payloads followed by sentinels; the number of sentinels is determined by it.\<close>

definition log_ok :: "'a msg list \<Rightarrow> bool" where
  "log_ok l \<longleftrightarrow> (\<exists>xs k. l = xs @ replicate k (ItemM EndV) \<and> list_all (\<lambda>x. \<not> is_end x) (unchunk xs))"

lemma unchunk_ends [simp]: "unchunk (replicate k (ItemM EndV)) = replicate k EndV"
  by (induction k) auto

lemma log_ok_snoc_item:
  assumes "log_ok l" and "filter is_end (unchunk l) = []" and "list_all (\<lambda>x. \<not> is_end x) (payloads m)"
  shows "log_ok (l @ [m])"
proof -
  from assms(1) obtain xs k where l: "l = xs @ replicate k (ItemM EndV)" "list_all (\<lambda>x. \<not> is_end x) (unchunk xs)"
    by (auto simp: log_ok_def)
  with assms(2) have "k = 0" by (auto simp: filter_empty_conv)
  with l assms(3) show ?thesis unfolding log_ok_def by (intro exI [of _ "xs @ [m]"] exI [of _ 0]) auto
qed

lemma log_ok_snoc_end: "log_ok l \<Longrightarrow> log_ok (l @ [ItemM EndV])"
  unfolding log_ok_def by (metis append_assoc replicate_append_same replicate_Suc)

lemma stage_inv_log: "stage_inv n n_ends sc \<Longrightarrow> log_ok (sc_log sc)"
  by (simp add: stage_inv_def log_ok_def)

lemma stage_inv_intro:
  "length (sc_phases sc) = n \<Longrightarrow> sc_counter sc + working sc = n \<Longrightarrow>
   (0 < ending sc \<or> sc_done sc \<Longrightarrow> working sc = 0) \<Longrightarrow>
   ending sc + (if sc_done sc then 1 else 0) \<le> 1 \<Longrightarrow>
   (0 < n \<Longrightarrow> working sc = 0 \<Longrightarrow> 0 < ending sc \<or> sc_done sc) \<Longrightarrow>
   ends_on sc + ends_left sc \<le> n_ends \<Longrightarrow>
   (0 < working sc \<Longrightarrow> ends_on sc = 0 \<and> ends_left sc = 0) \<Longrightarrow> log_ok (sc_log sc) \<Longrightarrow> stage_inv n n_ends sc"
  unfolding stage_inv_def log_ok_def by blast

lemma stage_inv_init: "stage_inv n n_ends (stage_init n)"
proof -
  have "log_ok []" by (simp add: log_ok_def)
  then show ?thesis
    by (intro stage_inv_intro)
       (auto simp: stage_init_def working_def ending_def ends_on_def ends_left_def filter_empty_conv sum_list_replicate map_replicate_const)
qed

lemma stage_inv_step:
  assumes "stage_inv n n_ends sc" and "stage_step n n_ends sc sc'"
  shows "stage_inv n n_ends sc'"
  using assms(2)
proof cases
  case (emit i m)
  have w: "0 < working sc" using assms(1) emit by (auto simp: stage_inv_def intro: in_phase_counts)
  have "filter is_end (payloads m) = []" using emit by (auto simp: filter_empty_conv list_all_iff)
  then have e: "ends_on sc' = ends_on sc" using emit by (simp add: ends_on_def)
  have "log_ok (sc_log sc')"
    using log_ok_snoc_item [OF stage_inv_log [OF assms(1)]] w emit assms(1) by (simp add: stage_inv_def ends_on_def)
  then show ?thesis
    using assms(1) e emit(1) by (intro stage_inv_intro) (auto simp: stage_inv_def)
next
  case (count i)
  have len: "i < length (sc_phases sc)" using assms(1) count by (simp add: stage_inv_def)
  note U = counts_update [OF len count(3), of "if Suc (sc_counter sc) < n then Finished else Ending n_ends"]
  have w: "0 < working sc" using in_phase_counts(1) [OF len count(3)] .
  then have "ending sc = 0" "\<not> sc_done sc" "ends_on sc = 0" "ends_left sc = 0" using assms(1) by (auto simp: stage_inv_def)
  moreover have "working sc' = working (sc\<lparr>sc_phases := sc_phases sc'\<rparr>)" "ending sc' = ending (sc\<lparr>sc_phases := sc_phases sc'\<rparr>)"
      "ends_left sc' = ends_left (sc\<lparr>sc_phases := sc_phases sc'\<rparr>)" "ends_on sc' = ends_on sc"
    using count(1) by (simp_all add: count_worker_def Let_def working_def ending_def ends_left_def ends_on_def)
  moreover have "sc_phases sc' = (sc_phases sc)[i := if Suc (sc_counter sc) < n then Finished else Ending n_ends]"
      "sc_counter sc' = Suc (sc_counter sc)" "sc_log sc' = sc_log sc" "sc_done sc' = sc_done sc"
    using count(1) by (simp_all add: count_worker_def Let_def)
  ultimately show ?thesis
    using assms(1) U w stage_inv_log [OF assms(1)]
    by (intro stage_inv_intro) (auto simp: stage_inv_def split: if_splits)
next
  case (put_end i k)
  have len: "i < length (sc_phases sc)" using assms(1) put_end by (simp add: stage_inv_def)
  note U = counts_update [OF len put_end(3), of "Ending k"]
  have "0 < ending sc" using in_phase_counts(2) [OF len put_end(3)] .
  then show ?thesis
    using assms(1) U put_end(1) log_ok_snoc_end [OF stage_inv_log [OF assms(1)]]
    by (intro stage_inv_intro) (auto simp: stage_inv_def working_def ending_def ends_left_def ends_on_def)
next
  case (full i k)
  have len: "i < length (sc_phases sc)" using assms(1) full by (simp add: stage_inv_def)
  note U = counts_update [OF len full(3), of "Ending 0"]
  have "0 < ending sc" using in_phase_counts(2) [OF len full(3)] .
  then show ?thesis
    using assms(1) U full(1) stage_inv_log [OF assms(1)]
    by (intro stage_inv_intro) (auto simp: stage_inv_def)
next
  case (set_done i)
  have len: "i < length (sc_phases sc)" using assms(1) set_done by (simp add: stage_inv_def)
  note U = counts_update [OF len set_done(3), of "Finished"]
  have "0 < ending sc" using in_phase_counts(2) [OF len set_done(3)] .
  then show ?thesis
    using assms(1) U set_done(1) stage_inv_log [OF assms(1)]
    by (intro stage_inv_intro) (auto simp: stage_inv_def working_def ending_def ends_left_def ends_on_def)
qed

lemma stage_reach_inv: "stage_reach n n_ends sc \<Longrightarrow> stage_inv n n_ends sc"
  by (induction rule: stage_reach.induct) (auto intro: stage_inv_init stage_inv_step)


text \<open>The witness: two workers; the second one to finish puts the sentinel.\<close>

definition sample_stage_run :: "nat stage_conf list" where
  "sample_stage_run =
     (let s0 = stage_init 2;
          s1 = s0\<lparr>sc_log := sc_log s0 @ [ItemM (Obj 5)]\<rparr>;
          s2 = count_worker 2 1 0 s1;
          s3 = s2\<lparr>sc_log := sc_log s2 @ [ChunkM [Obj 6, Obj 7]]\<rparr>;
          s4 = count_worker 2 1 1 s3;
          s5 = s4\<lparr>sc_log := sc_log s4 @ [ItemM EndV], sc_phases := (sc_phases s4)[1 := Ending 0]\<rparr>;
          s6 = s5\<lparr>sc_done := True, sc_phases := (sc_phases s5)[1 := Finished]\<rparr>
      in [s0, s1, s2, s3, s4, s5, s6])"

lemma sample_stage_steps: "i < 6 \<Longrightarrow> stage_step 2 1 (sample_stage_run ! i) (sample_stage_run ! Suc i)"
proof -
  assume "i < 6"
  then consider "i = 0" | "i = 1" | "i = 2" | "i = 3" | "i = 4" | "i = 5" by linarith
  then show ?thesis
  proof cases
    case 1 then show ?thesis
      using stage_step.emit [of 0 2 "sample_stage_run ! 0" "ItemM (Obj 5)" 1]
      by (simp add: sample_stage_run_def Let_def stage_init_def)
  next
    case 2 then show ?thesis
      using stage_step.count [of 0 2 "sample_stage_run ! 1" 1] by (simp add: sample_stage_run_def Let_def stage_init_def)
  next
    case 3 then show ?thesis
      using stage_step.emit [of 1 2 "sample_stage_run ! 2" "ChunkM [Obj 6, Obj 7]" 1]
      by (simp add: sample_stage_run_def Let_def stage_init_def count_worker_def)
  next
    case 4 then show ?thesis
      using stage_step.count [of 1 2 "sample_stage_run ! 3" 1]
      by (simp add: sample_stage_run_def Let_def stage_init_def count_worker_def)
  next
    case 5 then show ?thesis
      using stage_step.put_end [of 1 2 "sample_stage_run ! 4" 0 1]
      by (simp add: sample_stage_run_def Let_def stage_init_def count_worker_def)
  next
    case 6 then show ?thesis
      using stage_step.set_done [of 1 2 "sample_stage_run ! 5" 1]
      by (simp add: sample_stage_run_def Let_def stage_init_def count_worker_def)
  qed
qed


section \<open>The coordination implements the protocol\<close>

lemma put_end_steps:
  assumes "i < n" and "sc_phases sc ! i = Ending k" and "length (sc_phases sc) = n"
  shows "(stage_step n e)\<^sup>*\<^sup>* sc (sc\<lparr>sc_log := sc_log sc @ replicate k (ItemM EndV), sc_phases := (sc_phases sc)[i := Ending 0]\<rparr>)"
  using assms(2,3)
proof (induction k arbitrary: sc)
  case 0
  then have "(sc_phases sc)[i := Ending 0] = sc_phases sc" by (metis list_update_id)
  then show ?case by simp
next
  case (Suc k)
  define sc2 where "sc2 = sc\<lparr>sc_log := sc_log sc @ [ItemM EndV], sc_phases := (sc_phases sc)[i := Ending k]\<rparr>"
  have "stage_step n e sc sc2" unfolding sc2_def using assms(1) Suc.prems(1) by (rule stage_step.put_end)
  moreover have "(stage_step n e)\<^sup>*\<^sup>* sc2 (sc2\<lparr>sc_log := sc_log sc2 @ replicate k (ItemM EndV), sc_phases := (sc_phases sc2)[i := Ending 0]\<rparr>)"
    using Suc.prems assms(1) by (intro Suc.IH) (auto simp: sc2_def)
  ultimately show ?case by (auto simp: sc2_def intro: converse_rtranclp_into_rtranclp)
qed

text \<open>
  \<open>_finish_worker\<close> implements the protocol: called by a working worker \<open>i\<close>, on an unbounded
  output queue nobody else uses meanwhile, it amounts to a sequence of protocol steps that ends with
  worker \<open>i\<close> finished, and counter, done event and queue hold what the protocol says.
\<close>

theorem finish_worker_refines:
  fixes sc :: "'a stage_conf"
  assumes "i < n" and "n = length (sc_phases sc)" and "sc_phases sc ! i = Working" and "bq_maxsize q = 0"
    and "bq_items q = sc_log sc"
    and "sy = \<lparr>sy_counter = Some (sc_counter sc), sy_done = Some (sc_done sc), sy_queue = Some q\<rparr>"
  shows "\<exists>sc' q'. (stage_step n (if fin then consumers else 1))\<^sup>*\<^sup>* sc sc'
    \<and> sc_phases sc' = (sc_phases sc)[i := Finished]
    \<and> finish_worker (Some n) fin consumers [] sy
        = \<lparr>sy_counter = Some (sc_counter sc'), sy_done = Some (sc_done sc'), sy_queue = Some q'\<rparr>
    \<and> bq_items q' = sc_log sc'"
proof -
  define e where "e = (if fin then consumers else 1)"
  have c: "stage_step n e sc (count_worker n e i sc)" using assms(1,3) by (rule stage_step.count)
  show ?thesis
  proof (cases "Suc (sc_counter sc) < n")
    case True
    then show ?thesis
      using c assms(5,6) by (intro exI [of _ "count_worker n e i sc"] exI [of _ q])
         (auto simp: finish_worker_def count_worker_def e_def Let_def)
  next
    case False
    define sc1 where "sc1 = count_worker n e i sc"
    define sc2 where "sc2 = sc1\<lparr>sc_log := sc_log sc1 @ replicate e (ItemM EndV), sc_phases := (sc_phases sc1)[i := Ending 0]\<rparr>"
    define sc3 where "sc3 = sc2\<lparr>sc_done := True, sc_phases := (sc_phases sc2)[i := Finished]\<rparr>"
    have "(stage_step n e)\<^sup>*\<^sup>* sc1 sc2"
      unfolding sc2_def using False assms(1,2) by (intro put_end_steps) (auto simp: sc1_def count_worker_def Let_def)
    moreover have "stage_step n e sc2 sc3"
      unfolding sc3_def using assms(1,2) by (intro stage_step.set_done) (auto simp: sc2_def sc1_def count_worker_def Let_def)
    moreover have "stage_step n e sc sc1" using c by (simp add: sc1_def)
    ultimately have "(stage_step n e)\<^sup>*\<^sup>* sc sc3"
      by (meson converse_rtranclp_into_rtranclp rtranclp.rtrancl_into_rtrancl)
    moreover have "finish_worker (Some n) fin consumers [] sy
        = \<lparr>sy_counter = Some (sc_counter sc3), sy_done = Some (sc_done sc3),
           sy_queue = Some (q\<lparr>bq_items := bq_items q @ replicate e (ItemM EndV)\<rparr>)\<rparr>"
      using False assms(4,6) put_ends_room [OF assms(4) refl, of e]
      by (simp add: finish_worker_def sc3_def sc2_def sc1_def count_worker_def e_def Let_def)
    ultimately show ?thesis
      using assms(5) by (intro exI [of _ sc3] exI [of _ "q\<lparr>bq_items := bq_items q @ replicate e (ItemM EndV)\<rparr>"])
        (auto simp: sc3_def sc2_def sc1_def count_worker_def e_def Let_def)
  qed
qed

theorem finish_worker_refines_witness:
  "\<exists>sc' q'. (stage_step 1 3)\<^sup>*\<^sup>* (stage_init 1 :: nat stage_conf) sc' \<and> sc_phases sc' = [Finished]
     \<and> finish_worker (Some 1) True 3 [] \<lparr>sy_counter = Some 0, sy_done = Some False, sy_queue = Some \<lparr>bq_maxsize = 0, bq_items = []\<rparr>\<rparr>
        = \<lparr>sy_counter = Some 1, sy_done = Some True, sy_queue = Some q'\<rparr>
     \<and> bq_items q' = sc_log sc'"
  using finish_worker_refines [of 0 1 "stage_init 1 :: nat stage_conf" "\<lparr>bq_maxsize = 0, bq_items = []\<rparr>"
      "\<lparr>sy_counter = Some 0, sy_done = Some False, sy_queue = Some \<lparr>bq_maxsize = 0, bq_items = []\<rparr>\<rparr>" True 3]
  by (auto simp: stage_init_def finish_worker_def Let_def)

section \<open>A finisher that is started again\<close>

text \<open>
  The health monitor starts a worker whose process died with an error again, with the same
  arguments (\<open>lifecycle._restart_worker\<close>): the counter still holds its first finish.
\<close>

definition respawn :: "nat \<Rightarrow> 'a stage_conf \<Rightarrow> 'a stage_conf" where
  "respawn i sc = sc\<lparr>sc_phases := (sc_phases sc)[i := Working]\<rparr>"

text \<open>
  C39: restarting a worker that had already finished breaks the protocol: the worker counts itself
  a second time, so with two workers the done event is set, and the sentinel put, while the other
  worker is still working, whose later items then come after the sentinel.
\<close>

theorem restarted_finisher_ends_stage_early:
  "\<exists>sc1 sc. stage_reach 2 1 sc1 \<and> sc_phases sc1 ! 0 = Finished \<and> sc_phases sc1 ! 1 = Working
     \<and> (stage_step 2 1)\<^sup>*\<^sup>* (respawn 0 sc1) sc \<and> sc_done sc \<and> sc_phases sc ! 1 = Working
     \<and> sc_log sc = [ItemM EndV, ItemM (Obj (7 :: nat))]"
proof -
  define sc1 :: "nat stage_conf" where "sc1 = count_worker 2 1 0 (stage_init 2)"
  have "stage_step 2 1 (stage_init 2) sc1"
    unfolding sc1_def by (rule stage_step.count) (simp_all add: stage_init_def)
  then have r: "stage_reach 2 1 sc1" by (rule stage_reach.step [OF stage_reach.init])
  define a where "a = respawn 0 sc1"
  define b where "b = count_worker 2 1 0 a"
  define c where "c = b\<lparr>sc_log := sc_log b @ [ItemM EndV], sc_phases := (sc_phases b)[0 := Ending 0]\<rparr>"
  define d where "d = c\<lparr>sc_done := True, sc_phases := (sc_phases c)[0 := Finished]\<rparr>"
  define f where "f = d\<lparr>sc_log := sc_log d @ [ItemM (Obj 7)]\<rparr>"
  note defs = f_def d_def c_def b_def a_def sc1_def respawn_def count_worker_def stage_init_def Let_def
  have "stage_step 2 1 a b" unfolding b_def by (rule stage_step.count) (simp_all add: defs)
  moreover have "stage_step 2 1 b c" unfolding c_def by (rule stage_step.put_end) (simp_all add: defs)
  moreover have "stage_step 2 1 c d" unfolding d_def by (rule stage_step.set_done) (simp_all add: defs)
  moreover have "stage_step 2 1 d f" unfolding f_def by (rule stage_step.emit [of 1]) (simp_all add: defs)
  ultimately have "(stage_step 2 1)\<^sup>*\<^sup>* a f"
    by (meson converse_rtranclp_into_rtranclp r_into_rtranclp)
  moreover have "sc_phases sc1 ! 0 = Finished" "sc_phases sc1 ! 1 = Working" "sc_done f"
    "sc_phases f ! 1 = Working" "sc_log f = [ItemM EndV, ItemM (Obj 7)]"
    by (simp_all add: defs)
  ultimately show ?thesis using r unfolding a_def by blast
qed

section \<open>Waiting for a GPU that belongs to someone else\<close>

text \<open>
  \<open>_scavenge_hold_wait\<close>. A round has the flags as the loop reads them, whether all siblings have
  finished, and what other processes do to the input queue before it is looked at. The result is
  what the function returns, or \<open>None\<close> while it waits. A payload found on the queue is put back, at
  its end.
\<close>

record 'q hold_round =
  hr_hold :: bool
  hr_stop :: bool
  hr_upstream :: bool
  hr_only_unfinished :: bool
  hr_env :: "'q \<Rightarrow> 'q"

fun scavenge_hold_wait ::
  "'a msg bqueue hold_round list \<Rightarrow> 'a msg bqueue option \<Rightarrow> 'a msg bqueue option \<times> bool option" where
  "scavenge_hold_wait [] q = (q, None)"
| "scavenge_hold_wait (r # rs) q =
     (if \<not> hr_hold r then (q, Some True)
      else if hr_stop r then (q, Some False)
      else if \<not> hr_upstream r then scavenge_hold_wait rs (map_option (hr_env r) q)
      else case q of
        None \<Rightarrow> (None, Some False)
      | Some q0 \<Rightarrow>
          let q1 = hr_env r q0 in
          if \<not> hr_only_unfinished r then scavenge_hold_wait rs (Some q1)
          else case bq_get q1 of
            (q2, Inr (Some raw)) \<Rightarrow>
              (if raw = ItemM EndV then scavenge_hold_wait rs (Some q2)
               else scavenge_hold_wait rs (Some (fst (bq_put raw q2))))
          | (q2, _) \<Rightarrow> (Some q2, Some False))"

definition real_messages :: "'a msg bqueue \<Rightarrow> 'a msg multiset" where
  "real_messages q = filter_mset (\<lambda>m. m \<noteq> ItemM EndV) (mset (bq_items q))"

lemma put_back_room:
  assumes "bq_get q = (q2, Inr (Some raw))" and "\<not> (0 < bq_maxsize q \<and> bq_maxsize q < length (bq_items q))"
  shows "real_messages (fst (bq_put raw q2)) = real_messages q"
    and "bq_maxsize (fst (bq_put raw q2)) = bq_maxsize q"
    and "length (bq_items (fst (bq_put raw q2))) = length (bq_items q)"
    and "bq_maxsize q2 = bq_maxsize q" and "raw = ItemM EndV \<Longrightarrow> real_messages q2 = real_messages q"
    and "length (bq_items q2) < length (bq_items q)"
  using assms
  by (auto simp: bq_get_def bq_put_def bq_full_def real_messages_def split: list.splits if_splits)

text \<open>
  A held worker gives up only when it may. If the other users of the queue do not touch it
  meanwhile, whatever the wait does to the queue, every payload message stays on it (only stray
  \<open>End\<close> sentinels are removed); and it reports the end of the stream only if the pipeline stops, or
  upstream is done, all siblings have finished and no payload is left.
\<close>

theorem hold_wait_conserves:
  assumes "\<forall>r \<in> set rs. hr_env r = id" and "scavenge_hold_wait rs (Some q) = (q', res)"
    and "\<not> (0 < bq_maxsize q \<and> bq_maxsize q < length (bq_items q))"
  shows "\<exists>q1. q' = Some q1 \<and> real_messages q1 = real_messages q \<and>
    (res = Some False \<longrightarrow> (\<exists>r \<in> set rs. hr_stop r) \<or>
       (\<exists>r \<in> set rs. hr_upstream r \<and> hr_only_unfinished r) \<and> real_messages q = {#})
    \<and> (res = Some True \<longrightarrow> (\<exists>r \<in> set rs. \<not> hr_hold r))"
  using assms
proof (induction rs arbitrary: q)
  case Nil
  then show ?case by auto
next
  case (Cons r rs)
  have id: "hr_env r = id" using Cons.prems(1) by (auto simp: id_def)
  consider (now) "\<not> hr_hold r \<or> hr_stop r"
    | (skip) "hr_hold r" "\<not> hr_stop r" "\<not> hr_upstream r \<or> \<not> hr_only_unfinished r"
    | (look) "hr_hold r" "\<not> hr_stop r" "hr_upstream r" "hr_only_unfinished r" by blast
  then show ?case
  proof cases
    case now
    then show ?thesis using Cons.prems(2) by (cases "hr_hold r") auto
  next
    case skip
    then have "scavenge_hold_wait rs (Some q) = (q', res)"
      using Cons.prems(2) id by (cases "hr_upstream r") auto
    with Cons.IH [OF _ this] Cons.prems(1,3) show ?thesis by auto
  next
    case look
    obtain q2 a where g: "bq_get q = (q2, a)" by force
    show ?thesis
    proof (cases "bq_items q")
      case Nil
      then have "res = Some False" "q' = Some q" using Cons.prems(2) look id by (auto simp: bq_get_def)
      with Nil look show ?thesis by (auto simp: real_messages_def)
    next
      case (Cons raw ms)
      then have g: "bq_get q = (q\<lparr>bq_items := ms\<rparr>, Inr (Some raw))" by (simp add: bq_get_def)
      note P = put_back_room [OF g Cons.prems(3)]
      let ?q2 = "if raw = ItemM EndV then q\<lparr>bq_items := ms\<rparr> else fst (bq_put raw (q\<lparr>bq_items := ms\<rparr>))"
      have "scavenge_hold_wait rs (Some ?q2) = (q', res)" using Cons.prems(2) look id g by auto
      moreover have "real_messages ?q2 = real_messages q" using P by simp
      moreover have "\<not> (0 < bq_maxsize ?q2 \<and> bq_maxsize ?q2 < length (bq_items ?q2))"
        using P Cons.prems(3) by auto
      ultimately show ?thesis using Cons.IH [of ?q2] Cons.prems(1) by auto
    qed
  qed
qed

theorem hold_wait_conserves_witness:
  "\<exists>q1. fst (scavenge_hold_wait
       (replicate 2 \<lparr>hr_hold = True, hr_stop = False, hr_upstream = True, hr_only_unfinished = True, hr_env = id\<rparr>
        @ [\<lparr>hr_hold = False, hr_stop = False, hr_upstream = True, hr_only_unfinished = True, hr_env = id\<rparr>])
       (Some \<lparr>bq_maxsize = 4, bq_items = [ItemM EndV, ItemM (Obj (1::nat)), ItemM (Obj 2)]\<rparr>)) = Some q1
     \<and> real_messages q1 = {#ItemM (Obj 1), ItemM (Obj 2)#}"
proof -
  define rs :: "nat msg bqueue hold_round list" where
    "rs = replicate 2 \<lparr>hr_hold = True, hr_stop = False, hr_upstream = True, hr_only_unfinished = True, hr_env = id\<rparr>
        @ [\<lparr>hr_hold = False, hr_stop = False, hr_upstream = True, hr_only_unfinished = True, hr_env = id\<rparr>]"
  define q where "q = \<lparr>bq_maxsize = 4, bq_items = [ItemM EndV, ItemM (Obj (1::nat)), ItemM (Obj 2)]\<rparr>"
  obtain q' res where r: "scavenge_hold_wait rs (Some q) = (q', res)" by force
  have "\<forall>r \<in> set rs. hr_env r = id" by (auto simp: rs_def)
  from hold_wait_conserves [OF this r] obtain q1 where "q' = Some q1" "real_messages q1 = real_messages q"
    by (auto simp: q_def)
  moreover have "real_messages q = {#ItemM (Obj 1), ItemM (Obj 2)#}" by (simp add: q_def real_messages_def)
  ultimately show ?thesis using r unfolding rs_def q_def by auto
qed

section \<open>The grace period\<close>

text \<open>
  The empty polls that let a worker leave need not come after upstream is done. A worker that
  was idle for \<open>EMPTY_THRESHOLD - 1\<close> polls leaves at the first empty poll at which it sees the done
  event, even if upstream put its last item between that poll and the look at the event: the item
  stays on the queue, and a stage with no other worker never processes it.
\<close>

theorem grace_counts_early_polls:
  fixes ob :: "nat iter_obs"
  assumes "calm Ret ob" and "\<not> io_upstream ob" and "k = c_threshold sample_cfg - 1"
    and "s = sample_state\<lparr>ws_q := replicate (Suc k) (Inr None) @ [Inr (Some (ItemM (Obj 9)))]\<rparr>"
  shows "\<exists>s'. worker_loop sample_cfg (replicate k ob @ [ob\<lparr>io_upstream := True\<rparr>]) s = Leave s'
     \<and> pending_in s' = [Obj 9] \<and> out s' = []"
  using assms
  by (simp add: sample_run_ok(8) numeral_2_eq_2 sample_state_def iteration_def middle_turn_def take_input_def ic_get_def script_get_def
    ic_new_def maybe_park_def calm_def port_maybe_flush_def oc_maybe_flush_def sample_port_def oc_new_def
    port_put_def sample_cfg_def empty_threshold_def pending_in_def answer_def out_def sent_def Let_def)

theorem grace_counts_early_polls_witness:
  "\<exists>s'. worker_loop sample_cfg (replicate 2 (sample_obs\<lparr>io_upstream := False\<rparr>) @ [sample_obs])
      (sample_state\<lparr>ws_q := replicate 3 (Inr None) @ [Inr (Some (ItemM (Obj 9)))]\<rparr>) = Leave s'
     \<and> pending_in s' = [Obj 9] \<and> out s' = []"
proof -
  have c: "calm Ret (sample_obs\<lparr>io_upstream := False\<rparr>)" using sample_run_ok(1) by (simp add: calm_def)
  have "sample_obs\<lparr>io_upstream := False\<rparr>\<lparr>io_upstream := True\<rparr> = sample_obs" by (simp add: sample_obs_def)
  then show ?thesis
    using grace_counts_early_polls [OF c _ refl refl] by (simp add: sample_run_ok(8) numeral_3_eq_3 numeral_2_eq_2)
qed

end
