(* ===== verification/Pipe_Lifecycle.thy ===== *)
theory Pipe_Lifecycle
  imports Pipe_Channels
begin

text \<open>
  The parent side of a running pipeline: \<open>Pipe.__iter__\<close> (\<^verbatim>\<open>src/pipe/pipe.py\<close>), which reads the
  final queue, restarts the pipeline after connection errors and decides when it is over, and the
  restart operations of \<^verbatim>\<open>src/pipe/lifecycle.py\<close>. A restart builds new queues and new per-stage
  objects: they are told apart by their generation.
\<close>

section \<open>Pipeline objects across restarts\<close>

text \<open>
  The shared flags and per-stage objects of a pipeline. Counters and done events belong to a
  generation; \<open>_stop\<close> resets the flags and clears the events of the generation it stops, \<open>start\<close>
  makes the next generation with all counters at 0 and no event set.
\<close>

record pipe_flags =
  pf_gen :: nat
  pf_started :: bool
  pf_should_stop :: int
  pf_drain :: bool
  pf_counters :: "nat list"
  pf_done :: "bool list"
  pf_live :: bool

definition stop_pipe :: "pipe_flags \<Rightarrow> pipe_flags" where
  "stop_pipe p =
     p\<lparr>pf_should_stop := 0, pf_drain := False, pf_counters := map (\<lambda>_. 0) (pf_counters p),
       pf_done := map (\<lambda>_. False) (pf_done p), pf_live := False\<rparr>"

definition start_pipe :: "nat \<Rightarrow> pipe_flags \<Rightarrow> pipe_flags" where
  "start_pipe n_stages p =
     p\<lparr>pf_gen := Suc (pf_gen p), pf_started := True, pf_counters := replicate n_stages 0,
       pf_done := replicate n_stages False, pf_live := True\<rparr>"

definition restart_pipe :: "nat \<Rightarrow> pipe_flags \<Rightarrow> pipe_flags" where
  "restart_pipe n_stages p =
     (let draining = pf_drain p;
          p1 = start_pipe n_stages (stop_pipe p)
      in if draining then p1\<lparr>pf_drain := True\<rparr> else p1)"

text \<open>A restart keeps a drain going, clears the stop flag and starts from fresh counters and events.\<close>

lemma restart_pipe_fresh:
  "pf_drain (restart_pipe n p) = pf_drain p" "pf_should_stop (restart_pipe n p) = 0"
  "pf_counters (restart_pipe n p) = replicate n 0" "pf_done (restart_pipe n p) = replicate n False"
  "pf_gen (restart_pipe n p) = Suc (pf_gen p)"
  by (simp_all add: restart_pipe_def start_pipe_def stop_pipe_def Let_def)

section \<open>Restarting one worker\<close>

record proc_table =
  pt_info :: "(nat \<times> string \<times> string) list"
  pt_procs :: "nat list"
  pt_configs :: "string \<rightharpoonup> string"

text \<open>Replacing the first occurrence, as the loop over \<open>self.processes\<close> does.\<close>

fun replace_first :: "'a \<Rightarrow> 'a \<Rightarrow> 'a list \<Rightarrow> 'a list" where
  "replace_first x y [] = []"
| "replace_first x y (z # zs) = (if z = x then y # zs else z # replace_first x y zs)"

definition restart_worker :: "nat \<Rightarrow> string \<Rightarrow> nat \<Rightarrow> proc_table \<Rightarrow> exn + proc_table" where
  "restart_worker idx wid pid pt =
     (case pt_configs pt wid of
        None \<Rightarrow> Inl ValueE
      | Some stage \<Rightarrow>
          if length (pt_info pt) \<le> idx then Inl IndexE
          else
            let old = fst (pt_info pt ! idx) in
            Inr (pt\<lparr>pt_info := (pt_info pt)[idx := (pid, wid, stage)], pt_procs := replace_first old pid (pt_procs pt)\<rparr>))"

definition table_ok :: "proc_table \<Rightarrow> bool" where
  "table_ok pt \<longleftrightarrow> pt_procs pt = map fst (pt_info pt) \<and> distinct (pt_procs pt)
     \<and> (\<forall>(p, w, s) \<in> set (pt_info pt). pt_configs pt w = Some s)"

lemma replace_first_update:
  "distinct xs \<Longrightarrow> i < length xs \<Longrightarrow> replace_first (xs ! i) y xs = xs[i := y]"
proof (induction xs arbitrary: i)
  case (Cons a xs)
  then show ?case by (cases i) auto
qed simp

text \<open>
  Restarting a crashed worker replaces its process and nothing else: the table stays consistent
  (the process list mirrors the worker list, every worker has its configuration), no worker
  identifier or position changes, and only the crashed process is replaced.
\<close>

theorem restart_worker_consistent:
  assumes "table_ok pt" and "idx < length (pt_info pt)" and "fst (snd (pt_info pt ! idx)) = wid" and "pid \<notin> set (pt_procs pt)"
  shows "\<exists>pt'. restart_worker idx wid pid pt = Inr pt' \<and> table_ok pt'
    \<and> map snd (pt_info pt') = map snd (pt_info pt) \<and> pt_procs pt' = (pt_procs pt)[idx := pid]"
proof -
  obtain old s where i: "pt_info pt ! idx = (old, wid, s)" using assms(3) by (cases "pt_info pt ! idx") auto
  then have "(old, wid, s) \<in> set (pt_info pt)" using assms(2) by (metis nth_mem)
  then have c: "pt_configs pt wid = Some s" using assms(1) by (auto simp: table_ok_def)
  let ?pt = "pt\<lparr>pt_info := (pt_info pt)[idx := (pid, wid, s)], pt_procs := (pt_procs pt)[idx := pid]\<rparr>"
  have "old = pt_procs pt ! idx" using i assms(1,2) by (simp add: table_ok_def)
  moreover have d: "distinct (pt_procs pt)" and "pt_procs pt = map fst (pt_info pt)"
    using assms(1) unfolding table_ok_def by blast+
  moreover have "idx < length (pt_procs pt)" using calculation assms(2) by simp
  ultimately have "replace_first old pid (pt_procs pt) = (pt_procs pt)[idx := pid]"
    using replace_first_update by metis
  then have r: "restart_worker idx wid pid pt = Inr ?pt"
    using c i assms(2) by (simp add: restart_worker_def Let_def)
  have "map snd ((pt_info pt)[idx := (pid, wid, s)]) = map snd (pt_info pt)"
    using i assms(2) by (simp add: map_update list_update_same_conv)
  moreover have "table_ok ?pt"
    using assms(1,4) c by (auto simp: table_ok_def map_update distinct_list_update dest!: set_update_subset_insert [THEN subsetD])
  ultimately show ?thesis using r by auto
qed

theorem restart_worker_consistent_witness:
  "\<exists>pt'. restart_worker 1 ''w1'' 30 \<lparr>pt_info = [(10, ''w0'', ''s''), (20, ''w1'', ''s'')], pt_procs = [10, 20],
       pt_configs = [''w0'' \<mapsto> ''s'', ''w1'' \<mapsto> ''s'']\<rparr> = Inr pt' \<and> pt_procs pt' = [10, 30]"
  using restart_worker_consistent [of "\<lparr>pt_info = [(10, ''w0'', ''s''), (20, ''w1'', ''s'')], pt_procs = [10, 20],
       pt_configs = [''w0'' \<mapsto> ''s'', ''w1'' \<mapsto> ''s'']\<rparr>" 1 "''w1''" 30]
  by (auto simp: table_ok_def)

section \<open>Iterating over the results\<close>

text \<open>
  One round of the loop sees the stop flag, what the final queue answers, whether the done event of
  the last stage of the pipeline's current generation is set, and whether Ctrl+C interrupts it. The
  loop looks at the event object it fetched before its first round: that is the event of the
  generation \<open>it_watch\<close>, which is set only while no restart has replaced it (\<open>_stop\<close> cleared it, and
  no worker of a later generation holds it).
\<close>

record 'a round_obs =
  ro_stop :: int
  ro_get :: "exn + 'a msg option"
  ro_final_done :: bool
  ro_interrupt :: bool

record 'a iter_state =
  it_gen :: nat
  it_watch :: nat
  it_ch :: "'a in_channel"
  it_empty :: nat
  it_yielded :: "'a val list"

datatype 'a iter_turn = Continue "'a iter_state" | Complete "'a iter_state" | Forced "'a iter_state" | Escapes exn "'a iter_state"

definition iter_start :: "nat \<Rightarrow> 'a iter_state" where
  "iter_start gen = \<lparr>it_gen = gen, it_watch = gen, it_ch = ic_new, it_empty = 0, it_yielded = []\<rparr>"

definition iter_restart :: "'a iter_state \<Rightarrow> 'a iter_state" where
  "iter_restart st = st\<lparr>it_gen := Suc (it_gen st), it_ch := ic_new, it_empty := 0\<rparr>"

definition iter_round :: "'a round_obs \<Rightarrow> 'a iter_state \<Rightarrow> 'a iter_turn" where
  "iter_round ob st =
     (if ro_stop ob = 2 then Continue (iter_restart st)
      else if ro_interrupt ob then Forced st
      else case ic_get (\<lambda>q. (q, ro_get ob)) (it_ch st) () of
        (ch, _, Inr item) \<Rightarrow>
          (let st1 = st\<lparr>it_ch := ch, it_empty := 0\<rparr> in
           if is_end item then Continue st1 else Continue (st1\<lparr>it_yielded := it_yielded st1 @ [item]\<rparr>))
      | (ch, _, Inl e) \<Rightarrow>
          if e = EmptyE then
            (let st1 = st\<lparr>it_ch := ch, it_empty := Suc (it_empty st)\<rparr> in
             if it_watch st = it_gen st \<and> ro_final_done ob \<and> 5 \<le> it_empty st1 then Complete st1 else Continue st1)
          else if is_connection_error e then Continue (iter_restart (st\<lparr>it_ch := ch\<rparr>))
          else Escapes e (st\<lparr>it_ch := ch\<rparr>))"

fun iter_run :: "'a round_obs list \<Rightarrow> 'a iter_state \<Rightarrow> 'a iter_turn" where
  "iter_run [] st = Continue st"
| "iter_run (ob # obs) st = (case iter_round ob st of Continue st1 \<Rightarrow> iter_run obs st1 | t \<Rightarrow> t)"

definition regular_round :: "'a round_obs \<Rightarrow> bool" where
  "regular_round ob \<longleftrightarrow> ro_stop ob = 0 \<and> \<not> ro_interrupt ob
     \<and> (ro_get ob = Inr None \<or> (\<exists>m. ro_get ob = Inr (Some m) \<and> payloads m \<noteq> []))"

text \<open>What the queue hands over in a round; nothing is asked for while the buffer is not empty.\<close>

fun fetched :: "'a round_obs list \<Rightarrow> nat \<Rightarrow> 'a val list" where
  "fetched [] n = []"
| "fetched (ob # obs) (Suc n) = fetched obs n"
| "fetched (ob # obs) 0 =
     (case ro_get ob of
        Inr (Some m) \<Rightarrow> payloads m @ fetched obs (length (payloads m) - 1)
      | _ \<Rightarrow> fetched obs 0)"

lemma iter_round_regular:
  assumes "regular_round ob" and "ic_deque (it_ch st)"
  shows "\<exists>st'. (iter_round ob st = Continue st' \<or> iter_round ob st = Complete st' \<and> ro_final_done ob \<and> 5 \<le> it_empty st' \<and> ic_buf (it_ch st) = [] \<and> ic_buf (it_ch st') = [])
    \<and> ic_deque (it_ch st') \<and> it_gen st' = it_gen st \<and> it_watch st' = it_watch st
    \<and> (\<exists>xs. (case ic_buf (it_ch st) of
             b # bs \<Rightarrow> xs = [b] \<and> ic_buf (it_ch st') = bs
           | [] \<Rightarrow> (case ro_get ob of
               Inr (Some m) \<Rightarrow> xs @ ic_buf (it_ch st') = payloads m \<and> length xs = 1
             | _ \<Rightarrow> xs = [] \<and> ic_buf (it_ch st') = []))
         \<and> it_yielded st' = it_yielded st @ filter (\<lambda>x. \<not> is_end x) xs)"
proof (cases "ic_buf (it_ch st)")
  case (Cons b bs)
  with assms show ?thesis
    by (auto simp: iter_round_def regular_round_def ic_get_def popleft_def Let_def)
next
  case Nil
  show ?thesis
  proof (cases "ro_get ob = Inr None")
    case True
    with Nil assms show ?thesis
      by (auto simp: iter_round_def regular_round_def ic_get_def Let_def)
  next
    case False
    with assms obtain m where m: "ro_get ob = Inr (Some m)" "payloads m \<noteq> []" by (auto simp: regular_round_def)
    show ?thesis
    proof (cases m)
      case (ItemM x)
      with m Nil assms show ?thesis by (auto simp: iter_round_def regular_round_def ic_get_def Let_def)
    next
      case (ChunkM xs)
      with m obtain y ys where "xs = y # ys" by (cases xs) auto
      with ChunkM m Nil assms show ?thesis
        by (auto simp: iter_round_def regular_round_def ic_get_def popleft_def Let_def intro: exI [of _ "[y]"])
    qed
  qed
qed

lemma iter_run_stream:
  assumes "\<forall>ob \<in> set obs. regular_round ob" and "ic_deque (it_ch st)" and "iter_run obs st = Continue st'"
  shows "it_yielded st' @ filter (\<lambda>x. \<not> is_end x) (ic_buf (it_ch st'))
    = it_yielded st @ filter (\<lambda>x. \<not> is_end x) (ic_buf (it_ch st) @ fetched obs (length (ic_buf (it_ch st))))"
  using assms
proof (induction obs arbitrary: st)
  case (Cons ob obs)
  have ob: "regular_round ob" using Cons.prems(1) by simp
  from iter_round_regular [OF ob Cons.prems(2)] Cons.prems(3) obtain st1 xs where
    R: "iter_round ob st = Continue st1" "ic_deque (it_ch st1)" "it_yielded st1 = it_yielded st @ filter (\<lambda>x. \<not> is_end x) xs"
      "case ic_buf (it_ch st) of b # bs \<Rightarrow> xs = [b] \<and> ic_buf (it_ch st1) = bs
         | [] \<Rightarrow> (case ro_get ob of Inr (Some m) \<Rightarrow> xs @ ic_buf (it_ch st1) = payloads m \<and> length xs = 1
             | _ \<Rightarrow> xs = [] \<and> ic_buf (it_ch st1) = [])"
    by auto
  have IH: "it_yielded st' @ filter (\<lambda>x. \<not> is_end x) (ic_buf (it_ch st'))
    = it_yielded st1 @ filter (\<lambda>x. \<not> is_end x) (ic_buf (it_ch st1) @ fetched obs (length (ic_buf (it_ch st1))))"
    using Cons R by auto
  have f: "xs @ ic_buf (it_ch st1) @ fetched obs (length (ic_buf (it_ch st1)))
      = ic_buf (it_ch st) @ fetched (ob # obs) (length (ic_buf (it_ch st)))"
  proof (cases "ic_buf (it_ch st)")
    case Nil
    show ?thesis
    proof (cases "ro_get ob = Inr None")
      case False
      with ob obtain m where m: "ro_get ob = Inr (Some m)" by (auto simp: regular_round_def)
      with R(4) Nil have "xs @ ic_buf (it_ch st1) = payloads m" "length xs = 1" by auto
      then have "length (ic_buf (it_ch st1)) = length (payloads m) - 1" by (metis length_append diff_add_inverse)
      with m Nil \<open>xs @ ic_buf (it_ch st1) = payloads m\<close> show ?thesis by (simp add: append_assoc [symmetric] del: append_assoc)
    qed (use R(4) Nil in simp)
  qed (use R(4) in simp)
  show ?case unfolding IH R(3) f [symmetric] by simp
qed simp

lemma iter_run_complete:
  assumes "iter_run obs st = Complete st'"
  shows "\<exists>ob \<in> set obs. ro_final_done ob \<and> 5 \<le> it_empty st' \<and> it_watch st' = it_gen st'"
  using assms
proof (induction obs arbitrary: st)
  case (Cons ob obs)
  show ?case
  proof (cases "iter_round ob st")
    case (Complete st1)
    with Cons.prems show ?thesis
      by (auto simp: iter_round_def Let_def split: if_splits prod.splits sum.splits)
  next
    case (Continue st1)
    with Cons show ?thesis by auto
  qed (use Cons.prems in auto)
qed simp

lemma five_polls_complete:
  fixes st :: "'a iter_state"
  assumes "it_watch st = it_gen st" and "ic_buf (it_ch st) = []" and "regular_round ob" and "ro_get ob = Inr None" and "ro_final_done ob"
  shows "\<exists>st'. iter_run (replicate 5 ob) st = Complete st' \<and> it_yielded st' = it_yielded st"
proof -
  have r: "iter_round ob t = (let t1 = t\<lparr>it_empty := Suc (it_empty t)\<rparr> in if 5 \<le> it_empty t1 then Complete t1 else Continue t1)"
    if "it_watch t = it_gen t" "ic_buf (it_ch t) = []" for t :: "'a iter_state"
    using assms(3-5) that by (simp add: iter_round_def regular_round_def ic_get_def Let_def)
  show ?thesis using assms by (simp add: eval_nat_numeral r Let_def)
qed

text \<open>
  Iterating over a pipeline yields the final queue's payloads, each once and in order, whatever
  the chunking (\<open>End\<close> sentinels skipped): after any regular run, what was yielded and what is still in
  the reader's buffer is what the queue handed over; the iteration completes only after the last stage
  is done and five polls in a row were empty, and five empty polls after it is done do complete it.
\<close>

theorem pipe_iter_stream:
  fixes obs :: "'a round_obs list"
  assumes "\<forall>ob \<in> set obs. regular_round ob"
  shows "(\<forall>st. iter_run obs (iter_start g) = Continue st \<longrightarrow>
       it_yielded st @ filter (\<lambda>x. \<not> is_end x) (ic_buf (it_ch st)) = filter (\<lambda>x. \<not> is_end x) (fetched obs 0))
    \<and> (\<forall>st. iter_run obs (iter_start g) = Complete st \<longrightarrow> (\<exists>ob \<in> set obs. ro_final_done ob) \<and> 5 \<le> it_empty st)
    \<and> (\<forall>st ob. it_watch st = it_gen st \<and> ic_buf (it_ch st) = [] \<and> regular_round ob \<and> ro_get ob = Inr None \<and> ro_final_done ob \<longrightarrow>
         (\<exists>st'. iter_run (replicate 5 ob) (st :: 'a iter_state) = Complete st' \<and> it_yielded st' = it_yielded st))"
proof (intro conjI allI impI)
  fix st assume "iter_run obs (iter_start g) = Continue st"
  from iter_run_stream [OF assms _ this]
  show "it_yielded st @ filter (\<lambda>x. \<not> is_end x) (ic_buf (it_ch st)) = filter (\<lambda>x. \<not> is_end x) (fetched obs 0)"
    by (simp add: iter_start_def ic_new_def)
next
  fix st assume "iter_run obs (iter_start g) = Complete st"
  from iter_run_complete [OF this] show "\<exists>ob \<in> set obs. ro_final_done ob" and "5 \<le> it_empty st" by auto
next
  fix st :: "'a iter_state" and ob :: "'a round_obs"
  assume "it_watch st = it_gen st \<and> ic_buf (it_ch st) = [] \<and> regular_round ob \<and> ro_get ob = Inr None \<and> ro_final_done ob"
  then show "\<exists>st'. iter_run (replicate 5 ob) st = Complete st' \<and> it_yielded st' = it_yielded st"
    by (intro five_polls_complete) simp_all
qed

definition round_of :: "exn + 'a msg option \<Rightarrow> 'a round_obs" where
  "round_of r = \<lparr>ro_stop = 0, ro_get = r, ro_final_done = True, ro_interrupt = False\<rparr>"

theorem pipe_iter_stream_witness:
  "\<exists>st. iter_run [round_of (Inr (Some (ChunkM [Obj (1::nat), Obj 2]))), round_of (Inr None), round_of (Inr (Some (ItemM EndV)))] (iter_start 0)
      = Continue st \<and> it_yielded st = [Obj 1, Obj 2]"
proof -
  let ?obs = "[round_of (Inr (Some (ChunkM [Obj (1::nat), Obj 2]))), round_of (Inr None), round_of (Inr (Some (ItemM EndV)))]"
  have reg: "\<forall>ob \<in> set ?obs. regular_round ob" by (simp add: regular_round_def round_of_def)
  obtain st where st: "iter_run ?obs (iter_start 0) = Continue st" "ic_buf (it_ch st) = []"
    by (simp add: iter_round_def round_of_def iter_start_def ic_new_def ic_get_def popleft_def Let_def)
  from pipe_iter_stream [OF reg, of 0] st show ?thesis by (auto simp: round_of_def)
qed

section \<open>Iterating across a restart\<close>

lemma iter_round_generation:
  "iter_round ob st = Continue st' \<Longrightarrow> it_watch st' = it_watch st \<and> it_gen st \<le> it_gen st'"
  by (auto simp: iter_round_def iter_restart_def Let_def split: if_splits prod.splits sum.splits)

lemma iter_run_generation:
  "iter_run obs st = Complete st' \<Longrightarrow> it_watch st < it_gen st \<Longrightarrow> False"
proof (induction obs arbitrary: st)
  case (Cons ob obs)
  show ?case
  proof (cases "iter_round ob st")
    case (Continue st1)
    with Cons.prems iter_round_generation [OF Continue] have "iter_run obs st1 = Complete st'" "it_watch st1 < it_gen st1"
      by auto
    then show ?thesis by (rule Cons.IH)
  next
    case (Complete st1)
    with Cons.prems(2) show ?thesis
      by (auto simp: iter_round_def Let_def split: if_splits prod.splits sum.splits)
  qed (use Cons.prems in auto)
qed simp

text \<open>
  C38: after a restart the iteration never completes. The loop keeps looking at the done event it
  fetched before the restart, which the stopped generation's workers no longer set; so once the
  pipeline was restarted (the stop flag is 2, or the queue raised a connection error), no sequence of
  rounds, however often the new generation's last stage is done and the queue empty, completes it.
\<close>

theorem restarted_iteration_never_completes:
  assumes "it_watch st = it_gen st"
    and "ro_stop ob = 2 \<or> ro_stop ob = 0 \<and> \<not> ro_interrupt ob \<and> ic_buf (it_ch st) = [] \<and> ro_get ob = Inl ConnectionE"
  shows "\<nexists>st'. iter_run (ob # obs) st = Complete st'"
proof -
  from assms have "\<exists>st1. iter_round ob st = Continue st1 \<and> it_watch st1 < it_gen st1"
    by (auto simp: iter_round_def iter_restart_def ic_get_def is_connection_error_def)
  then show ?thesis using iter_run_generation by (metis iter_run.simps(2) iter_turn.simps(17))
qed

theorem restarted_iteration_never_completes_witness:
  "\<nexists>st'. iter_run (\<lparr>ro_stop = 2, ro_get = Inr None, ro_final_done = False, ro_interrupt = False\<rparr>
      # replicate 1000 (round_of (Inr None))) (iter_start 0 :: nat iter_state) = Complete st'"
  by (rule restarted_iteration_never_completes) (simp_all add: iter_start_def)

end
