(* ===== verification/Pipe_Utils.thy ===== *)
theory Pipe_Utils
  imports Pipe_Prelude "HOL-Library.Sublist"
begin

text \<open>
  The ready-made stages of \<^verbatim>\<open>src/pipe/utils.py\<close>: \<open>Batcher\<close>, \<open>BufferAndShuffle\<close> and \<open>RetrieveSQL\<close>.
  The random shuffle is any permutation, what the database returns is an argument.
\<close>

section \<open>Batcher\<close>

record 'a batcher =
  b_size :: int
  b_buffer :: "'a val list"

definition batcher_new :: "int \<Rightarrow> 'a batcher" where
  "batcher_new sz = \<lparr>b_size = sz, b_buffer = []\<rparr>"

text \<open>\<open>_emit\<close>: the buffer, through the collate function if there is one.\<close>

definition batcher_emit :: "('a val list \<Rightarrow> 'a val) option \<Rightarrow> 'a batcher \<Rightarrow> 'a batcher \<times> 'a val" where
  "batcher_emit collate b =
     (b\<lparr>b_buffer := []\<rparr>, case collate of Some c \<Rightarrow> c (b_buffer b) | None \<Rightarrow> ListV (b_buffer b))"

definition batcher_call :: "('a val list \<Rightarrow> 'a val) option \<Rightarrow> 'a val \<Rightarrow> 'a batcher \<Rightarrow> 'a batcher \<times> 'a val" where
  "batcher_call collate item b =
     (let b1 = b\<lparr>b_buffer := b_buffer b @ [item]\<rparr> in
      if b_size b1 \<le> int (length (b_buffer b1)) then batcher_emit collate b1 else (b1, NoneV))"

definition batcher_flush :: "('a val list \<Rightarrow> 'a val) option \<Rightarrow> 'a batcher \<Rightarrow> 'a batcher \<times> 'a val list" where
  "batcher_flush collate b =
     (if b_buffer b = [] then (b, [])
      else (b\<lparr>b_buffer := []\<rparr>, case collate of Some c \<Rightarrow> [c (b_buffer b)] | None \<Rightarrow> b_buffer b))"

text \<open>A run of calls: the values returned that are not \<open>None\<close>.\<close>

fun batcher_run :: "('a val list \<Rightarrow> 'a val) option \<Rightarrow> 'a val list \<Rightarrow> 'a batcher \<Rightarrow> 'a batcher \<times> 'a val list" where
  "batcher_run collate [] b = (b, [])"
| "batcher_run collate (x # xs) b =
     (case batcher_call collate x b of
        (b1, r) \<Rightarrow> (case batcher_run collate xs b1 of (b2, rs) \<Rightarrow> (b2, if r = NoneV then rs else r # rs)))"

lemma batcher_run_batches:
  assumes "int (length (b_buffer b)) < max 1 (b_size b)" and "batcher_run None xs b = (b', rs)"
  shows "\<exists>bs. rs = map ListV bs \<and> concat bs @ b_buffer b' = b_buffer b @ xs
     \<and> (\<forall>c \<in> set bs. int (length c) = max 1 (b_size b)) \<and> int (length (b_buffer b')) < max 1 (b_size b) \<and> b_size b' = b_size b"
  using assms
proof (induction xs arbitrary: b rs)
  case Nil
  then show ?case by simp
next
  case (Cons x xs)
  obtain b1 r where c: "batcher_call None x b = (b1, r)" by force
  obtain rs1 where r: "batcher_run None xs b1 = (b', rs1)" and rs: "rs = (if r = NoneV then rs1 else r # rs1)"
    using Cons.prems(2) c by (auto split: prod.splits)
  show ?case
  proof (cases "b_size b \<le> int (Suc (length (b_buffer b)))")
    case True
    then have e: "b1 = b\<lparr>b_buffer := []\<rparr>" "r = ListV (b_buffer b @ [x])"
      using c by (auto simp: batcher_call_def batcher_emit_def Let_def)
    moreover have "(0::int) < max 1 (b_size b)" by simp
    ultimately obtain bs where B: "rs1 = map ListV bs" "concat bs @ b_buffer b' = xs"
      "\<forall>c \<in> set bs. int (length c) = max 1 (b_size b)" "int (length (b_buffer b')) < max 1 (b_size b)" "b_size b' = b_size b"
      using Cons.IH [OF _ r] by auto
    with e rs True Cons.prems(1) show ?thesis by (intro exI [of _ "(b_buffer b @ [x]) # bs"]) auto
  next
    case False
    then have e: "b1 = b\<lparr>b_buffer := b_buffer b @ [x]\<rparr>" "r = NoneV" using c by (auto simp: batcher_call_def Let_def)
    have "int (length (b_buffer b1)) < max 1 (b_size b1)" using e False by simp
    from Cons.IH [OF this r] e rs show ?thesis by simp
  qed
qed

text \<open>
  A batcher without a collate function loses nothing and keeps the order: its returned batches
  are lists of exactly the batch size, and together with what the final flush yields they are the items
  it was given, in order. (The rest of an incomplete batch comes out of the flush as single items.)
\<close>

theorem batcher_stream:
  assumes "batcher_run None xs (batcher_new sz) = (b', rs)" and "batcher_flush None b' = (b'', tail)"
  shows "\<exists>bs. rs = map ListV bs \<and> concat bs @ tail = xs \<and> (\<forall>c \<in> set bs. int (length c) = max 1 sz)
    \<and> int (length tail) < max 1 sz \<and> b_buffer b'' = []"
proof -
  have "(0::int) < max 1 sz" by simp
  with batcher_run_batches [OF _ assms(1)] obtain bs where
    "rs = map ListV bs" "concat bs @ b_buffer b' = xs" "\<forall>c \<in> set bs. int (length c) = max 1 sz"
    "int (length (b_buffer b')) < max 1 sz" by (auto simp: batcher_new_def)
  then show ?thesis using assms(2) by (auto simp: batcher_flush_def split: if_splits)
qed

theorem batcher_stream_witness:
  "\<exists>bs b'. batcher_run None [Obj (1::nat), Obj 2, Obj 3] (batcher_new 2) = (b', map ListV bs)
     \<and> concat bs @ snd (batcher_flush None b') = [Obj 1, Obj 2, Obj 3]"
proof -
  obtain b' rs where r: "batcher_run None [Obj (1::nat), Obj 2, Obj 3] (batcher_new 2) = (b', rs)" by force
  obtain b'' tail where f: "batcher_flush None b' = (b'', tail)" by force
  from batcher_stream [OF r f] r f show ?thesis by auto
qed

section \<open>Shuffling buffer\<close>

record 'a shuffler =
  sb_size :: int
  sb_batch :: int
  sb_first :: bool
  sb_buffer :: "'a val list"

definition shuffler_new :: "int \<Rightarrow> int \<Rightarrow> 'a shuffler" where
  "shuffler_new sz batch_size = \<lparr>sb_size = sz, sb_batch = batch_size * 4, sb_first = True, sb_buffer = []\<rparr>"

definition shuffler_call :: "('a val list \<Rightarrow> 'a val list) \<Rightarrow> 'a val \<Rightarrow> 'a shuffler \<Rightarrow> 'a shuffler \<times> 'a val" where
  "shuffler_call shuffle item b =
     (let b1 = b\<lparr>sb_buffer := sb_buffer b @ [item]\<rparr>;
          sz = (if sb_first b1 then sb_batch b1 else sb_size b1)
      in if sz < int (length (sb_buffer b1))
         then (b1\<lparr>sb_first := False, sb_buffer := []\<rparr>, ListV (shuffle (sb_buffer b1)))
         else (b1, NoneV))"

definition shuffler_flush :: "('a val list \<Rightarrow> 'a val list) \<Rightarrow> 'a shuffler \<Rightarrow> 'a shuffler \<times> 'a val list" where
  "shuffler_flush shuffle b =
     (if sb_buffer b = [] then (b, []) else (b\<lparr>sb_buffer := []\<rparr>, shuffle (sb_buffer b)))"

fun listed :: "'a val \<Rightarrow> 'a val list" where
  "listed (ListV xs) = xs"
| "listed _ = []"

fun shuffler_run :: "('a val list \<Rightarrow> 'a val list) \<Rightarrow> 'a val list \<Rightarrow> 'a shuffler \<Rightarrow> 'a shuffler \<times> 'a val list" where
  "shuffler_run shuffle [] b = (b, [])"
| "shuffler_run shuffle (x # xs) b =
     (case shuffler_call shuffle x b of
        (b1, r) \<Rightarrow> (case shuffler_run shuffle xs b1 of (b2, rs) \<Rightarrow> (b2, listed r @ rs)))"

lemma shuffler_run_mset:
  assumes "\<forall>ys. mset (shuffle ys) = mset ys" and "shuffler_run shuffle xs b = (b', rs)"
  shows "mset rs + mset (sb_buffer b') = mset (sb_buffer b) + mset xs"
  using assms(2)
proof (induction xs arbitrary: b rs)
  case (Cons x xs)
  obtain b1 r where c: "shuffler_call shuffle x b = (b1, r)" by force
  obtain rs1 where r: "shuffler_run shuffle xs b1 = (b', rs1)" and rs: "rs = listed r @ rs1"
    using Cons.prems c by (auto split: prod.splits)
  have "mset (listed r) + mset (sb_buffer b1) = mset (sb_buffer b) + {#x#}"
    using c assms(1) by (auto simp: shuffler_call_def Let_def split: if_splits)
  then have "mset rs + mset (sb_buffer b') = mset (sb_buffer b) + {#x#} + mset xs"
    using Cons.IH [OF r] rs by (metis add.assoc mset_append)
  then show ?case by simp
qed simp

text \<open>
  The shuffling buffer is a permutation: whatever the shuffle does, the items it returns and
  finally flushes are, as a multiset, the items it was given.
\<close>

theorem shuffler_permutes:
  assumes "\<forall>ys. mset (shuffle ys) = mset ys" and "shuffler_run shuffle xs (shuffler_new sz batch_size) = (b', rs)"
    and "shuffler_flush shuffle b' = (b'', tail)"
  shows "mset (rs @ tail) = mset xs \<and> sb_buffer b'' = []"
  using shuffler_run_mset [OF assms(1,2)] assms(1,3)
  by (auto simp: shuffler_new_def shuffler_flush_def split: if_splits)

theorem shuffler_permutes_witness:
  "mset (snd (shuffler_run rev [Obj (1::nat), Obj 2] (shuffler_new 1 0)) @
         snd (shuffler_flush rev (fst (shuffler_run rev [Obj (1::nat), Obj 2] (shuffler_new 1 0))))) = mset [Obj 1, Obj 2]"
  using shuffler_permutes [of rev "[Obj (1::nat), Obj 2]" 1 0] by (metis mset_rev prod.collapse)

section \<open>Reading a table page by page\<close>

text \<open>
  \<open>RetrieveSQL.__call__\<close>: \<open>page\<close> is what the query returns (with \<open>skip_count\<close> the whole query,
  otherwise for the current limit and offset), \<open>recount\<close> what counting the rows again returns.
  \<open>None\<close> is \<open>End\<close>.
\<close>

record sql_cursor =
  sql_skip_count :: bool
  sql_offset :: nat
  sql_count :: nat

definition retrieve_call :: "'r list \<Rightarrow> nat \<Rightarrow> sql_cursor \<Rightarrow> sql_cursor \<times> 'r list option" where
  "retrieve_call page recount c =
     (if sql_skip_count c then (c, if page = [] then None else Some page)
      else let c1 = c\<lparr>sql_offset := sql_offset c + length page\<rparr> in
      if page = [] \<or> sql_count c1 \<le> sql_offset c1 then
        if sql_count c1 < recount then (c1\<lparr>sql_count := recount, sql_offset := 0\<rparr>, Some page)
        else (c1, None)
      else (c1, Some page))"

text \<open>Reading a table that does not change, in its order, until \<open>End\<close>; fuel bounds the calls.\<close>

fun retrieve_all :: "nat \<Rightarrow> nat \<Rightarrow> 'r list \<Rightarrow> sql_cursor \<Rightarrow> 'r list option" where
  "retrieve_all 0 chunk rows c = None"
| "retrieve_all (Suc k) chunk rows c =
     (case retrieve_call (take chunk (drop (sql_offset c) rows)) (length rows) c of
        (c1, None) \<Rightarrow> Some []
      | (c1, Some page) \<Rightarrow> map_option ((@) page) (retrieve_all k chunk rows c1))"

lemma retrieve_all_from:
  assumes "0 < chunk" and "off < length rows" and "length rows - off \<le> k"
  shows "\<exists>got. retrieve_all k chunk rows \<lparr>sql_skip_count = False, sql_offset = off, sql_count = length rows\<rparr> = Some got
    \<and> got = take (length got) (drop off rows) \<and> length got + off < length rows
    \<and> length rows \<le> length got + off + chunk"
  using assms(2,3)
proof (induction k arbitrary: off)
  case (Suc k)
  let ?page = "take chunk (drop off rows)"
  show ?case
  proof (cases "off + chunk < length rows")
    case False
    then have "off + length ?page = length rows" using Suc.prems by simp
    then show ?thesis using Suc.prems False by (auto simp: retrieve_call_def Let_def)
  next
    case True
    then have len: "length ?page = chunk" by simp
    have step: "retrieve_call ?page (length rows) \<lparr>sql_skip_count = False, sql_offset = off, sql_count = length rows\<rparr>
        = (\<lparr>sql_skip_count = False, sql_offset = off + chunk, sql_count = length rows\<rparr>, Some ?page)"
      using True len assms(1) by (auto simp: retrieve_call_def Let_def)
    have "length rows - (off + chunk) \<le> k" using Suc.prems(2) assms(1) by linarith
    with Suc.IH [of "off + chunk"] True obtain got where
      G: "retrieve_all k chunk rows \<lparr>sql_skip_count = False, sql_offset = off + chunk, sql_count = length rows\<rparr> = Some got"
         "got = take (length got) (drop (off + chunk) rows)" "length got + (off + chunk) < length rows"
         "length rows \<le> length got + (off + chunk) + chunk" by auto
    have "?page @ got = take (length ?page + length got) (drop off rows)"
      using G(2) len by (simp add: take_add add.commute)
    with G step len show ?thesis by (auto simp: add.assoc)
  qed
qed simp

text \<open>
  Reading a table loses its last page. For a table that does not change and is read in its order,
  the calls end after at most as many calls as rows, and what they returned is the table without its
  last page: at least one row and at most a page is missing; a table that fits into one page yields
  nothing.
\<close>

theorem retrieve_loses_last_page:
  assumes "0 < chunk" and "rows \<noteq> []"
  shows "\<exists>got. retrieve_all (length rows) chunk rows \<lparr>sql_skip_count = False, sql_offset = 0, sql_count = length rows\<rparr> = Some got
    \<and> got = take (length got) rows \<and> length got < length rows \<and> length rows \<le> length got + chunk"
  using retrieve_all_from [OF assms(1), of 0 rows "length rows"] assms(2) by auto

theorem retrieve_loses_last_page_witness:
  "\<exists>got. retrieve_all (length [1, 2, 3, 4, 5 :: nat]) 2 [1, 2, 3, 4, 5 :: nat] \<lparr>sql_skip_count = False, sql_offset = 0, sql_count = length [1, 2, 3, 4, 5 :: nat]\<rparr> = Some got
     \<and> got = take (length got) [1, 2, 3, 4, 5 :: nat] \<and> length got < length [1, 2, 3, 4, 5 :: nat]"
proof -
  have "0 < (2 :: nat)" "[1, 2, 3, 4, 5 :: nat] \<noteq> []" by simp_all
  from retrieve_loses_last_page [OF this] show ?thesis by blast
qed


section \<open>The database connection\<close>

text \<open>\<open>get_total_count\<close>: the count in the first row of the answer.\<close>

definition get_total_count :: "nat list \<Rightarrow> nat" where
  "get_total_count answer = (case answer of [] \<Rightarrow> 0 | n # _ \<Rightarrow> n)"

text \<open>
  \<open>_get_connection\<close>: the address the database driver is given. \<open>s.replace(old, '')\<close> removes the occurrences
  from left to right.
\<close>

function remove_all :: "string \<Rightarrow> string \<Rightarrow> string" where
  "remove_all p [] = []"
| "remove_all p (c # cs) =
     (if p \<noteq> [] \<and> prefix p (c # cs) then remove_all p (drop (length p) (c # cs)) else c # remove_all p cs)"
  by pat_completeness auto
termination
  by (relation "measure (\<lambda>(p, s). length s)") auto

definition connection_string :: "string \<Rightarrow> string" where
  "connection_string s = remove_all ''+asyncpg'' (if sublist ''sslmode'' s then s else s @ ''?sslmode=require'')"

text \<open>
  An address that already has parameters gets a second question mark, so that its last parameter takes
  the encryption setting into its value.
\<close>

lemma connection_string_second_query:
  "connection_string ''postgresql+asyncpg://h/db?application_name=x'' = ''postgresql://h/db?application_name=x?sslmode=require''"
  "connection_string ''postgresql+asyncpg://h/db'' = ''postgresql://h/db?sslmode=require''"
  by code_simp+

text \<open>
  \<open>SQLConnection\<close>: a connection that may be gone or closed, and a cursor of the connection it was made
  from. \<open>connect\<close> and \<open>run\<close> say what the database does.
\<close>

datatype connection = NoConnection | OpenConn nat | ClosedConn nat

record sql_state =
  sq_conn :: connection
  sq_cursor :: "nat option"
  sq_query :: "string option"

definition ensure_connection :: "exn + nat \<Rightarrow> sql_state \<Rightarrow> sql_state \<times> exn option" where
  "ensure_connection connect s =
     (case sq_conn s of
        OpenConn c \<Rightarrow> (if sq_cursor s = None then s\<lparr>sq_cursor := Some c\<rparr> else s, None)
      | _ \<Rightarrow>
          (case connect of
             Inl e \<Rightarrow> (s\<lparr>sq_conn := NoConnection, sq_cursor := None\<rparr>, Some e)
           | Inr c \<Rightarrow> (s\<lparr>sq_conn := OpenConn c, sq_cursor := Some c\<rparr>, None)))"

text \<open>\<open>execute\<close>: the statement that ran, with the connection of its cursor.\<close>

definition sql_execute ::
    "exn + nat \<Rightarrow> (nat \<Rightarrow> string \<Rightarrow> exn option) \<Rightarrow> string option \<Rightarrow> sql_state \<Rightarrow> sql_state \<times> (exn + nat \<times> string)" where
  "sql_execute connect run query s =
     (case ensure_connection connect s of
        (s1, Some e) \<Rightarrow> (s1, Inl e)
      | (s1, None) \<Rightarrow>
          let q = (case query of Some x \<Rightarrow> if x \<noteq> [] then Some x else sq_query s1 | None \<Rightarrow> sq_query s1);
              broken = s1\<lparr>sq_conn := NoConnection, sq_cursor := None\<rparr>
          in case (q, sq_cursor s1) of
               (Some x, Some c) \<Rightarrow>
                 if x = [] then (broken, Inl ValueE)
                 else (case run c x of Some e \<Rightarrow> (broken, Inl e) | None \<Rightarrow> (s1, Inr (c, x)))
             | _ \<Rightarrow> (broken, Inl ValueE))"

definition sql_close :: "sql_state \<Rightarrow> sql_state" where
  "sql_close s = s\<lparr>sq_conn := (case sq_conn s of OpenConn c \<Rightarrow> ClosedConn c | x \<Rightarrow> x)\<rparr>"

definition sql_inv :: "sql_state \<Rightarrow> bool" where
  "sql_inv s \<longleftrightarrow> (case sq_cursor s of None \<Rightarrow> True | Some c \<Rightarrow> sq_conn s = OpenConn c \<or> sq_conn s = ClosedConn c)"

text \<open>
  A statement runs on the cursor of an open connection, its own; after any error the
  connection is given up, so the next call connects again; and a closed connection is replaced.
\<close>

theorem sql_runs_on_open_connection:
  assumes "sql_inv s" and "sql_execute connect run query s = (s', res)"
  shows "sql_inv s' \<and> (case res of
      Inr (c, q) \<Rightarrow> sq_conn s' = OpenConn c \<and> run c q = None \<and> (sq_conn s = OpenConn c \<or> connect = Inr c)
    | Inl e \<Rightarrow> sq_conn s' = NoConnection \<and> sq_cursor s' = None)"
proof -
  obtain s1 e where en: "ensure_connection connect s = (s1, e)" by fastforce
  have 1: "e = None \<Longrightarrow> \<exists>c. sq_conn s1 = OpenConn c \<and> sq_cursor s1 = Some c \<and> (sq_conn s = OpenConn c \<or> connect = Inr c)"
    "e \<noteq> None \<Longrightarrow> sq_conn s1 = NoConnection \<and> sq_cursor s1 = None"
    using en assms(1) by (auto simp: ensure_connection_def sql_inv_def split: connection.splits sum.splits option.splits)
  show ?thesis
  proof (cases e)
    case None
    then obtain c where c: "sq_conn s1 = OpenConn c" "sq_cursor s1 = Some c" "sq_conn s = OpenConn c \<or> connect = Inr c" using 1 by auto
    show ?thesis using assms(2) en None c
      by (auto simp: sql_execute_def sql_inv_def Let_def split: option.splits if_splits)
  next
    case (Some x)
    then show ?thesis using assms(2) en 1 by (auto simp: sql_execute_def sql_inv_def)
  qed
qed

section \<open>Real-time factor\<close>

text \<open>\<open>RTF\<close>: the audio seen so far over the time since the first call; a clock that has not moved divides by zero.\<close>

record rtf =
  rt_start :: "real option"
  rt_total :: real

definition rtf_new :: rtf where
  "rtf_new = \<lparr>rt_start = None, rt_total = 0\<rparr>"

definition rtf_load :: "real \<Rightarrow> rtf \<Rightarrow> rtf" where
  "rtf_load t r = (if rt_start r = None then r\<lparr>rt_start := Some t\<rparr> else r)"

definition rtf_call :: "real \<Rightarrow> real \<Rightarrow> real \<Rightarrow> rtf \<Rightarrow> rtf \<times> (exn + real)" where
  "rtf_call t1 t2 duration r =
     (let start = (case rt_start r of Some t \<Rightarrow> t | None \<Rightarrow> t1); total_s = rt_total r + duration
      in (\<lparr>rt_start = Some start, rt_total = total_s\<rparr>, if t2 - start = 0 then Inl OtherExn else Inr (total_s / (t2 - start))))"

end
