(* ===== verification/Pipe_Sequential.thy ===== *)
theory Pipe_Sequential
  imports Pipe_Utils
begin

text \<open>
  Single-process execution, \<open>SequentialMixin._sequential_run\<close> of \<^verbatim>\<open>src/pipe/sequential.py\<close>: one list
  of pending (stage, item) pairs, worked off from the front. The user's workers act on a state of
  their own; a call may push items to earlier stages; what one call pushes comes before what it returns, as
  \<open>_add_result\<close> runs after the call (a generator that pushes between two of its items is a call
  whose pushes come first here). The source is the list of what its successive
  calls return, and has ended when the list is exhausted. What is shown: for workers without state
  the run ends and yields, for every source item, exactly what the stages make of it; and where a
  sequential run differs from what its documentation promises.
\<close>

section \<open>Workers and state\<close>

record ('a, 's) seq_cfg =
  sq_n :: nat
  sq_call :: "nat \<Rightarrow> 'a val \<Rightarrow> 's \<Rightarrow> 's \<times> (nat \<times> 'a val) list \<times> 'a outcome"
  sq_batch :: "nat \<Rightarrow> int"
  sq_run :: "nat \<Rightarrow> ('a val list \<Rightarrow> 's \<Rightarrow> 's \<times> 'a val list \<times> exn option) option"
  sq_flush :: "nat \<Rightarrow> 's \<Rightarrow> 's \<times> 'a val list"
  sq_raise_errors :: bool

record ('a, 's) seq_state =
  sq_pending :: "(nat \<times> 'a val) list"
  sq_root :: "'a outcome list"
  sq_ended :: bool
  sq_yielded :: "'a val list"
  sq_store :: 's

text \<open>\<open>_seq_push\<close>: the checks on the target and what is appended.\<close>

datatype seq_target = SeqBool | SeqIndex int | SeqName string

definition index_of :: "string list \<Rightarrow> string \<Rightarrow> nat option" where
  "index_of names nm = (if nm \<in> set names then Some (length (takeWhile (\<lambda>x. x \<noteq> nm) names)) else None)"

definition seq_push ::
  "string list \<Rightarrow> seq_target \<Rightarrow> 'a val \<Rightarrow> (nat \<times> 'a val) list \<Rightarrow> (nat \<times> 'a val) list \<times> (exn + bool)" where
  "seq_push names target item pending =
     (if item = NoneV then (pending, Inr False)
      else
        let idx = (case target of
              SeqBool \<Rightarrow> Inl TypeE
            | SeqIndex i \<Rightarrow> Inr i
            | SeqName nm \<Rightarrow> (case index_of names nm of None \<Rightarrow> Inl ValueE | Some i \<Rightarrow> Inr (int i)))
        in case idx of
             Inl e \<Rightarrow> (pending, Inl e)
           | Inr i \<Rightarrow> if i \<le> 0 \<or> int (length names) \<le> i then (pending, Inl ValueE)
                      else (pending @ [(nat i, item)], Inr True))"

section \<open>Results\<close>

text \<open>\<open>_add_result\<close>: what is appended for the next stage, and an exception of a generator.\<close>

definition result_items :: "'a outcome \<Rightarrow> 'a val list" where
  "result_items res =
     (case res of
        Raise e \<Rightarrow> []
      | Gen xs fin \<Rightarrow> valid_items xs
      | Ret (ListV rs) \<Rightarrow> valid_items rs
      | Ret r \<Rightarrow> if r = NoneV \<or> is_end r then [] else [r])"

definition result_exn :: "'a outcome \<Rightarrow> exn option" where
  "result_exn res = (case res of Raise e \<Rightarrow> Some e | Gen xs fin \<Rightarrow> fin | Ret r \<Rightarrow> None)"

text \<open>Taking further items for the same stage from the front of the pending list.\<close>

fun take_batch :: "int \<Rightarrow> nat \<Rightarrow> 'a val list \<Rightarrow> (nat \<times> 'a val) list \<Rightarrow> 'a val list \<times> (nat \<times> 'a val) list" where
  "take_batch bs i batch [] = (batch, [])"
| "take_batch bs i batch ((j, x) # ps) =
     (if int (length batch) < bs \<and> j = i then take_batch bs i (batch @ [x]) ps else (batch, (j, x) # ps))"

definition process_callable ::
  "('a, 's) seq_cfg \<Rightarrow> nat \<Rightarrow> 'a val \<Rightarrow> ('a, 's) seq_state \<Rightarrow> ('a, 's) seq_state \<times> exn option" where
  "process_callable cfg i item st =
     (let (arg, rest) = (if 0 < sq_batch cfg i
            then (case take_batch (sq_batch cfg i) i [item] (sq_pending st) of (b, ps) \<Rightarrow> (ListV b, ps))
            else (item, sq_pending st))
      in case sq_call cfg i arg (sq_store st) of
           (store, pushed, res) \<Rightarrow>
             (st\<lparr>sq_store := store, sq_pending := rest @ pushed @ map (Pair (Suc i)) (result_items res)\<rparr>, result_exn res))"

section \<open>The main loop\<close>

text \<open>A call of the source. In a list, everything after an \<open>End\<close> is dropped.\<close>

definition call_root :: "('a, 's) seq_state \<Rightarrow> ('a, 's) seq_state \<times> exn option" where
  "call_root st =
     (case sq_root st of
        [] \<Rightarrow> (st\<lparr>sq_ended := True\<rparr>, None)
      | res # later \<Rightarrow>
          let st1 = st\<lparr>sq_root := later\<rparr> in
          (case res of
             Raise e \<Rightarrow> (st1, Some e)
           | Gen xs fin \<Rightarrow>
               (case fin of
                  None \<Rightarrow> (st1\<lparr>sq_pending := sq_pending st1 @ map (Pair 1) (valid_items xs), sq_ended := True\<rparr>, None)
                | Some e \<Rightarrow> (st1\<lparr>sq_pending := sq_pending st1 @ map (Pair 1) (valid_items xs)\<rparr>, Some e))
           | Ret (ListV rs) \<Rightarrow>
               (st1\<lparr>sq_pending := sq_pending st1 @ map (Pair 1) (valid_items (takeWhile (\<lambda>r. \<not> is_end r) rs)),
                    sq_ended := list_ex is_end rs\<rparr>, None)
           | Ret r \<Rightarrow>
               if r = NoneV then (st1, None)
               else if is_end r then (st1\<lparr>sq_ended := True\<rparr>, None)
               else (st1\<lparr>sq_pending := sq_pending st1 @ [(1, r)]\<rparr>, None)))"

text \<open>Working off the first pending pair: yield it, run a \<open>run()\<close> stage on all its items, or call.\<close>

definition swallow :: "('a, 's) seq_cfg \<Rightarrow> ('a, 's) seq_state \<times> exn option \<Rightarrow> ('a, 's) seq_state \<times> exn option" where
  "swallow cfg r = (case r of (st, e) \<Rightarrow> (st, if sq_raise_errors cfg then e else None))"

definition work_first :: "('a, 's) seq_cfg \<Rightarrow> ('a, 's) seq_state \<Rightarrow> ('a, 's) seq_state \<times> exn option" where
  "work_first cfg st =
     (case sq_pending st of
        [] \<Rightarrow> (st, None)
      | (i, item) # ps \<Rightarrow>
          if sq_n cfg \<le> i then (st\<lparr>sq_pending := ps, sq_yielded := sq_yielded st @ [item]\<rparr>, None)
          else case sq_run cfg i of
            Some run \<Rightarrow>
              (let buffer = item # map snd (filter (\<lambda>p. fst p = i) ps);
                   remaining = filter (\<lambda>p. fst p \<noteq> i) ps
               in case run buffer (sq_store st) of
                    (store, puts, e) \<Rightarrow>
                      swallow cfg (st\<lparr>sq_store := store,
                        sq_pending := remaining @ map (Pair (Suc i)) (filter (\<lambda>x. x \<noteq> NoneV) puts)\<rparr>, e))
          | None \<Rightarrow> swallow cfg (process_callable cfg i item (st\<lparr>sq_pending := ps\<rparr>)))"

definition seq_round :: "('a, 's) seq_cfg \<Rightarrow> ('a, 's) seq_state \<Rightarrow> ('a, 's) seq_state \<times> exn option" where
  "seq_round cfg st =
     (case (if sq_ended st then (st, None) else call_root st) of
        (st1, Some e) \<Rightarrow> (st1, Some e)
      | (st1, None) \<Rightarrow> work_first cfg st1)"

text \<open>The loop with fuel; \<open>None\<close> means that the fuel did not suffice.\<close>

fun seq_loop :: "nat \<Rightarrow> ('a, 's) seq_cfg \<Rightarrow> ('a, 's) seq_state \<Rightarrow> (('a, 's) seq_state \<times> exn option) option" where
  "seq_loop 0 cfg st = None"
| "seq_loop (Suc k) cfg st =
     (if sq_ended st \<and> sq_pending st = [] then Some (st, None)
      else case seq_round cfg st of
        (st1, Some e) \<Rightarrow> Some (st1, Some e)
      | (st1, None) \<Rightarrow> seq_loop k cfg st1)"

section \<open>Flushing and the tail\<close>

text \<open>All stages are flushed first, one after the other; then what they returned is worked off, by calls only.\<close>

fun flush_stages :: "('a, 's) seq_cfg \<Rightarrow> nat list \<Rightarrow> ('a, 's) seq_state \<Rightarrow> ('a, 's) seq_state" where
  "flush_stages cfg [] st = st"
| "flush_stages cfg (i # is) st =
     (if sq_run cfg i \<noteq> None then flush_stages cfg is st
      else case sq_flush cfg i (sq_store st) of
        (store, items) \<Rightarrow>
          flush_stages cfg is (st\<lparr>sq_store := store,
            sq_pending := sq_pending st @ map (Pair (Suc i)) (filter (\<lambda>x. x \<noteq> NoneV) items)\<rparr>))"

definition tail_round :: "('a, 's) seq_cfg \<Rightarrow> ('a, 's) seq_state \<Rightarrow> ('a, 's) seq_state \<times> exn option" where
  "tail_round cfg st =
     (case sq_pending st of
        [] \<Rightarrow> (st, None)
      | (i, item) # ps \<Rightarrow>
          if sq_n cfg \<le> i then (st\<lparr>sq_pending := ps, sq_yielded := sq_yielded st @ [item]\<rparr>, None)
          else swallow cfg (process_callable cfg i item (st\<lparr>sq_pending := ps\<rparr>)))"

fun tail_loop :: "nat \<Rightarrow> ('a, 's) seq_cfg \<Rightarrow> ('a, 's) seq_state \<Rightarrow> (('a, 's) seq_state \<times> exn option) option" where
  "tail_loop 0 cfg st = None"
| "tail_loop (Suc k) cfg st =
     (if sq_pending st = [] then Some (st, None)
      else case tail_round cfg st of
        (st1, Some e) \<Rightarrow> Some (st1, Some e)
      | (st1, None) \<Rightarrow> tail_loop k cfg st1)"

definition sequential_run ::
  "nat \<Rightarrow> ('a, 's) seq_cfg \<Rightarrow> 'a outcome list \<Rightarrow> 's \<Rightarrow> (('a, 's) seq_state \<times> exn option) option" where
  "sequential_run fuel cfg src store =
     (case seq_loop fuel cfg \<lparr>sq_pending = [], sq_root = src, sq_ended = False, sq_yielded = [], sq_store = store\<rparr> of
        None \<Rightarrow> None
      | Some (st, Some e) \<Rightarrow> Some (st, Some e)
      | Some (st, None) \<Rightarrow> tail_loop fuel cfg (flush_stages cfg [1..<sq_n cfg] st))"

section \<open>Workers without state\<close>

text \<open>
  A pure pipeline: stage \<open>i\<close> calls \<open>f i\<close> on every item; no state, batches, \<open>run()\<close>, \<open>flush()\<close> or
  pushes. \<open>final\<close> is what the stages from \<open>i\<close> on make of an item.
\<close>

definition pure_cfg :: "nat \<Rightarrow> (nat \<Rightarrow> 'a val \<Rightarrow> 'a outcome) \<Rightarrow> ('a, unit) seq_cfg" where
  "pure_cfg n f = \<lparr>sq_n = n, sq_call = (\<lambda>i x s. (s, [], f i x)), sq_batch = (\<lambda>_. 0), sq_run = (\<lambda>_. None),
     sq_flush = (\<lambda>_ s. (s, [])), sq_raise_errors = False\<rparr>"

function final :: "nat \<Rightarrow> (nat \<Rightarrow> 'a val \<Rightarrow> 'a outcome) \<Rightarrow> nat \<Rightarrow> 'a val \<Rightarrow> 'a val list" where
  "final n f i x = (if n \<le> i then [x] else concat (map (final n f (Suc i)) (result_items (f i x))))"
  by auto
termination by (relation "measure (\<lambda>(n, f, i, x). n - i)") auto

text \<open>The number of rounds an item takes.\<close>

function work :: "nat \<Rightarrow> (nat \<Rightarrow> 'a val \<Rightarrow> 'a outcome) \<Rightarrow> nat \<Rightarrow> 'a val \<Rightarrow> nat" where
  "work n f i x = (if n \<le> i then 1 else Suc (sum_list (map (work n f (Suc i)) (result_items (f i x)))))"
  by auto
termination by (relation "measure (\<lambda>(n, f, i, x). n - i)") auto

declare final.simps [simp del] work.simps [simp del]

definition final_all :: "nat \<Rightarrow> (nat \<Rightarrow> 'a val \<Rightarrow> 'a outcome) \<Rightarrow> (nat \<times> 'a val) list \<Rightarrow> 'a val list" where
  "final_all n f ps = concat (map (\<lambda>(i, x). final n f i x) ps)"

definition work_all :: "nat \<Rightarrow> (nat \<Rightarrow> 'a val \<Rightarrow> 'a outcome) \<Rightarrow> (nat \<times> 'a val) list \<Rightarrow> nat" where
  "work_all n f ps = sum_list (map (\<lambda>(i, x). work n f i x) ps)"

text \<open>What the source hands over, up to the call that ends it; a source that raises ends the run.\<close>

fun root_items :: "'a outcome list \<Rightarrow> 'a val list" where
  "root_items [] = []"
| "root_items (res # later) =
     (case res of
        Raise e \<Rightarrow> []
      | Gen xs fin \<Rightarrow> valid_items xs
      | Ret (ListV rs) \<Rightarrow> valid_items (takeWhile (\<lambda>r. \<not> is_end r) rs) @ (if list_ex is_end rs then [] else root_items later)
      | Ret r \<Rightarrow> if r = NoneV then root_items later else if is_end r then [] else r # root_items later)"

definition root_ok :: "'a outcome list \<Rightarrow> bool" where
  "root_ok src \<longleftrightarrow> (\<forall>res \<in> set src. result_exn res = None)"

definition ahead_items :: "('a, 's) seq_state \<Rightarrow> 'a val list" where
  "ahead_items st = (if sq_ended st then [] else root_items (sq_root st))"

lemma final_all_simps [simp]:
  "final_all n f [] = []" "final_all n f (p # ps) = final n f (fst p) (snd p) @ final_all n f ps"
  "final_all n f (ps @ qs) = final_all n f ps @ final_all n f qs"
  by (auto simp: final_all_def split: prod.splits)

lemma work_all_simps [simp]:
  "work_all n f [] = 0" "work_all n f (p # ps) = work n f (fst p) (snd p) + work_all n f ps"
  "work_all n f (ps @ qs) = work_all n f ps + work_all n f qs"
  by (auto simp: work_all_def split: prod.splits)

lemma final_all_Pair: "final_all n f (map (Pair i) xs) = concat (map (final n f i) xs)"
  by (simp add: final_all_def o_def)

lemma work_all_Pair: "work_all n f (map (Pair i) xs) = sum_list (map (work n f i) xs)"
  by (simp add: work_all_def o_def)

lemma call_root_ok:
  assumes "\<not> sq_ended st" and "root_ok (sq_root st)"
  shows "\<exists>st1 xs. call_root st = (st1, None) \<and> root_ok (sq_root st1) \<and> sq_yielded st1 = sq_yielded st
    \<and> sq_pending st1 = sq_pending st @ map (Pair 1) xs \<and> ahead_items st = xs @ ahead_items st1
    \<and> (sq_ended st1 \<or> length (sq_root st1) < length (sq_root st))"
proof (cases "sq_root st")
  case Nil
  with assms show ?thesis by (auto simp: call_root_def ahead_items_def root_ok_def)
next
  case (Cons res later)
  then have r: "result_exn res = None" "root_ok later" using assms(2) by (auto simp: root_ok_def)
  show ?thesis
  proof (cases res)
    case (Ret v)
    with Cons r assms(1) show ?thesis
      by (cases v) (auto simp: call_root_def ahead_items_def Let_def intro: exI [of _ "[_]"])
  next
    case (Gen xs fin)
    with Cons r assms(1) show ?thesis by (auto simp: call_root_def ahead_items_def result_exn_def)
  next
    case (Raise e)
    with r show ?thesis by (simp add: result_exn_def)
  qed
qed

lemma work_first_pure:
  assumes "work_first (pure_cfg n f) st = (st1, e)"
  shows "e = None \<and> sq_root st1 = sq_root st \<and> sq_ended st1 = sq_ended st
    \<and> mset (sq_yielded st1) + mset (final_all n f (sq_pending st1)) = mset (sq_yielded st) + mset (final_all n f (sq_pending st))
    \<and> (sq_pending st \<noteq> [] \<longrightarrow> work_all n f (sq_pending st1) < work_all n f (sq_pending st))
    \<and> (sq_pending st = [] \<longrightarrow> st1 = st)"
proof (cases "sq_pending st")
  case Nil
  with assms show ?thesis by (simp add: work_first_def)
next
  case (Cons p ps)
  obtain i x where p: "p = (i, x)" by force
  show ?thesis
  proof (cases "n \<le> i")
    case True
    with assms Cons p show ?thesis
      by (auto simp: work_first_def pure_cfg_def final.simps [of n f i] work.simps [of n f i])
  next
    case False
    with assms Cons p have st1: "st1 = st\<lparr>sq_pending := ps @ map (Pair (Suc i)) (result_items (f i x))\<rparr>" "e = None"
      by (auto simp: work_first_def pure_cfg_def process_callable_def swallow_def Let_def)
    have "mset (final n f i x) = mset (final_all n f (map (Pair (Suc i)) (result_items (f i x))))"
      using False by (simp add: final.simps [of n f i] final_all_Pair)
    moreover have "work_all n f (map (Pair (Suc i)) (result_items (f i x))) < work n f i x"
      using False by (simp add: work.simps [of n f i] work_all_Pair)
    ultimately show ?thesis using st1 Cons p by (auto simp: ac_simps)
  qed
qed

text \<open>What is still to come of a state: pending items and the rest of the source; and the rounds it takes.\<close>

definition seq_measure :: "nat \<Rightarrow> (nat \<Rightarrow> 'a val \<Rightarrow> 'a outcome) \<Rightarrow> ('a, unit) seq_state \<Rightarrow> nat" where
  "seq_measure n f st = work_all n f (sq_pending st) + work_all n f (map (Pair 1) (ahead_items st))
     + (if sq_ended st then 0 else Suc (length (sq_root st)))"

definition seq_total :: "nat \<Rightarrow> (nat \<Rightarrow> 'a val \<Rightarrow> 'a outcome) \<Rightarrow> ('a, unit) seq_state \<Rightarrow> 'a val multiset" where
  "seq_total n f st = mset (sq_yielded st) + mset (final_all n f (sq_pending st))
     + mset (final_all n f (map (Pair 1) (ahead_items st)))"

lemma ahead_items_cong:
  "sq_ended st1 = sq_ended st \<Longrightarrow> sq_root st1 = sq_root st \<Longrightarrow> ahead_items st1 = ahead_items st"
  by (simp add: ahead_items_def)

lemma call_root_progress:
  assumes "\<not> sq_ended st" and "root_ok (sq_root st)"
  obtains st1 where "call_root st = (st1, None)" and "root_ok (sq_root st1)"
    and "seq_total n f st1 = seq_total n f st" and "seq_measure n f st1 < seq_measure n f st"
proof -
  obtain st1 xs where a: "call_root st = (st1, None)" "root_ok (sq_root st1)" "sq_yielded st1 = sq_yielded st"
    "sq_pending st1 = sq_pending st @ map (Pair 1) xs" "ahead_items st = xs @ ahead_items st1"
    "sq_ended st1 \<or> length (sq_root st1) < length (sq_root st)"
    using call_root_ok [OF assms] by blast
  then have "seq_total n f st1 = seq_total n f st" "seq_measure n f st1 < seq_measure n f st"
    using assms(1) by (auto simp: seq_total_def seq_measure_def ac_simps)
  with a(1,2) show thesis by (rule that)
qed

lemma work_first_progress:
  assumes "work_first (pure_cfg n f) st = (st1, e)"
  shows "e = None \<and> sq_root st1 = sq_root st \<and> sq_ended st1 = sq_ended st \<and> seq_total n f st1 = seq_total n f st
    \<and> seq_measure n f st1 \<le> seq_measure n f st \<and> (sq_pending st \<noteq> [] \<longrightarrow> seq_measure n f st1 < seq_measure n f st)"
proof -
  note w = work_first_pure [OF assms]
  then have "ahead_items st1 = ahead_items st" by (blast intro: ahead_items_cong)
  with w show ?thesis by (cases "sq_pending st = []") (auto simp: seq_total_def seq_measure_def)
qed

lemma seq_round_progress:
  assumes "root_ok (sq_root st)" and "\<not> (sq_ended st \<and> sq_pending st = [])"
  obtains st1 where "seq_round (pure_cfg n f) st = (st1, None)" and "root_ok (sq_root st1)"
    and "seq_total n f st1 = seq_total n f st" and "seq_measure n f st1 < seq_measure n f st"
proof (cases "sq_ended st")
  case True
  obtain st1 e where w: "work_first (pure_cfg n f) st = (st1, e)" by force
  with work_first_progress [OF this] True assms show thesis
    by (intro that [of st1]) (auto simp: seq_round_def)
next
  case False
  from call_root_progress [OF False assms(1), of n f] obtain st0 where c: "call_root st = (st0, None)"
    "root_ok (sq_root st0)" "seq_total n f st0 = seq_total n f st" "seq_measure n f st0 < seq_measure n f st" .
  obtain st1 e where w: "work_first (pure_cfg n f) st0 = (st1, e)" by force
  with work_first_progress [OF this] False c show thesis
    by (intro that [of st1]) (auto simp: seq_round_def)
qed

lemma seq_loop_pure:
  "root_ok (sq_root st) \<Longrightarrow> seq_measure n f st < k \<Longrightarrow>
   \<exists>st1. seq_loop k (pure_cfg n f) st = Some (st1, None) \<and> sq_pending st1 = [] \<and> mset (sq_yielded st1) = seq_total n f st"
proof (induction k arbitrary: st)
  case 0
  then show ?case by simp
next
  case (Suc k)
  show ?case
  proof (cases "sq_ended st \<and> sq_pending st = []")
    case True
    then show ?thesis by (simp add: seq_total_def ahead_items_def)
  next
    case False
    from seq_round_progress [OF Suc.prems(1) False, of n f] obtain st1 where r: "seq_round (pure_cfg n f) st = (st1, None)"
      "root_ok (sq_root st1)" "seq_total n f st1 = seq_total n f st" "seq_measure n f st1 < seq_measure n f st" .
    have "seq_measure n f st1 < k" using r(4) Suc.prems(2) by simp
    from Suc.IH [OF r(2) this] r(3) have "\<exists>st2. seq_loop k (pure_cfg n f) st1 = Some (st2, None) \<and> sq_pending st2 = []
        \<and> mset (sq_yielded st2) = seq_total n f st" by simp
    with r(1) False show ?thesis by auto
  qed
qed

lemma flush_stages_pure: "flush_stages (pure_cfg n f) is st = st"
  by (induction "is"; cases st) (simp_all add: pure_cfg_def)

lemma sequential_run_yields:
  assumes "root_ok src"
  shows "\<exists>fuel st. sequential_run fuel (pure_cfg n f) src () = Some (st, None)
    \<and> mset (sq_yielded st) = mset (concat (map (final n f 1) (root_items src)))"
proof -
  define st0 where "st0 = \<lparr>sq_pending = [], sq_root = src, sq_ended = False, sq_yielded = [], sq_store = ()\<rparr>"
  have t: "seq_total n f st0 = mset (concat (map (final n f 1) (root_items src)))"
    by (simp add: seq_total_def st0_def ahead_items_def final_all_Pair)
  have "root_ok (sq_root st0)" using assms by (simp add: st0_def)
  from seq_loop_pure [OF this lessI, of n f] obtain st1 where
    l: "seq_loop (Suc (seq_measure n f st0)) (pure_cfg n f) st0 = Some (st1, None)" "sq_pending st1 = []"
       "mset (sq_yielded st1) = seq_total n f st0" by blast
  have "sequential_run (Suc (seq_measure n f st0)) (pure_cfg n f) src () = Some (st1, None)"
    using l(1,2) by (simp add: sequential_run_def st0_def [symmetric] flush_stages_pure)
  with l(3) t show ?thesis by metis
qed

section \<open>Properties\<close>

text \<open>
  A sequential run over workers without state and a source that does not raise ends, without an
  error even where workers raise, and yields for every item of the source exactly what the stages
  make of it: a worker's exception costs at most the rest of that one call's results.
\<close>

theorem sequential_run_complete:
  assumes "root_ok src"
  shows "\<exists>fuel st. sequential_run fuel (pure_cfg n f) src () = Some (st, None)
    \<and> mset (sq_yielded st) = mset (concat (map (final n f 1) (root_items src)))"
  using assms by (rule sequential_run_yields)

theorem sequential_run_complete_witness:
  "\<exists>fuel st. sequential_run fuel (pure_cfg 2 (\<lambda>i x. if x = Obj (2 :: nat) then Raise ValueE else Ret x))
       [Ret (Obj 1), Ret (ListV [Obj 2, Obj 3]), Ret EndV, Ret (Obj 4)] () = Some (st, None)
     \<and> mset (sq_yielded st) = {# Obj 1, Obj 3 #}"
proof -
  have "root_ok [Ret (Obj (1 :: nat)), Ret (ListV [Obj 2, Obj 3]), Ret EndV, Ret (Obj 4)]"
    by (simp add: root_ok_def result_exn_def)
  from sequential_run_complete [OF this, of 2 "\<lambda>i x. if x = Obj (2 :: nat) then Raise ValueE else Ret x"]
  show ?thesis by (simp add: final.simps result_items_def)
qed

text \<open>
  A pipeline of a source and two batchers of the same size; the store holds the two batchers.
\<close>

definition two_batchers :: "('a, 'a batcher \<times> 'a batcher) seq_cfg" where
  "two_batchers = \<lparr>sq_n = 3,
     sq_call = (\<lambda>i x s. if i = 1 then (case batcher_call None x (fst s) of (b, r) \<Rightarrow> ((b, snd s), [], Ret r))
                        else (case batcher_call None x (snd s) of (b, r) \<Rightarrow> ((fst s, b), [], Ret r))),
     sq_batch = (\<lambda>_. 0), sq_run = (\<lambda>_. None),
     sq_flush = (\<lambda>i s. if i = 1 then (case batcher_flush None (fst s) of (b, xs) \<Rightarrow> ((b, snd s), xs))
                        else (case batcher_flush None (snd s) of (b, xs) \<Rightarrow> ((fst s, b), xs))),
     sq_raise_errors = False\<rparr>"

text \<open>
  The final flush of a sequential run is not repeated: all stages are flushed before what they
  return is worked off. With two batchers in a row an item that the first one flushes stays in the
  second one's buffer; the run ends without an error and the item is never yielded.
\<close>

theorem sequential_flush_strands:
  assumes "1 < sz"
  shows "\<exists>st. sequential_run 4 two_batchers [Ret (Obj a), Ret EndV] (batcher_new sz, batcher_new sz) = Some (st, None)
    \<and> sq_yielded st = [] \<and> sq_pending st = [] \<and> b_buffer (snd (sq_store st)) = [Obj a]"
  using assms
  by (simp add: sequential_run_def eval_nat_numeral seq_round_def call_root_def work_first_def process_callable_def
      two_batchers_def batcher_call_def batcher_flush_def batcher_new_def swallow_def result_items_def result_exn_def
      tail_round_def Let_def upt_rec)

theorem sequential_flush_strands_witness:
  "\<exists>st. sequential_run 4 two_batchers [Ret (Obj (7 :: nat)), Ret EndV] (batcher_new 2, batcher_new 2) = Some (st, None)
    \<and> sq_yielded st = []"
proof -
  have "1 < (2 :: int)" by simp
  from sequential_flush_strands [OF this, of "7 :: nat"] show ?thesis by blast
qed

end
