(* ===== verification/Pipe_Chain.thy ===== *)
theory Pipe_Chain
  imports Pipe_Completion Pipe_Lifecycle Pipe_Sequential
begin

text \<open>
  A whole pipeline: the queues that \<open>LifecycleMixin.start\<close> (\<^verbatim>\<open>src/pipe/lifecycle.py\<close>) puts
  between the stages connect the run loops of their workers, and \<open>Pipe.__iter__\<close> reads the last
  queue. Every stage has one worker and runs once its upstream stage is done; its worker is a
  function of the item. What is shown: such a pipeline yields what the stages make of the source's
  items, in order, and a sequential run yields the same.
\<close>

section \<open>A stage between two queues\<close>

text \<open>
  A stage: its configuration, chunking of the output edge, the user's function, and what the
  worker observes in its rounds and in its epilogue.
\<close>

record 'a stage_run =
  sr_cfg :: "'a wcfg"
  sr_chunk :: int
  sr_chunk_ms :: real
  sr_fun :: "'a val \<Rightarrow> 'a outcome"
  sr_obs :: "nat \<Rightarrow> 'a iter_obs"
  sr_last :: "'a iter_obs"

text \<open>The worker's state when its loop starts on a queue holding the given messages.\<close>

definition worker_start :: "'a stage_run \<Rightarrow> 'a msg list \<Rightarrow> 'a wstate" where
  "worker_start sr ms = \<lparr>ws_in = ic_new, ws_q = map (\<lambda>m. Inr (Some m)) ms, ws_back = [],
     ws_port = Some \<lparr>op_ch = oc_new (sr_chunk sr) (sr_chunk_ms sr), op_log = [], op_ipc_left = 0, op_ipc_flag = False, op_torch = False\<rparr>,
     ws_empty = 0, ws_timing = \<lparr>t_items = 0, t_time = 0, t_audio = 0\<rparr>, ws_published = None,
     ws_backoff = \<lparr>bo_base = 1, bo_failures = 0\<rparr>, ws_stop_write = None, ws_park_write = [], ws_busy = [], ws_emits = 0\<rparr>"

text \<open>
  \<open>_worker_run\<close> of the stage's only worker, with at most \<open>n\<close> rounds: the loop, the epilogue, the
  coordination at the end. The result is the content of the output queue; \<open>None\<close> if the loop has not
  ended or the worker raised.
\<close>

definition run_stage :: "nat \<Rightarrow> 'a stage_run \<Rightarrow> 'a msg list \<Rightarrow> 'a msg list option" where
  "run_stage n sr ms =
     (case worker_loop (sr_cfg sr) (map (sr_obs sr) [0..<n]) (worker_start sr ms) of
        Leave s \<Rightarrow>
          (case worker_epilogue (sr_cfg sr) (sr_last sr) (HookItems []) s of
             (s1, None) \<Rightarrow>
               (case ws_port s1 of
                  Some p \<Rightarrow>
                    map_option bq_items (sy_queue (finish_worker (Some 1) False 1 []
                      \<lparr>sy_counter = Some 0, sy_done = Some False, sy_queue = Some \<lparr>bq_maxsize = 0, bq_items = op_log p\<rparr>\<rparr>))
                | None \<Rightarrow> None)
           | _ \<Rightarrow> None)
      | _ \<Rightarrow> None)"

text \<open>Stage \<open>i\<close> reads the queue stage \<open>i - 1\<close> writes.\<close>

fun run_stages :: "nat \<Rightarrow> 'a stage_run list \<Rightarrow> 'a msg list \<Rightarrow> 'a msg list option" where
  "run_stages n [] ms = Some ms"
| "run_stages n (sr # srs) ms = (case run_stage n sr ms of None \<Rightarrow> None | Some ms1 \<Rightarrow> run_stages n srs ms1)"

text \<open>The parent's rounds: each message, one payload a round, then five empty polls.\<close>

definition message_rounds :: "'a msg \<Rightarrow> 'a round_obs list" where
  "message_rounds m = round_of (Inr (Some m)) # replicate (length (payloads m) - 1) (round_of (Inr None))"

definition read_all :: "'a msg list \<Rightarrow> 'a iter_turn" where
  "read_all ms = iter_run (concat (map message_rounds ms) @ replicate 5 (round_of (Inr None))) (iter_start 0)"

section \<open>What a stage makes of its input\<close>

text \<open>A value in which no \<open>WorkerStop\<close> hides. A stage passes such values on as such.\<close>

fun plain :: "'a val \<Rightarrow> bool" where
  "plain (SentV s) \<longleftrightarrow> s \<noteq> WORKER_STOP"
| "plain (ListV vs) \<longleftrightarrow> list_all plain vs"
| "plain _ \<longleftrightarrow> True"

lemma plain_no_stop: "\<forall>x \<in> set xs. plain x \<Longrightarrow> WorkerStopV \<notin> set xs"
  by auto

definition stage_ok :: "'a stage_run \<Rightarrow> bool" where
  "stage_ok sr \<longleftrightarrow> (\<forall>k. calm (sr_fun sr) (sr_obs sr k) \<and> io_upstream (sr_obs sr k)) \<and> calm (sr_fun sr) (sr_last sr)
     \<and> mild (sr_fun sr) \<and> \<not> c_raise_errors (sr_cfg sr) \<and> \<not> c_root (sr_cfg sr) \<and> c_batch_size (sr_cfg sr) \<le> 0
     \<and> 0 < c_threshold (sr_cfg sr) \<and> (\<forall>x. plain x \<longrightarrow> (\<forall>y \<in> set (outputs (sr_fun sr) x). plain y))"

definition wellformed :: "'a msg list \<Rightarrow> bool" where
  "wellformed ms \<longleftrightarrow> (\<forall>m \<in> set ms. payloads m \<noteq> []) \<and> (\<forall>x \<in> set (unchunk ms). plain x)"

lemma worker_start_input:
  assumes "wellformed ms"
  shows "has_port (worker_start sr ms)" "input_ok (worker_start sr ms)" "nones (worker_start sr ms) = 0"
    "ws_empty (worker_start sr ms) = 0" "pending_in (worker_start sr ms) = unchunk ms" "out (worker_start sr ms) = []"
    "ahead (worker_start sr ms) \<le> 2 * length (unchunk ms)"
proof -
  have a: "concat (map (answer \<circ> (\<lambda>m. Inr (Some m))) ms) = unchunk ms" by (simp add: answer_def unchunk_def o_def)
  have "length ms \<le> length (unchunk ms)"
    using assms by (induction ms) (auto simp: wellformed_def neq_Nil_conv)
  then show "ahead (worker_start sr ms) \<le> 2 * length (unchunk ms)"
    using a by (simp add: ahead_def pending_in_def worker_start_def ic_new_def)
  show "has_port (worker_start sr ms)" by (simp add: has_port_def worker_start_def port_ok_def)
  show "input_ok (worker_start sr ms)"
    using assms a plain_no_stop [of "unchunk ms"] by (auto simp: input_ok_def worker_start_def pending_in_def ic_new_def wellformed_def)
  show "nones (worker_start sr ms) = 0" "ws_empty (worker_start sr ms) = 0"
    "pending_in (worker_start sr ms) = unchunk ms" "out (worker_start sr ms) = []"
    using a by (simp_all add: nones_def worker_start_def pending_in_def ic_new_def out_def sent_def filter_empty_conv)
qed

text \<open>Without batching every call gets one item.\<close>

lemma single_calls:
  assumes "\<forall>c \<in> set calls. c \<noteq> [] \<and> int (length c) \<le> max 1 (c_batch_size cfg)" and "c_batch_size cfg \<le> 0"
  shows "concat (map (\<lambda>c. outputs f (call_arg cfg c)) calls) = concat (map (outputs f) (concat calls))"
  using assms
proof (induction calls)
  case (Cons c calls)
  then obtain x where "c = [x]" by (cases c) auto
  with Cons show ?case by (simp add: call_arg_def)
qed simp

lemma run_stage_stream:
  assumes "stage_ok sr" and "wellformed ms" and "2 * length (unchunk ms) + c_threshold (sr_cfg sr) \<le> n"
  shows "\<exists>ms1. run_stage n sr ms = Some ms1 \<and> wellformed ms1
    \<and> unchunk ms1 = concat (map (outputs (sr_fun sr)) (filter (\<lambda>x. \<not> is_end x) (unchunk ms))) @ [EndV]"
proof -
  note W = worker_start_input [OF assms(2), of sr]
  have obs: "\<forall>ob \<in> set (map (sr_obs sr) [0..<n]). calm (sr_fun sr) ob \<and> io_upstream ob"
    using assms(1) by (auto simp: stage_ok_def)
  have m: "mild (sr_fun sr)" "\<not> c_raise_errors (sr_cfg sr)" "\<not> c_root (sr_cfg sr)" "calm (sr_fun sr) (sr_last sr)"
    "c_batch_size (sr_cfg sr) \<le> 0" "0 < c_threshold (sr_cfg sr)" and ws: "\<And>x y. plain x \<Longrightarrow> y \<in> set (outputs (sr_fun sr) x) \<Longrightarrow> plain y"
    using assms(1) unfolding stage_ok_def by blast+
  have "nones (worker_start sr ms) + ws_empty (worker_start sr ms) < c_threshold (sr_cfg sr)" using W(3,4) m(6) by simp
  moreover have "ahead (worker_start sr ms) + c_threshold (sr_cfg sr) \<le> length (map (sr_obs sr) [0..<n])"
    using W(7) assms(3) by simp
  ultimately obtain s' s'' p calls where
    R: "worker_loop (sr_cfg sr) (map (sr_obs sr) [0..<n]) (worker_start sr ms) = Leave s'"
       "worker_epilogue (sr_cfg sr) (sr_last sr) (HookItems []) s' = (s'', None)" "ws_port s'' = Some p" "port_ok p"
       "concat calls = filter (\<lambda>x. \<not> is_end x) (pending_in (worker_start sr ms))"
       "\<forall>c \<in> set calls. c \<noteq> [] \<and> int (length c) \<le> max 1 (c_batch_size (sr_cfg sr))"
       "unchunk (op_log p) = out (worker_start sr ms) @ concat (map (\<lambda>c. outputs (sr_fun sr) (call_arg (sr_cfg sr) c)) calls)"
    using worker_run_sends [OF obs m(1-3) W(1,2) _ _ m(4), of "[]"] by auto
  have "run_stage n sr ms = Some (op_log p @ [ItemM EndV])"
    using R(1-3) by (simp add: run_stage_def finish_worker_def bq_put_def bq_full_def Let_def)
  moreover have "unchunk (op_log p) = concat (map (outputs (sr_fun sr)) (filter (\<lambda>x. \<not> is_end x) (unchunk ms)))"
    using R(5,7) single_calls [OF R(6) m(5)] W(5,6) by simp
  moreover have "wellformed (op_log p @ [ItemM EndV])"
    using R(4) ws calculation(2) assms(2) by (auto simp: wellformed_def port_ok_def)
  ultimately show ?thesis by auto
qed

section \<open>The chain of stages\<close>

fun through :: "('a val \<Rightarrow> 'a outcome) list \<Rightarrow> 'a val list \<Rightarrow> 'a val list" where
  "through [] xs = xs"
| "through (f # fs) xs = through fs (concat (map (outputs f) xs))"

lemma outputs_no_end: "\<not> (\<exists>y \<in> set (concat (map (outputs f) xs)). is_end y)"
  by (auto simp: outputs_def valid_item_def)

lemma through_no_end: "\<forall>x \<in> set xs. \<not> is_end x \<Longrightarrow> \<forall>x \<in> set (through fs xs). \<not> is_end x"
proof (induction fs arbitrary: xs)
  case (Cons f fs)
  have "\<forall>y \<in> set (concat (map (outputs f) xs)). \<not> is_end y" using outputs_no_end by blast
  from Cons.IH [OF this] show ?case by simp
qed simp

lemma run_stages_stream:
  assumes "\<forall>sr \<in> set srs. stage_ok sr" and "\<forall>x \<in> set xs. \<not> is_end x"
  shows "\<exists>n0. \<forall>n \<ge> n0. \<forall>ms. wellformed ms \<and> unchunk ms = xs @ [EndV] \<longrightarrow>
    (\<exists>ms1. run_stages n srs ms = Some ms1 \<and> wellformed ms1 \<and> unchunk ms1 = through (map sr_fun srs) xs @ [EndV])"
  using assms
proof (induction srs arbitrary: xs)
  case Nil
  then show ?case by auto
next
  case (Cons sr srs)
  define ys where "ys = concat (map (outputs (sr_fun sr)) xs)"
  have ok: "stage_ok sr" "\<forall>sr \<in> set srs. stage_ok sr" using Cons.prems(1) by auto
  have "\<forall>y \<in> set ys. \<not> is_end y" using outputs_no_end unfolding ys_def by blast
  from Cons.IH [OF ok(2) this] obtain n0 where n0: "\<And>n ms. n0 \<le> n \<Longrightarrow> wellformed ms \<Longrightarrow> unchunk ms = ys @ [EndV] \<Longrightarrow>
    \<exists>ms1. run_stages n srs ms = Some ms1 \<and> wellformed ms1 \<and> unchunk ms1 = through (map sr_fun srs) ys @ [EndV]" by blast
  show ?case
  proof (intro exI [of _ "max n0 (2 * Suc (length xs) + c_threshold (sr_cfg sr))"] allI impI)
    fix n ms
    assume n: "max n0 (2 * Suc (length xs) + c_threshold (sr_cfg sr)) \<le> n" and ms: "wellformed ms \<and> unchunk ms = xs @ [EndV]"
    then have len: "2 * length (unchunk ms) + c_threshold (sr_cfg sr) \<le> n" by simp
    have "filter (\<lambda>x. \<not> is_end x) (unchunk ms) = xs" using ms Cons.prems(2) by simp
    with run_stage_stream [OF ok(1) _ len] ms obtain ms1 where
      r: "run_stage n sr ms = Some ms1" "wellformed ms1" "unchunk ms1 = ys @ [EndV]" by (auto simp: ys_def)
    have "n0 \<le> n" using n by simp
    from n0 [OF this r(2,3)] r(1)
    show "\<exists>ms1. run_stages n (sr # srs) ms = Some ms1 \<and> wellformed ms1 \<and> unchunk ms1 = through (map sr_fun (sr # srs)) xs @ [EndV]"
      by (auto simp: ys_def)
  qed
qed

text \<open>The stages' effect is the one the sequential run has.\<close>

lemma outputs_result_items: "outputs f x = result_items (f x)"
  by (auto simp: outputs_def result_items_def result_list_def valid_item_def split: outcome.splits val.splits)

lemma concat_map_concat:
  "concat (map h (concat (map k xs))) = concat (map (\<lambda>x. concat (map h (k x))) xs)"
  by (induction xs) simp_all

lemma through_final:
  "(\<And>k. k < length fs \<Longrightarrow> g (i + k) = fs ! k) \<Longrightarrow> through fs xs = concat (map (final (i + length fs) g i) xs)"
proof (induction fs arbitrary: i xs)
  case Nil
  have "final i g i x = [x]" for x by (simp add: final.simps)
  then show ?case by simp
next
  case (Cons f fs)
  have g: "g i = f" using Cons.prems [of 0] by simp
  have g1: "\<And>k. k < length fs \<Longrightarrow> g (Suc i + k) = fs ! k" using Cons.prems [of "Suc _"] by simp
  have "through (f # fs) xs = concat (map (final (Suc i + length fs) g (Suc i)) (concat (map (outputs f) xs)))"
    using Cons.IH [OF g1] by simp
  moreover have "final (i + length (f # fs)) g i x = concat (map (final (Suc i + length fs) g (Suc i)) (outputs f x))" for x
    by (simp add: final.simps [of _ g i] g outputs_result_items)
  ultimately show ?case by (simp add: concat_map_concat)
qed

section \<open>Reading the last queue\<close>

lemma iter_run_buffer:
  assumes "it_ch st = \<lparr>ic_buf = buf, ic_deque = True\<rparr>"
  shows "iter_run (replicate (length buf) (round_of (Inr None)) @ obs) st
    = iter_run obs (if buf = [] then st else st\<lparr>it_ch := \<lparr>ic_buf = [], ic_deque = True\<rparr>, it_empty := 0,
        it_yielded := it_yielded st @ filter (\<lambda>x. \<not> is_end x) buf\<rparr>)"
  using assms
proof (induction buf arbitrary: st)
  case (Cons b buf)
  define st1 where "st1 = st\<lparr>it_ch := \<lparr>ic_buf = buf, ic_deque = True\<rparr>, it_empty := 0,
    it_yielded := it_yielded st @ filter (\<lambda>x. \<not> is_end x) [b]\<rparr>"
  have "iter_round (round_of (Inr None)) st = Continue st1"
    using Cons.prems by (auto simp: iter_round_def round_of_def ic_get_def popleft_def st1_def Let_def)
  with Cons.IH [of st1] show ?case by (auto simp: st1_def)
qed simp

lemma iter_run_message:
  assumes "it_ch st = \<lparr>ic_buf = [], ic_deque = True\<rparr>" and "payloads m \<noteq> []"
  shows "iter_run (message_rounds m @ obs) st
    = iter_run obs (st\<lparr>it_empty := 0, it_yielded := it_yielded st @ filter (\<lambda>x. \<not> is_end x) (payloads m)\<rparr>)"
proof -
  obtain y ys where p: "payloads m = y # ys" using assms(2) by (cases "payloads m") auto
  define st1 where "st1 = st\<lparr>it_ch := \<lparr>ic_buf = ys, ic_deque = True\<rparr>, it_empty := 0,
    it_yielded := it_yielded st @ filter (\<lambda>x. \<not> is_end x) [y]\<rparr>"
  have "iter_round (round_of (Inr (Some m))) st = Continue st1"
    using assms p by (cases m) (auto simp: iter_round_def round_of_def ic_get_def popleft_def st1_def Let_def)
  moreover have "it_ch st1 = \<lparr>ic_buf = ys, ic_deque = True\<rparr>" by (simp add: st1_def)
  from iter_run_buffer [OF this, of obs]
  have "iter_run (replicate (length ys) (round_of (Inr None)) @ obs) st1
    = iter_run obs (st\<lparr>it_empty := 0, it_yielded := it_yielded st @ filter (\<lambda>x. \<not> is_end x) (payloads m)\<rparr>)"
    using assms(1) p by (cases st) (auto simp: st1_def)
  ultimately show ?thesis using p by (simp add: message_rounds_def)
qed

lemma read_all_yields:
  assumes "\<forall>m \<in> set ms. payloads m \<noteq> []"
  shows "\<exists>st. read_all ms = Complete st \<and> it_yielded st = filter (\<lambda>x. \<not> is_end x) (unchunk ms)"
proof -
  have "\<exists>st'. iter_run (concat (map message_rounds ms) @ obs) st = iter_run obs st' \<and> it_ch st' = it_ch st
      \<and> it_watch st' = it_watch st \<and> it_gen st' = it_gen st
      \<and> it_yielded st' = it_yielded st @ filter (\<lambda>x. \<not> is_end x) (unchunk ms)"
    if "it_ch st = \<lparr>ic_buf = [], ic_deque = True\<rparr>" for st :: "'a iter_state" and obs
    using assms that
  proof (induction ms arbitrary: st)
    case (Cons m ms)
    let ?st = "st\<lparr>it_empty := 0, it_yielded := it_yielded st @ filter (\<lambda>x. \<not> is_end x) (payloads m)\<rparr>"
    have "it_ch ?st = \<lparr>ic_buf = [], ic_deque = True\<rparr>" using Cons.prems by simp
    with Cons.IH [of ?st] iter_run_message [OF Cons.prems(2), of m "concat (map message_rounds ms) @ obs"] Cons.prems
    show ?case by auto
  qed auto
  from this [of "iter_start 0" "replicate 5 (round_of (Inr None))"] obtain st' where
    s: "read_all ms = iter_run (replicate 5 (round_of (Inr None))) st'" "it_ch st' = ic_new" "it_watch st' = it_gen st'"
       "it_yielded st' = filter (\<lambda>x. \<not> is_end x) (unchunk ms)"
    by (auto simp: read_all_def iter_start_def ic_new_def)
  have "\<exists>st. iter_run (replicate 5 (round_of (Inr None))) st' = Complete st \<and> it_yielded st = it_yielded st'"
    using s(2,3) by (intro five_polls_complete) (simp_all add: ic_new_def round_of_def regular_round_def)
  with s(1,4) show ?thesis by auto
qed

text \<open>The source hands over no sentinel.\<close>

lemma root_items_no_end: "x \<in> set (root_items src) \<Longrightarrow> \<not> is_end x"
  by (induction src rule: root_items.induct)
    (auto simp: valid_item_def split: outcome.splits val.splits if_splits)

section \<open>An example\<close>

definition pair_up :: "nat val \<Rightarrow> nat outcome" where
  "pair_up x = (case x of Obj a \<Rightarrow> if a = 0 then Raise ValueE else Ret (ListV [Obj a, NoneV, Obj (a - 1)]) | _ \<Rightarrow> Ret NoneV)"

definition sample_stage :: "int \<Rightarrow> nat stage_run" where
  "sample_stage chunk = \<lparr>sr_cfg = sample_cfg\<lparr>c_batch_size := 0\<rparr>, sr_chunk = chunk, sr_chunk_ms = 10, sr_fun = pair_up,
     sr_obs = (\<lambda>_. sample_obs\<lparr>io_call := pair_up\<rparr>), sr_last = sample_obs\<lparr>io_call := pair_up\<rparr>\<rparr>"

lemma sample_stage_ok: "stage_ok (sample_stage chunk)"
proof -
  have "calm pair_up (sample_obs\<lparr>io_call := pair_up\<rparr>)" "io_upstream (sample_obs\<lparr>io_call := pair_up\<rparr>)"
    using sample_run_ok(1,2) by (simp_all add: calm_def)
  moreover have "mild pair_up" by (auto simp: mild_def pair_up_def is_connection_error_def split: val.splits)
  moreover have "plain y" if "y \<in> set (outputs pair_up x)" for x y
    using that by (cases x) (auto simp: outputs_def pair_up_def result_list_def split: if_splits)
  ultimately show ?thesis using sample_run_ok(4,5,8) by (simp add: stage_ok_def sample_stage_def)
qed

end
