(* ===== verification/Pipe_Bytes.thy ===== *)
theory Pipe_Bytes
  imports Pipe_Prelude "HOL-Library.Word"
begin

text \<open>
  Bytes, little-endian numbers and byte memories, shared by the ring and the payload store: writing
  and reading back, reading around a write.
\<close>

section \<open>Bytes and little-endian numbers\<close>

type_synonym byte = "8 word"
type_synonym bytes = "byte list"

fun enc_le :: "nat \<Rightarrow> nat \<Rightarrow> bytes" where
  "enc_le 0 n = []"
| "enc_le (Suc k) n = of_nat n # enc_le k (n div 256)"

fun dec_le :: "bytes \<Rightarrow> nat" where
  "dec_le [] = 0"
| "dec_le (b # bs) = unat b + 256 * dec_le bs"

lemma length_enc_le [simp]: "length (enc_le k n) = k"
  by (induction k arbitrary: n) auto

lemma dec_enc_le: "dec_le (enc_le k n) = n mod 256 ^ k"
proof (induction k arbitrary: n)
  case 0
  then show ?case by simp
next
  case (Suc k)
  have "dec_le (enc_le (Suc k) n) = n mod 256 + 256 * (n div 256 mod 256 ^ k)"
    by (simp add: Suc unat_of_nat)
  also have "\<dots> = n mod 256 ^ Suc k"
    by (simp add: mod_mult2_eq)
  finally show ?case .
qed

lemma dec_enc_le_small: "n < 256 ^ k \<Longrightarrow> dec_le (enc_le k n) = n"
  by (simp add: dec_enc_le)

section \<open>Memory\<close>

type_synonym memory = "nat \<Rightarrow> byte"

definition write_bytes :: "memory \<Rightarrow> nat \<Rightarrow> bytes \<Rightarrow> memory" where
  "write_bytes m pos bs = (\<lambda>i. if pos \<le> i \<and> i < pos + length bs then bs ! (i - pos) else m i)"

definition read_bytes :: "memory \<Rightarrow> nat \<Rightarrow> nat \<Rightarrow> bytes" where
  "read_bytes m pos n = map m [pos..<pos + n]"

lemma length_read_bytes [simp]: "length (read_bytes m pos n) = n"
  by (simp add: read_bytes_def)

lemma read_write_same [simp]: "read_bytes (write_bytes m pos bs) pos (length bs) = bs"
  by (rule nth_equalityI) (auto simp: read_bytes_def write_bytes_def)

lemma read_bytes_append: "read_bytes m pos (a + b) = read_bytes m pos a @ read_bytes m (pos + a) b"
  using upt_add_eq_append [of pos "pos + a" b] by (simp add: read_bytes_def add.assoc)

lemma read_bytes_cong:
  "(\<And>i. pos \<le> i \<Longrightarrow> i < pos + n \<Longrightarrow> m i = m' i) \<Longrightarrow> read_bytes m pos n = read_bytes m' pos n"
  by (simp add: read_bytes_def)

lemma write_bytes_outside: "i < pos \<or> pos + length bs \<le> i \<Longrightarrow> write_bytes m pos bs i = m i"
  by (auto simp: write_bytes_def)

text \<open>A write leaves alone what is read elsewhere.\<close>

lemma read_write_outside:
  "pos + n \<le> pos' \<or> pos' + length bs \<le> pos \<Longrightarrow> read_bytes (write_bytes m pos' bs) pos n = read_bytes m pos n"
  by (rule read_bytes_cong) (auto simp: write_bytes_outside)

end
