(* ===== verification/Pipe_Store.thy ===== *)
theory Pipe_Store
  imports Pipe_Bytes
begin

text \<open>
  The payload store of \<^verbatim>\<open>rust/src/store.rs\<close>: reference-counted blocks in shared segments. Regular
  segments are carved into blocks of 4 size classes per power of two and recycled through linked free
  lists; a block too big for that gets a segment of its own. A block is named by its handle (segment,
  offset, dedicated), what \<open>share()\<close> returns. This theory has the arithmetic: handles packed into
  words, and size classes. The operations on blocks are in \<open>Pipe_Blocks\<close>, what the processes of a
  pipeline can rely on in \<open>Pipe_Payload\<close>.
\<close>

unbundle bit_operations_syntax

section \<open>Handles in the free lists\<close>

text \<open>\<open>pack\<close> and \<open>unpack\<close>, on 64-bit words.\<close>

definition pack :: "nat \<Rightarrow> nat \<Rightarrow> 64 word" where
  "pack seg off = push_bit 40 (of_nat seg) OR of_nat off"

definition unpack :: "64 word \<Rightarrow> nat \<times> nat" where
  "unpack p = (unat (drop_bit 40 p), unat (p AND (push_bit 40 1 - 1)))"

lemma pack_sum:
  assumes "off < 2 ^ 40"
  shows "pack seg off = of_nat (seg * 2 ^ 40 + off)"
proof -
  have low: "\<not> bit off n" if "40 \<le> n" for n
  proof -
    have "off < 2 ^ n" using assms power_increasing [OF that, of "2::nat"] by linarith
    then show ?thesis by (simp add: bit_iff_odd)
  qed
  have "(push_bit 40 (of_nat seg) :: 64 word) AND of_nat off = 0"
    by (rule bit_word_eqI) (use low in \<open>auto simp: bit_simps\<close>)
  then have "pack seg off = push_bit 40 (of_nat seg) + of_nat off"
    unfolding pack_def by (simp add: disjunctive_add_eq_or)
  then show ?thesis by (simp add: push_bit_eq_mult)
qed

lemma unat_pack:
  assumes "seg < 2 ^ 24" and "off < 2 ^ 40"
  shows "unat (pack seg off) = seg * 2 ^ 40 + off"
proof -
  have "seg * 2 ^ 40 + off < (2 ^ 64 :: nat)" using assms by simp
  then show ?thesis unfolding pack_sum [OF assms(2)] by (subst unat_of_nat) simp
qed

lemma unpack_pack:
  assumes "seg < 2 ^ 24" and "off < 2 ^ 40"
  shows "unpack (pack seg off) = (seg, off)"
proof -
  have "unat (drop_bit 40 (pack seg off)) = drop_bit 40 (unat (pack seg off))" by (rule unat_drop_bit_eq)
  also have "\<dots> = seg" unfolding unat_pack [OF assms] using assms(2) by (simp add: drop_bit_eq_div)
  finally have high: "unat (drop_bit 40 (pack seg off)) = seg" .
  have "(push_bit 40 1 - 1 :: 64 word) = mask 40" by (simp add: mask_eq_exp_minus_1 push_bit_eq_mult)
  then have "unat (pack seg off AND (push_bit 40 1 - 1)) = unat (take_bit 40 (pack seg off))"
    by (simp only: take_bit_eq_mask)
  also have "\<dots> = take_bit 40 (unat (pack seg off))" by (rule unsigned_take_bit_eq)
  also have "\<dots> = off" unfolding unat_pack [OF assms] using assms(2) by (simp add: take_bit_eq_mod)
  finally have "unat (pack seg off AND (push_bit 40 1 - 1)) = off" .
  with high show ?thesis by (simp add: unpack_def)
qed

lemma pack_plus_1:
  assumes "seg < 2 ^ 24" and "off < 2 ^ 40 - 1"
  shows "pack seg off + 1 \<noteq> 0"
proof
  assume "pack seg off + 1 = 0"
  then have "pack seg off = - 1" by (simp add: eq_neg_iff_add_eq_0)
  then have "unat (pack seg off) = 2 ^ 64 - 1" by (simp add: unsigned_minus_1_eq_mask mask_eq_exp_minus_1)
  then show False using assms by (simp add: unat_pack)
qed

section \<open>Size classes\<close>

definition BLK_HDR :: nat where "BLK_HDR = 64"
definition MIN_BLOCK :: nat where "MIN_BLOCK = 4096"
definition NCLASS :: nat where "NCLASS = 64"
definition MAX_CLASS_BLOCK :: nat where "MAX_CLASS_BLOCK = 2 ^ 26"
definition DEDICATED_ALIGN :: nat where "DEDICATED_ALIGN = 2 ^ 16"

declare BLK_HDR_def [size_consts] MIN_BLOCK_def [size_consts] NCLASS_def [size_consts] MAX_CLASS_BLOCK_def [size_consts]
  DEDICATED_ALIGN_def [size_consts]

text \<open>\<open>u64::leading_zeros\<close>.\<close>

fun bit_len :: "nat \<Rightarrow> nat" where
  "bit_len n = (if n = 0 then 0 else Suc (bit_len (n div 2)))"

declare bit_len.simps [simp del]

definition leading_zeros :: "nat \<Rightarrow> nat" where
  "leading_zeros n = 64 - bit_len n"

definition class_of :: "nat \<Rightarrow> nat \<times> nat" where
  "class_of tot =
     (if tot \<le> MIN_BLOCK then (0, MIN_BLOCK)
      else
        let p = 63 - leading_zeros (tot - 1);
            step = 2 ^ (p - 2);
            k = (tot - 1 - 2 ^ p) div step
        in ((p - 12) * 4 + k + 1, 2 ^ p + (k + 1) * step))"

lemma bit_len_bounds: "0 < n \<Longrightarrow> 0 < bit_len n \<and> 2 ^ (bit_len n - 1) \<le> n \<and> n < 2 ^ bit_len n"
proof (induction n rule: bit_len.induct)
  case (1 n)
  show ?case
  proof (cases "n div 2 = 0")
    case True
    with 1 have "n = 1" by auto
    then show ?thesis by (simp add: bit_len.simps)
  next
    case False
    with 1 have "0 < bit_len (n div 2)" "2 ^ (bit_len (n div 2) - 1) \<le> n div 2" "n div 2 < 2 ^ bit_len (n div 2)" by auto
    moreover have "bit_len n = Suc (bit_len (n div 2))" using "1.prems" by (simp add: bit_len.simps [of n])
    moreover have "2 ^ bit_len (n div 2) = 2 * (2 :: nat) ^ (bit_len (n div 2) - 1)"
      using calculation(1) by (simp flip: power_Suc)
    ultimately show ?thesis by (simp del: One_nat_def) linarith
  qed
qed

lemma power_quarter: "2 \<le> p \<Longrightarrow> (2 :: nat) ^ p = 4 * 2 ^ (p - 2)"
  using le_Suc_ex [of 2 p] by (auto simp: power_add)

text \<open>The power of two below a size, and the quarter of it.\<close>

lemma class_of_big:
  assumes "MIN_BLOCK < tot" and "tot < 2 ^ 64"
  obtains p k where "12 \<le> p" and "p < 64" and "k < 4" and "2 ^ p < tot" and "tot \<le> 2 ^ Suc p"
    and "class_of tot = ((p - 12) * 4 + k + 1, 2 ^ p + (k + 1) * 2 ^ (p - 2))"
    and "2 ^ p + k * 2 ^ (p - 2) < tot" and "tot \<le> 2 ^ p + (k + 1) * 2 ^ (p - 2)"
proof -
  define n where "n = tot - 1"
  have n: "4096 \<le> n" "n < 2 ^ 64" "tot = Suc n" using assms by (auto simp: n_def MIN_BLOCK_def)
  define p where "p = bit_len n - 1"
  have b: "0 < bit_len n" "2 ^ p \<le> n" "n < 2 ^ bit_len n" using bit_len_bounds [of n] n by (auto simp: p_def)
  have bl: "bit_len n = Suc p" using b(1) by (simp add: p_def)
  have p12: "12 \<le> p"
  proof (rule ccontr)
    assume "\<not> 12 \<le> p"
    then have "(2::nat) ^ Suc p \<le> 2 ^ 12" by (intro power_increasing) auto
    then show False using n(1) b(3) bl by simp
  qed
  have p64: "p < 64"
  proof (rule ccontr)
    assume "\<not> p < 64"
    then have "(2::nat) ^ 64 \<le> 2 ^ p" by (intro power_increasing) auto
    then show False using n(2) b(2) by linarith
  qed
  have lz: "63 - leading_zeros (tot - 1) = p" using bl p64 by (simp add: leading_zeros_def n_def)
  define q :: nat where "q = 2 ^ (p - 2)"
  have four: "2 ^ p = 4 * q" using power_quarter [of p] p12 by (simp add: q_def)
  have q: "0 < q" by (simp add: q_def)
  define k where "k = (n - 2 ^ p) div q"
  have "n < 8 * q" using b(3) bl four by simp
  then have k4: "k < 4" using four q by (simp add: k_def div_less_iff_less_mult)
  have "k * q \<le> n - 2 ^ p" "n - 2 ^ p < (k + 1) * q"
    using q by (auto simp: k_def) (metis Suc_eq_plus1 dividend_less_div_times mult.commute mult_Suc)
  then have kb: "2 ^ p + k * q < tot" "tot \<le> 2 ^ p + (k + 1) * q" using b(2) n(3) by auto
  have c: "class_of tot = ((p - 12) * 4 + k + 1, 2 ^ p + (k + 1) * 2 ^ (p - 2))"
    using assms(1) lz by (simp add: class_of_def Let_def k_def n_def q_def)
  show thesis
    using that [OF p12 p64 k4 _ _ c] kb b n bl by (simp add: q_def)
qed

text \<open>The size of a class; a class determines the size of its blocks, so a recycled block is big enough.\<close>

definition class_size :: "nat \<Rightarrow> nat" where
  "class_size c =
     (if c = 0 then MIN_BLOCK
      else let p = 12 + (c - 1) div 4; k = (c - 1) mod 4 in 2 ^ p + (k + 1) * 2 ^ (p - 2))"

lemma class_of_size: "tot < 2 ^ 64 \<Longrightarrow> snd (class_of tot) = class_size (fst (class_of tot))"
proof (cases "tot \<le> MIN_BLOCK")
  case True
  then show ?thesis by (simp add: class_of_def class_size_def)
next
  case False
  assume "tot < 2 ^ 64"
  with False obtain p k where pk: "12 \<le> p" "k < 4" "class_of tot = ((p - 12) * 4 + k + 1, 2 ^ p + (k + 1) * 2 ^ (p - 2))"
    using class_of_big [of tot] by (metis not_le)
  then have "((p - 12) * 4 + k + 1 - 1) div 4 = p - 12" "((p - 12) * 4 + k + 1 - 1) mod 4 = k" by auto
  with pk show ?thesis by (simp add: class_size_def Let_def)
qed

lemma class_of_room: "tot < 2 ^ 64 \<Longrightarrow> tot \<le> snd (class_of tot)"
proof (cases "tot \<le> MIN_BLOCK")
  case False
  assume "tot < 2 ^ 64"
  with False show ?thesis using class_of_big [of tot] by (metis not_le snd_conv)
qed (simp add: class_of_def)

lemma class_of_NCLASS: "tot \<le> MAX_CLASS_BLOCK \<Longrightarrow> fst (class_of tot) < NCLASS"
proof (cases "tot \<le> MIN_BLOCK")
  case False
  assume m: "tot \<le> MAX_CLASS_BLOCK"
  then have lt: "tot < 2 ^ 64" by (simp add: MAX_CLASS_BLOCK_def)
  with False obtain p k where pk: "12 \<le> p" "k < 4" "2 ^ p < tot" "class_of tot = ((p - 12) * 4 + k + 1, 2 ^ p + (k + 1) * 2 ^ (p - 2))"
    using class_of_big [OF _ lt] by (metis not_le)
  have "(2 :: nat) ^ p < 2 ^ 26" using pk(3) m by (simp add: MAX_CLASS_BLOCK_def)
  then have "p < 26" by (rule power_less_imp_less_exp [rotated]) simp
  then show ?thesis using pk by (simp add: NCLASS_def)
qed (simp add: class_of_def NCLASS_def)

lemma class_size_min: "MIN_BLOCK \<le> class_size c"
proof (cases "c = 0")
  case False
  have "(2 :: nat) ^ 12 \<le> 2 ^ (12 + (c - 1) div 4)" by (rule power_increasing) auto
  with False show ?thesis by (simp add: class_size_def MIN_BLOCK_def Let_def)
qed (simp add: class_size_def)

lemma class_of_waste:
  assumes "MIN_BLOCK < tot" and "tot < 2 ^ 64"
  shows "4 * (snd (class_of tot) - tot) < tot"
proof (rule class_of_big [OF assms])
  fix p k :: nat
  assume pk: "12 \<le> p" "2 ^ p < tot" "class_of tot = ((p - 12) * 4 + k + 1, 2 ^ p + (k + 1) * 2 ^ (p - 2))"
    "2 ^ p + k * 2 ^ (p - 2) < tot"
  have "(2 :: nat) ^ p = 4 * 2 ^ (p - 2)" using power_quarter [of p] pk(1) by simp
  with pk show ?thesis by (simp add: algebra_simps)
qed

text \<open>
  A block of any size gets a class that fits it: the block is large enough, wastes less than a
  quarter of the request (or is the smallest block), blocks of one class all have one size, so that a
  recycled block fits whatever is asked of its class, and every class of a regular block is within the
  table of free lists.
\<close>

theorem size_class_fits:
  assumes "tot < 2 ^ 64"
  shows "tot \<le> snd (class_of tot) \<and> (MIN_BLOCK < tot \<longrightarrow> 4 * (snd (class_of tot) - tot) < tot)
    \<and> snd (class_of tot) = class_size (fst (class_of tot))
    \<and> (tot \<le> MAX_CLASS_BLOCK \<longrightarrow> fst (class_of tot) < NCLASS)"
  using class_of_waste class_of_room class_of_size class_of_NCLASS assms by blast

theorem size_class_fits_witness: "5000 \<le> snd (class_of 5000) \<and> snd (class_of 5000) = class_size (fst (class_of 5000))"
  using size_class_fits [of 5000] by simp

text \<open>
  A handle survives its free list: packing a segment and an offset into one word, adding one, and
  taking it apart again gives both back, and the packed word is never the end mark 0.
\<close>

theorem handle_roundtrip:
  assumes "seg < 2 ^ 24" and "off < 2 ^ 40 - 1"
  shows "unpack ((pack seg off + 1) - 1) = (seg, off) \<and> pack seg off + 1 \<noteq> 0"
  using unpack_pack [of seg off] pack_plus_1 [OF assms] assms by simp

theorem handle_roundtrip_witness: "unpack ((pack 3 4096 + 1) - 1) = (3, 4096) \<and> pack 3 4096 + 1 \<noteq> 0"
  using handle_roundtrip [of 3 4096] by simp

end
