(* ===== verification/Pipe_Blocks.thy ===== *)
theory Pipe_Blocks
  imports Pipe_Store
begin

text \<open>
  The blocks of the payload store: \<open>Store.alloc\<close>, \<open>Store.adopt\<close>, \<open>Block.share\<close> and dropping a
  \<open>Block\<close> (\<^verbatim>\<open>rust/src/store.rs\<close>), with the free lists as the linked lists they are. Each operation is
  atomic. What the pipeline relies on is stated as a locale, \<open>payload_store\<close>, over the multiset of
  references that are held or on their way; the store's model interprets it.
\<close>

section \<open>State\<close>

type_synonym handle = "nat \<times> nat \<times> bool"

text \<open>The header of a block and the control segment; mapped segments are byte memories.\<close>

record hdr =
  h_rc :: nat
  h_class :: nat
  h_len :: nat
  h_next :: "64 word"

record store =
  ps_limit :: nat
  ps_seg_bytes :: nat
  ps_nreg :: nat
  ps_nded :: nat
  ps_cur :: "nat option"
  ps_bump :: nat
  ps_used :: nat
  ps_free :: "nat \<Rightarrow> 64 word"
  ps_hdr :: "handle \<rightharpoonup> hdr"
  ps_dlen :: "nat \<Rightarrow> nat"
  ps_mem :: "nat \<times> bool \<Rightarrow> memory"

definition round_up :: "nat \<Rightarrow> nat \<Rightarrow> nat" where
  "round_up n a = (n + a - 1) div a * a"

definition store_new :: "nat \<Rightarrow> nat \<Rightarrow> store" where
  "store_new limit_bytes seg_bytes =
     \<lparr>ps_limit = limit_bytes, ps_seg_bytes = round_up (max seg_bytes (MIN_BLOCK * 16)) DEDICATED_ALIGN,
      ps_nreg = 0, ps_nded = 0, ps_cur = None, ps_bump = 0, ps_used = 0, ps_free = (\<lambda>_. 0), ps_hdr = Map.empty,
      ps_dlen = (\<lambda>_. 0), ps_mem = (\<lambda>_ _. 0)\<rparr>"

definition max_class_block :: "store \<Rightarrow> nat" where
  "max_class_block st = min MAX_CLASS_BLOCK (ps_seg_bytes st div 4)"

section \<open>Operations\<close>

text \<open>\<open>shm_ok\<close> says whether the operating system grants a new segment.\<close>

definition alloc_dedicated :: "bool \<Rightarrow> nat \<Rightarrow> store \<Rightarrow> store \<times> handle option" where
  "alloc_dedicated shm_ok nbytes st =
     (let sz = round_up (BLK_HDR + nbytes) DEDICATED_ALIGN in
      if ps_limit st < ps_used st + sz then (st, None)
      else
        let i = ps_nded st; st1 = st\<lparr>ps_nded := Suc i\<rparr> in
        if \<not> shm_ok then (st1, None)
        else (st1\<lparr>ps_used := ps_used st + sz, ps_dlen := (ps_dlen st)(i := sz),
                 ps_hdr := (ps_hdr st)((i, 0, True) \<mapsto> \<lparr>h_rc = 1, h_class = 2 ^ 32 - 1, h_len = nbytes, h_next = 0\<rparr>)\<rparr>,
              Some (i, 0, True)))"

text \<open>The part under the lock: a recycled block, the next part of the current segment, or a new segment.\<close>

definition take_block :: "bool \<Rightarrow> nat \<Rightarrow> nat \<Rightarrow> store \<Rightarrow> store \<times> (nat \<times> nat) option" where
  "take_block shm_ok cls sz st =
     (if ps_free st cls \<noteq> 0 then
        (case unpack (ps_free st cls - 1) of (seg, off) \<Rightarrow>
          case ps_hdr st (seg, off, False) of
            None \<Rightarrow> (st, None)
          | Some h \<Rightarrow> (st\<lparr>ps_free := (ps_free st)(cls := h_next h)\<rparr>, Some (seg, off)))
      else
        case (case ps_cur st of Some c \<Rightarrow> if ps_bump st + sz \<le> ps_seg_bytes st then Some c else None | None \<Rightarrow> None) of
          Some c \<Rightarrow> (st\<lparr>ps_bump := ps_bump st + sz\<rparr>, Some (c, ps_bump st))
        | None \<Rightarrow>
            if ps_limit st < ps_used st + ps_seg_bytes st then (st, None)
            else if \<not> shm_ok then (st, None)
            else let i = ps_nreg st in
              (st\<lparr>ps_nreg := Suc i, ps_used := ps_used st + ps_seg_bytes st, ps_cur := Some i, ps_bump := sz\<rparr>, Some (i, 0)))"

definition init_hdr :: "nat \<Rightarrow> nat \<Rightarrow> hdr option \<Rightarrow> hdr" where
  "init_hdr cls nbytes old = \<lparr>h_rc = 1, h_class = cls, h_len = nbytes, h_next = (case old of Some h \<Rightarrow> h_next h | None \<Rightarrow> 0)\<rparr>"

lemma init_hdr_sel [simp]:
  "h_rc (init_hdr cls nbytes old) = 1" "h_class (init_hdr cls nbytes old) = cls" "h_len (init_hdr cls nbytes old) = nbytes"
  by (simp_all add: init_hdr_def)

definition alloc :: "bool \<Rightarrow> nat \<Rightarrow> store \<Rightarrow> store \<times> handle option" where
  "alloc shm_ok nbytes st =
     (if max_class_block st < BLK_HDR + nbytes then alloc_dedicated shm_ok nbytes st
      else
        case class_of (BLK_HDR + nbytes) of (cls, sz) \<Rightarrow>
          case take_block shm_ok cls sz st of
            (st1, None) \<Rightarrow> (st1, None)
          | (st1, Some (seg, off)) \<Rightarrow>
              (st1\<lparr>ps_hdr := (ps_hdr st1)((seg, off, False) \<mapsto> init_hdr cls nbytes (ps_hdr st1 (seg, off, False)))\<rparr>,
               Some (seg, off, False)))"

definition share :: "handle \<Rightarrow> store \<Rightarrow> store" where
  "share a st =
     (case ps_hdr st a of None \<Rightarrow> st | Some h \<Rightarrow> st\<lparr>ps_hdr := (ps_hdr st)(a \<mapsto> h\<lparr>h_rc := Suc (h_rc h)\<rparr>)\<rparr>)"

text \<open>\<open>adopt\<close> checks that the handle lies inside its segment; the count is already right.\<close>

definition adopt :: "handle \<Rightarrow> store \<Rightarrow> exn + handle" where
  "adopt a st =
     (case a of (seg, off, dedicated) \<Rightarrow>
        if (if dedicated then ps_dlen st seg else ps_seg_bytes st) < off + BLK_HDR then Inl ValueE else Inr a)"

definition drop_block :: "handle \<Rightarrow> store \<Rightarrow> store" where
  "drop_block a st =
     (case (a, ps_hdr st a) of
        (_, None) \<Rightarrow> st
      | ((seg, off, dedicated), Some h) \<Rightarrow>
          if h_rc h \<noteq> 1 then st\<lparr>ps_hdr := (ps_hdr st)(a \<mapsto> h\<lparr>h_rc := h_rc h - 1\<rparr>)\<rparr>
          else if dedicated then st\<lparr>ps_hdr := (ps_hdr st)(a := None), ps_used := ps_used st - ps_dlen st seg\<rparr>
          else st\<lparr>ps_hdr := (ps_hdr st)(a \<mapsto> h\<lparr>h_rc := 0, h_next := ps_free st (h_class h)\<rparr>),
                  ps_free := (ps_free st)(h_class h := pack seg off + 1)\<rparr>)"

text \<open>The payload of a block, through the buffer protocol.\<close>

definition block_bytes :: "store \<Rightarrow> handle \<Rightarrow> bytes" where
  "block_bytes st a =
     (case (a, ps_hdr st a) of
        (_, None) \<Rightarrow> []
      | ((seg, off, dedicated), Some h) \<Rightarrow> read_bytes (ps_mem st (seg, dedicated)) (off + BLK_HDR) (h_len h))"

definition fill_block :: "handle \<Rightarrow> bytes \<Rightarrow> store \<Rightarrow> store" where
  "fill_block a data st =
     (case a of (seg, off, dedicated) \<Rightarrow>
        st\<lparr>ps_mem := (ps_mem st)((seg, dedicated) := write_bytes (ps_mem st (seg, dedicated)) (off + BLK_HDR) data)\<rparr>)"

text \<open>\<open>shmstore.alloc_bytes\<close>: a block holding a copy of the data, or none if the store is full.\<close>

definition alloc_bytes :: "bool \<Rightarrow> bytes \<Rightarrow> store \<Rightarrow> store \<times> handle option" where
  "alloc_bytes shm_ok data st =
     (case alloc shm_ok (length data) st of
        (st1, None) \<Rightarrow> (st1, None)
      | (st1, Some a) \<Rightarrow> (fill_block a data st1, Some a))"

declare alloc_dedicated_def [store_ops] take_block_def [store_ops] alloc_def [store_ops] share_def [store_ops]
  drop_block_def [store_ops] fill_block_def [store_ops] alloc_bytes_def [store_ops]

section \<open>The invariant\<close>

fun free_chain :: "(handle \<rightharpoonup> hdr) \<Rightarrow> 64 word \<Rightarrow> (nat \<times> nat) list \<Rightarrow> bool" where
  "free_chain H p [] \<longleftrightarrow> p = 0"
| "free_chain H p ((seg, off) # bs) \<longleftrightarrow>
     p = pack seg off + 1 \<and> (case H (seg, off, False) of None \<Rightarrow> False | Some h \<Rightarrow> free_chain H (h_next h) bs)"

text \<open>Where the blocks lie.\<close>

definition carve_ok :: "store \<Rightarrow> bool" where
  "carve_ok st \<longleftrightarrow>
     (\<forall>s x h. ps_hdr st (s, x, False) = Some h \<longrightarrow>
        s < ps_nreg st \<and> x + class_size (h_class h) \<le> ps_seg_bytes st \<and> BLK_HDR + h_len h \<le> class_size (h_class h)
        \<and> (ps_cur st = Some s \<longrightarrow> x + class_size (h_class h) \<le> ps_bump st))
     \<and> (\<forall>c. ps_cur st = Some c \<longrightarrow> c < ps_nreg st \<and> ps_bump st \<le> ps_seg_bytes st)"

definition apart :: "store \<Rightarrow> bool" where
  "apart st \<longleftrightarrow> (\<forall>s x h x' h'. ps_hdr st (s, x, False) = Some h \<and> ps_hdr st (s, x', False) = Some h' \<and> x < x' \<longrightarrow>
     x + class_size (h_class h) \<le> x')"

text \<open>The references, the free lists, the dedicated segments and the bytes used.\<close>

definition counted :: "store \<Rightarrow> handle multiset \<Rightarrow> bool" where
  "counted st R \<longleftrightarrow> (\<forall>a. count R a = (case ps_hdr st a of None \<Rightarrow> 0 | Some h \<Rightarrow> h_rc h))"

definition free_blocks :: "store \<Rightarrow> nat \<Rightarrow> (nat \<times> nat) set" where
  "free_blocks st c = {(s, x). \<exists>h. ps_hdr st (s, x, False) = Some h \<and> h_rc h = 0 \<and> h_class h = c}"

definition lists_ok :: "store \<Rightarrow> bool" where
  "lists_ok st \<longleftrightarrow> (\<forall>c. \<exists>bs. free_chain (ps_hdr st) (ps_free st c) bs \<and> distinct bs \<and> set bs = free_blocks st c)"

definition dedicated_ids :: "store \<Rightarrow> nat set" where
  "dedicated_ids st = {i. (i, 0, True) \<in> dom (ps_hdr st)}"

definition dedicated_ok :: "store \<Rightarrow> bool" where
  "dedicated_ok st \<longleftrightarrow> finite (dedicated_ids st) \<and> (\<forall>i x h. ps_hdr st (i, x, True) = Some h \<longrightarrow>
     x = 0 \<and> i < ps_nded st \<and> 0 < h_rc h \<and> BLK_HDR + h_len h \<le> ps_dlen st i)"

definition accounted :: "store \<Rightarrow> bool" where
  "accounted st \<longleftrightarrow> ps_used st = ps_nreg st * ps_seg_bytes st + sum (ps_dlen st) (dedicated_ids st)
     \<and> ps_used st \<le> ps_limit st \<and> ps_limit st \<le> 2 ^ 40 \<and> 2 ^ 16 \<le> ps_seg_bytes st"

definition store_inv :: "store \<Rightarrow> handle multiset \<Rightarrow> bool" where
  "store_inv st R \<longleftrightarrow> carve_ok st \<and> apart st \<and> counted st R \<and> lists_ok st \<and> dedicated_ok st \<and> accounted st"

lemmas store_inv_defs = store_inv_def carve_ok_def apart_def counted_def dedicated_ok_def accounted_def

lemma round_up_ge: "0 < a \<Longrightarrow> n \<le> round_up n a"
proof -
  assume a: "0 < a"
  have "n + a - 1 = (n + a - 1) div a * a + (n + a - 1) mod a" by simp
  moreover have "(n + a - 1) mod a < a" using a by simp
  ultimately show ?thesis unfolding round_up_def using a by linarith
qed

lemma store_new_inv:
  assumes "limit_bytes \<le> 2 ^ 40"
  shows "store_inv (store_new limit_bytes seg_bytes) {#}"
proof -
  have "2 ^ 16 \<le> round_up (max seg_bytes (MIN_BLOCK * 16)) DEDICATED_ALIGN"
    using round_up_ge [of DEDICATED_ALIGN "max seg_bytes (MIN_BLOCK * 16)"] by (simp add: DEDICATED_ALIGN_def MIN_BLOCK_def)
  moreover have "lists_ok (store_new limit_bytes seg_bytes)"
    unfolding lists_ok_def by (intro allI exI [of _ "[]"]) (simp add: store_new_def free_blocks_def)
  ultimately show ?thesis using assms by (simp add: store_inv_defs store_new_def dedicated_ids_def)
qed

text \<open>A segment and an offset of a block fit into a packed handle.\<close>

lemma block_packs:
  assumes "store_inv st R" and "ps_hdr st (s, x, False) = Some h"
  shows "s < 2 ^ 24" "x < 2 ^ 40 - 1"
proof -
  have a: "accounted st" "carve_ok st" using assms(1) by (auto simp: store_inv_def)
  have s: "s < ps_nreg st" "x + class_size (h_class h) \<le> ps_seg_bytes st" using a(2) assms(2) by (auto simp: carve_ok_def)
  have used: "ps_nreg st * ps_seg_bytes st \<le> 2 ^ 40" using a(1) unfolding accounted_def by linarith
  have "ps_nreg st * 2 ^ 16 \<le> ps_nreg st * ps_seg_bytes st"
    by (rule mult_le_mono2) (use a(1) in \<open>simp only: accounted_def\<close>)
  with used have "ps_nreg st * 2 ^ 16 \<le> 2 ^ 40" by (rule le_trans [rotated])
  also have "(2 :: nat) ^ 40 = 2 ^ 24 * 2 ^ 16" by (simp only: power_add [symmetric]) simp
  finally have "ps_nreg st \<le> 2 ^ 24" by (rule mult_right_le_imp_le) (rule zero_less_power, simp)
  with s show "s < 2 ^ 24" by linarith
  have "ps_seg_bytes st \<le> ps_nreg st * ps_seg_bytes st" using s(1) by simp
  then have "x + class_size (h_class h) \<le> 2 ^ 40" using used s(2) by linarith
  then show "x < 2 ^ 40 - 1" using class_size_min [of "h_class h"] by (simp add: MIN_BLOCK_def)
qed

lemma free_chain_cong:
  "(\<And>s x. (s, x) \<in> set bs \<Longrightarrow> map_option h_next (H (s, x, False)) = map_option h_next (H' (s, x, False))) \<Longrightarrow>
   free_chain H p bs \<longleftrightarrow> free_chain H' p bs"
proof (induction bs arbitrary: p)
  case (Cons b bs)
  obtain s x where b: "b = (s, x)" by force
  have e: "map_option h_next (H (s, x, False)) = map_option h_next (H' (s, x, False))" using Cons.prems [of s x] b by simp
  have "free_chain H q bs \<longleftrightarrow> free_chain H' q bs" for q using Cons.prems by (intro Cons.IH) simp
  with e b show ?case by (cases "H (s, x, False)"; cases "H' (s, x, False)") simp_all
qed simp

lemma free_chain_upd: "(s, x) \<notin> set bs \<Longrightarrow> free_chain (H((s, x, False) := v)) p bs = free_chain H p bs"
  by (rule free_chain_cong) auto

lemma free_chain_dedicated: "free_chain (H((s, x, True) := v)) p bs = free_chain H p bs"
  by (rule free_chain_cong) auto

section \<open>The invariant is kept\<close>

lemma carve_ok_upd:
  assumes "carve_ok st" and "ps_hdr st a = Some h" and "h_class h' = h_class h"
    and "\<not> snd (snd a) \<Longrightarrow> BLK_HDR + h_len h' \<le> class_size (h_class h)"
  shows "carve_ok (st\<lparr>ps_hdr := (ps_hdr st)(a \<mapsto> h')\<rparr>)"
  using assms unfolding carve_ok_def by (auto split: if_splits)

lemma apart_upd:
  assumes "apart st" and "ps_hdr st a = Some h" and "h_class h' = h_class h"
  shows "apart (st\<lparr>ps_hdr := (ps_hdr st)(a \<mapsto> h')\<rparr>)"
  unfolding apart_def
proof (intro allI impI, elim conjE)
  fix s x g x' g'
  assume *: "ps_hdr (st\<lparr>ps_hdr := (ps_hdr st)(a \<mapsto> h')\<rparr>) (s, x, False) = Some g"
    "ps_hdr (st\<lparr>ps_hdr := (ps_hdr st)(a \<mapsto> h')\<rparr>) (s, x', False) = Some g'" "x < x'"
  obtain k where k: "ps_hdr st (s, x, False) = Some k" "h_class k = h_class g"
    using * assms(2,3) by (cases "a = (s, x, False)") auto
  obtain k' where "ps_hdr st (s, x', False) = Some k'"
    using * assms(2,3) by (cases "a = (s, x', False)") auto
  then have "x + class_size (h_class k) \<le> x'" using assms(1) k(1) *(3) unfolding apart_def by blast
  then show "x + class_size (h_class g) \<le> x'" using k(2) by simp
qed

lemma dedicated_ids_upd:
  "ps_hdr st a = Some h \<Longrightarrow> dedicated_ids (st\<lparr>ps_hdr := (ps_hdr st)(a \<mapsto> h')\<rparr>) = dedicated_ids st"
  by (auto simp: dedicated_ids_def)

text \<open>Changing a count between two positive values.\<close>

lemma rc_update:
  assumes inv: "store_inv st R" and a: "ps_hdr st a = Some h" "0 < h_rc h" "0 < n"
    and R': "\<And>b. count R' b = (if b = a then n else count R b)"
  shows "store_inv (st\<lparr>ps_hdr := (ps_hdr st)(a \<mapsto> h\<lparr>h_rc := n\<rparr>)\<rparr>) R'"
proof -
  let ?st = "st\<lparr>ps_hdr := (ps_hdr st)(a \<mapsto> h\<lparr>h_rc := n\<rparr>)\<rparr>"
  have i: "carve_ok st" "apart st" "counted st R" "lists_ok st" "dedicated_ok st" "accounted st"
    using inv by (auto simp: store_inv_def)
  have len: "BLK_HDR + h_len (h\<lparr>h_rc := n\<rparr>) \<le> class_size (h_class h)" if "\<not> snd (snd a)"
    using that i(1) a(1) unfolding carve_ok_def by (cases a) auto
  have "carve_ok ?st" by (rule carve_ok_upd [OF i(1) a(1) _ len]) simp_all
  moreover have "apart ?st" by (rule apart_upd [OF i(2) a(1)]) simp
  moreover have "counted ?st R'" using i(3) R' by (simp add: counted_def)
  moreover have "lists_ok ?st"
    unfolding lists_ok_def
  proof
    fix c
    obtain bs where bs: "free_chain (ps_hdr st) (ps_free st c) bs" "distinct bs" "set bs = free_blocks st c"
      using i(4) unfolding lists_ok_def by blast
    have "free_chain (ps_hdr st) (ps_free st c) bs \<longleftrightarrow> free_chain (ps_hdr ?st) (ps_free st c) bs"
      by (rule free_chain_cong) (use a(1) in auto)
    moreover have "free_blocks ?st c = free_blocks st c" using a by (auto simp: free_blocks_def)
    ultimately show "\<exists>bs. free_chain (ps_hdr ?st) (ps_free ?st c) bs \<and> distinct bs \<and> set bs = free_blocks ?st c"
      using bs by (intro exI [of _ bs]) simp
  qed
  moreover have "dedicated_ok ?st"
    using i(5) a unfolding dedicated_ok_def dedicated_ids_upd [OF a(1)] by (auto split: if_splits)
  moreover have "accounted ?st"
    using i(6) unfolding accounted_def dedicated_ids_upd [OF a(1)] by simp
  ultimately show ?thesis by (simp add: store_inv_def)
qed

lemma held_header:
  assumes "store_inv st R" and "a \<in># R"
  obtains h where "ps_hdr st a = Some h" and "0 < h_rc h" and "h_rc h = count R a"
proof -
  have c: "count R a = (case ps_hdr st a of None \<Rightarrow> 0 | Some h \<Rightarrow> h_rc h)" "0 < count R a"
    using assms unfolding store_inv_def counted_def by blast (use assms(2) in simp)
  then obtain h where h: "ps_hdr st a = Some h" by (cases "ps_hdr st a") auto
  show thesis by (rule that [OF h]) (use c h in auto)
qed

lemma share_inv:
  assumes "store_inv st R" and "a \<in># R"
  shows "store_inv (share a st) (add_mset a R)"
proof -
  obtain h where h: "ps_hdr st a = Some h" "0 < h_rc h" "h_rc h = count R a" using held_header [OF assms] .
  then have "store_inv (st\<lparr>ps_hdr := (ps_hdr st)(a \<mapsto> h\<lparr>h_rc := Suc (h_rc h)\<rparr>)\<rparr>) (add_mset a R)"
    by (intro rc_update [OF assms(1) h(1)]) auto
  then show ?thesis by (simp add: share_def h(1))
qed


lemma lists_okE:
  assumes "lists_ok st"
  obtains bs where "free_chain (ps_hdr st) (ps_free st c) bs" and "distinct bs" and "set bs = free_blocks st c"
  using assms unfolding lists_ok_def by blast

text \<open>A block that leaves its free list, or never was in one, and one that joins it.\<close>

lemma release_inv:
  assumes inv: "store_inv st R" and a: "ps_hdr st (s, x, False) = Some h" "h_rc h = 1"
  shows "store_inv (st\<lparr>ps_hdr := (ps_hdr st)((s, x, False) \<mapsto> h\<lparr>h_rc := 0, h_next := ps_free st (h_class h)\<rparr>),
                       ps_free := (ps_free st)(h_class h := pack s x + 1)\<rparr>) (R - {#(s, x, False)#})"
proof -
  let ?h = "h\<lparr>h_rc := 0, h_next := ps_free st (h_class h)\<rparr>"
  let ?st1 = "st\<lparr>ps_hdr := (ps_hdr st)((s, x, False) \<mapsto> ?h)\<rparr>"
  let ?st = "st\<lparr>ps_hdr := (ps_hdr st)((s, x, False) \<mapsto> ?h), ps_free := (ps_free st)(h_class h := pack s x + 1)\<rparr>"
  have i: "carve_ok st" "apart st" "counted st R" "lists_ok st" "dedicated_ok st" "accounted st"
    using inv by (auto simp: store_inv_def)
  have "BLK_HDR + h_len ?h \<le> class_size (h_class h)" using i(1) a(1) unfolding carve_ok_def by auto
  then have "carve_ok ?st1" by (intro carve_ok_upd [OF i(1) a(1)]) auto
  then have "carve_ok ?st" by (simp add: carve_ok_def)
  moreover have "apart ?st1" by (rule apart_upd [OF i(2) a(1)]) simp
  then have "apart ?st" by (simp add: apart_def)
  moreover have "counted ?st (R - {#(s, x, False)#})" using i(3) a by (auto simp: counted_def)
  moreover have "lists_ok ?st"
    unfolding lists_ok_def
  proof
    fix c
    obtain bs where bs: "free_chain (ps_hdr st) (ps_free st c) bs" "distinct bs" "set bs = free_blocks st c"
      using lists_okE [OF i(4)] .
    have notin: "(s, x) \<notin> set bs" using bs(3) a by (auto simp: free_blocks_def)
    have chain: "free_chain (ps_hdr ?st) (ps_free st c) bs"
      using bs(1) notin by (simp add: free_chain_upd)
    show "\<exists>bs. free_chain (ps_hdr ?st) (ps_free ?st c) bs \<and> distinct bs \<and> set bs = free_blocks ?st c"
    proof (cases "c = h_class h")
      case True
      have "free_blocks ?st c = insert (s, x) (free_blocks st c)" using True a by (auto simp: free_blocks_def)
      then show ?thesis using True bs notin chain by (intro exI [of _ "(s, x) # bs"]) simp
    next
      case False
      then have "free_blocks ?st c = free_blocks st c" using a by (auto simp: free_blocks_def)
      then show ?thesis using False bs chain by (intro exI [of _ bs]) simp
    qed
  qed
  moreover have "dedicated_ids ?st = dedicated_ids st" by (auto simp: dedicated_ids_def)
  then have "dedicated_ok ?st" "accounted ?st" using i(5,6) by (auto simp: dedicated_ok_def accounted_def)
  ultimately show ?thesis by (simp add: store_inv_def)
qed

lemma unlink_inv:
  assumes inv: "store_inv st R" and a: "ps_hdr st (i, x, True) = Some h" "h_rc h = 1"
  shows "store_inv (st\<lparr>ps_hdr := (ps_hdr st)((i, x, True) := None), ps_used := ps_used st - ps_dlen st i\<rparr>)
           (R - {#(i, x, True)#})"
proof -
  let ?st = "st\<lparr>ps_hdr := (ps_hdr st)((i, x, True) := None), ps_used := ps_used st - ps_dlen st i\<rparr>"
  have i: "carve_ok st" "apart st" "counted st R" "lists_ok st" "dedicated_ok st" "accounted st"
    using inv by (auto simp: store_inv_def)
  have x: "x = 0" "finite (dedicated_ids st)" using i(5) a(1) unfolding dedicated_ok_def by blast+
  have "carve_ok ?st" using i(1) by (simp add: carve_ok_def)
  moreover have "apart ?st" using i(2) by (simp add: apart_def)
  moreover have "counted ?st (R - {#(i, x, True)#})" using i(3) a by (auto simp: counted_def)
  moreover have "lists_ok ?st"
    unfolding lists_ok_def
  proof
    fix c
    obtain bs where bs: "free_chain (ps_hdr st) (ps_free st c) bs" "distinct bs" "set bs = free_blocks st c"
      using lists_okE [OF i(4)] .
    have "free_chain (ps_hdr ?st) (ps_free st c) bs"
      using bs(1) by (simp add: free_chain_dedicated)
    moreover have "free_blocks ?st c = free_blocks st c" by (auto simp: free_blocks_def)
    ultimately show "\<exists>bs. free_chain (ps_hdr ?st) (ps_free ?st c) bs \<and> distinct bs \<and> set bs = free_blocks ?st c"
      using bs by (intro exI [of _ bs]) simp
  qed
  moreover have ids: "dedicated_ids ?st = dedicated_ids st - {i}" "i \<in> dedicated_ids st"
    using x a(1) by (auto simp: dedicated_ids_def)
  then have "dedicated_ok ?st" using i(5) by (auto simp: dedicated_ok_def split: if_splits)
  moreover have "sum (ps_dlen st) (dedicated_ids st) = ps_dlen st i + sum (ps_dlen st) (dedicated_ids st - {i})"
    by (rule sum.remove [OF x(2) ids(2)])
  then have "accounted ?st" using i(6) ids by (simp add: accounted_def)
  ultimately show ?thesis by (simp add: store_inv_def)
qed

lemma drop_inv:
  assumes inv: "store_inv st R" and a: "a \<in># R"
  shows "store_inv (drop_block a st) (R - {#a#})"
proof -
  obtain h where h: "ps_hdr st a = Some h" "0 < h_rc h" "h_rc h = count R a" using held_header [OF inv a] .
  obtain s x d where a_eq: "a = (s, x, d)" by (cases a)
  consider "h_rc h \<noteq> 1" | "h_rc h = 1" d | "h_rc h = 1" "\<not> d" by blast
  then show ?thesis
  proof cases
    case 1
    have "store_inv (st\<lparr>ps_hdr := (ps_hdr st)(a \<mapsto> h\<lparr>h_rc := h_rc h - 1\<rparr>)\<rparr>) (R - {#a#})"
      by (rule rc_update [OF inv h(1,2)]) (use 1 h in \<open>simp_all add: neq0_conv [symmetric] del: neq0_conv\<close>)
    with 1 h(1) show ?thesis by (simp add: drop_block_def a_eq)
  next
    case 2
    with unlink_inv [of st R s x h] inv h a_eq show ?thesis by (simp add: drop_block_def)
  next
    case 3
    with release_inv [of st R s x h] inv h a_eq show ?thesis by (simp add: drop_block_def)
  qed
qed


text \<open>A new block: recycled, carved off the current segment, first of a new segment, or on its own.\<close>

lemma recycle_inv:
  assumes inv: "store_inv st R" and f: "ps_free st cls \<noteq> 0" and room: "BLK_HDR + nbytes \<le> class_size cls"
  obtains s x h where "unpack (ps_free st cls - 1) = (s, x)" and "ps_hdr st (s, x, False) = Some h" and "h_rc h = 0"
    and "store_inv (st\<lparr>ps_free := (ps_free st)(cls := h_next h),
                       ps_hdr := (ps_hdr st)((s, x, False) \<mapsto> init_hdr cls nbytes (Some h))\<rparr>) (add_mset (s, x, False) R)"
proof -
  have i: "carve_ok st" "apart st" "counted st R" "lists_ok st" "dedicated_ok st" "accounted st"
    using inv by (auto simp: store_inv_def)
  obtain bs0 where bs0: "free_chain (ps_hdr st) (ps_free st cls) bs0" "distinct bs0" "set bs0 = free_blocks st cls"
    using lists_okE [OF i(4)] .
  obtain s x bs where bs: "bs0 = (s, x) # bs" using bs0(1) f by (cases bs0) auto
  obtain h where h: "ps_hdr st (s, x, False) = Some h" "h_rc h = 0" "h_class h = cls"
  proof -
    have "(s, x) \<in> free_blocks st cls" using bs0(3) bs by auto
    then show thesis using that by (auto simp: free_blocks_def)
  qed
  have head: "ps_free st cls = pack s x + 1" and tail: "free_chain (ps_hdr st) (h_next h) bs"
    using bs0(1) h by (auto simp: bs)
  have un: "unpack (ps_free st cls - 1) = (s, x)" using unpack_pack [of s x] block_packs [OF inv h(1)] by (simp add: head)
  let ?h = "init_hdr cls nbytes (Some h)"
  let ?st1 = "st\<lparr>ps_hdr := (ps_hdr st)((s, x, False) \<mapsto> ?h)\<rparr>"
  let ?st = "st\<lparr>ps_free := (ps_free st)(cls := h_next h), ps_hdr := (ps_hdr st)((s, x, False) \<mapsto> ?h)\<rparr>"
  have "carve_ok ?st1" by (rule carve_ok_upd [OF i(1) h(1)]) (use room h(3) in \<open>simp_all add: init_hdr_def\<close>)
  then have "carve_ok ?st" by (simp add: carve_ok_def)
  moreover have "apart ?st1" by (rule apart_upd [OF i(2) h(1)]) (use h(3) in \<open>simp add: init_hdr_def\<close>)
  then have "apart ?st" by (simp add: apart_def)
  moreover have "count R (s, x, False) = 0" using i(3) h unfolding counted_def by simp
  then have "counted ?st (add_mset (s, x, False) R)" using i(3) by (auto simp: counted_def init_hdr_def)
  moreover have "lists_ok ?st"
    unfolding lists_ok_def
  proof
    fix c
    show "\<exists>bs. free_chain (ps_hdr ?st) (ps_free ?st c) bs \<and> distinct bs \<and> set bs = free_blocks ?st c"
    proof (cases "c = cls")
      case True
      have "free_blocks ?st c = free_blocks st c - {(s, x)}" by (auto simp: free_blocks_def init_hdr_def)
      then show ?thesis using True bs bs0 tail by (intro exI [of _ bs]) (auto simp: free_chain_upd)
    next
      case False
      obtain cs where cs: "free_chain (ps_hdr st) (ps_free st c) cs" "distinct cs" "set cs = free_blocks st c"
        using lists_okE [OF i(4)] .
      have "(s, x) \<notin> set cs" using cs(3) h False by (auto simp: free_blocks_def)
      moreover have "free_blocks ?st c = free_blocks st c" using h False by (auto simp: free_blocks_def init_hdr_def)
      ultimately show ?thesis using False cs by (intro exI [of _ cs]) (simp add: free_chain_upd)
    qed
  qed
  moreover have "dedicated_ids ?st = dedicated_ids st" by (auto simp: dedicated_ids_def)
  then have "dedicated_ok ?st" "accounted ?st" using i(5,6) by (auto simp: dedicated_ok_def accounted_def)
  ultimately have "store_inv ?st (add_mset (s, x, False) R)" by (simp add: store_inv_def)
  with un h that show thesis by blast
qed

lemma lists_ok_new:
  assumes "lists_ok st" and "ps_hdr st a = None" and "ps_hdr st' = (ps_hdr st)(a \<mapsto> h)" and "h_rc h \<noteq> 0"
    and "ps_free st' = ps_free st"
  shows "lists_ok st'"
  unfolding lists_ok_def
proof
  fix c
  obtain bs where bs: "free_chain (ps_hdr st) (ps_free st c) bs" "distinct bs" "set bs = free_blocks st c"
    using lists_okE [OF assms(1)] .
  have "free_chain (ps_hdr st) (ps_free st c) bs \<longleftrightarrow> free_chain (ps_hdr st') (ps_free st c) bs"
    by (rule free_chain_cong) (use bs(3) assms(2,3) in \<open>auto simp: free_blocks_def\<close>)
  moreover have "free_blocks st' c = free_blocks st c" using assms(2-4) by (auto simp: free_blocks_def)
  ultimately show "\<exists>bs. free_chain (ps_hdr st') (ps_free st' c) bs \<and> distinct bs \<and> set bs = free_blocks st' c"
    using bs assms(5) by (intro exI [of _ bs]) simp
qed

lemma apart_new:
  assumes "apart st" and "ps_hdr st' = (ps_hdr st)((s, b, False) \<mapsto> h)"
    and below: "\<And>x k. ps_hdr st (s, x, False) = Some k \<Longrightarrow> x + class_size (h_class k) \<le> b"
  shows "apart st'"
  unfolding apart_def
proof (intro allI impI, elim conjE)
  fix t x g x' g'
  assume *: "ps_hdr st' (t, x, False) = Some g" "ps_hdr st' (t, x', False) = Some g'" "x < x'"
  have old: "y + class_size (h_class k) \<le> b \<and> y < b" if "ps_hdr st (s, y, False) = Some k" for y k
    using below [OF that] class_size_min [of "h_class k"] by (simp add: MIN_BLOCK_def)
  consider "t = s" "x = b" | "t = s" "x \<noteq> b" "x' = b" | "t \<noteq> s \<or> (x \<noteq> b \<and> x' \<noteq> b)" by blast
  then show "x + class_size (h_class g) \<le> x'"
  proof cases
    case 1
    with * assms(2) have "ps_hdr st (s, x', False) = Some g'" by simp
    with old [OF this] 1 *(3) show ?thesis by simp
  next
    case 2
    with *(1) assms(2) have "ps_hdr st (s, x, False) = Some g" by simp
    with old [OF this] 2 show ?thesis by simp
  next
    case 3
    with *(1,2) assms(2) have "ps_hdr st (t, x, False) = Some g" "ps_hdr st (t, x', False) = Some g'" by auto
    with assms(1) *(3) show ?thesis unfolding apart_def by blast
  qed
qed

lemma carve_inv:
  assumes inv: "store_inv st R" and room: "BLK_HDR + nbytes \<le> class_size cls"
    and c: "ps_cur st = Some c" "ps_bump st + class_size cls \<le> ps_seg_bytes st"
  shows "ps_hdr st (c, ps_bump st, False) = None \<and>
    store_inv (st\<lparr>ps_bump := ps_bump st + class_size cls,
                  ps_hdr := (ps_hdr st)((c, ps_bump st, False) \<mapsto> init_hdr cls nbytes None)\<rparr>)
              (add_mset (c, ps_bump st, False) R)"
proof -
  let ?h = "init_hdr cls nbytes None" and ?b = "ps_bump st"
  let ?st = "st\<lparr>ps_bump := ?b + class_size cls, ps_hdr := (ps_hdr st)((c, ?b, False) \<mapsto> ?h)\<rparr>"
  have i: "carve_ok st" "apart st" "counted st R" "lists_ok st" "dedicated_ok st" "accounted st"
    using inv by (auto simp: store_inv_def)
  have below: "x + class_size (h_class h) \<le> ?b" "x < ?b" if "ps_hdr st (c, x, False) = Some h" for x h
  proof -
    show "x + class_size (h_class h) \<le> ?b" using i(1) that c(1) unfolding carve_ok_def by blast
    then show "x < ?b" using class_size_min [of "h_class h"] by (simp add: MIN_BLOCK_def)
  qed
  then have new: "ps_hdr st (c, ?b, False) = None" by (cases "ps_hdr st (c, ?b, False)") auto
  have "carve_ok ?st"
    using i(1) c room unfolding carve_ok_def by (auto simp: init_hdr_def split: if_splits intro: trans_le_add1)
  moreover have "apart ?st" by (rule apart_new [OF i(2), of _ c ?b ?h]) (simp_all add: below)
  moreover have "count R (c, ?b, False) = 0" using i(3) new unfolding counted_def by simp
  then have "counted ?st (add_mset (c, ?b, False) R)" using i(3) by (auto simp: counted_def init_hdr_def)
  moreover have "lists_ok ?st" by (rule lists_ok_new [OF i(4) new, where h = ?h]) simp_all
  moreover have "dedicated_ids ?st = dedicated_ids st" by (auto simp: dedicated_ids_def)
  then have "dedicated_ok ?st" "accounted ?st" using i(5,6) by (auto simp: dedicated_ok_def accounted_def)
  ultimately show ?thesis using new by (simp add: store_inv_def)
qed


lemma new_segment_inv:
  assumes inv: "store_inv st R" and room: "BLK_HDR + nbytes \<le> class_size cls"
    and fits: "class_size cls \<le> ps_seg_bytes st" and lim: "ps_used st + ps_seg_bytes st \<le> ps_limit st"
  shows "ps_hdr st (ps_nreg st, 0, False) = None \<and>
    store_inv (st\<lparr>ps_nreg := Suc (ps_nreg st), ps_used := ps_used st + ps_seg_bytes st, ps_cur := Some (ps_nreg st),
                  ps_bump := class_size cls,
                  ps_hdr := (ps_hdr st)((ps_nreg st, 0, False) \<mapsto> init_hdr cls nbytes None)\<rparr>)
              (add_mset (ps_nreg st, 0, False) R)"
proof -
  let ?h = "init_hdr cls nbytes None" and ?n = "ps_nreg st"
  let ?st = "st\<lparr>ps_nreg := Suc ?n, ps_used := ps_used st + ps_seg_bytes st, ps_cur := Some ?n, ps_bump := class_size cls,
                ps_hdr := (ps_hdr st)((?n, 0, False) \<mapsto> ?h)\<rparr>"
  have i: "carve_ok st" "apart st" "counted st R" "lists_ok st" "dedicated_ok st" "accounted st"
    using inv by (auto simp: store_inv_def)
  have none: "ps_hdr st (?n, x, False) = None" for x
    using i(1) unfolding carve_ok_def by (cases "ps_hdr st (?n, x, False)") auto
  have "carve_ok ?st"
    using i(1) none room fits unfolding carve_ok_def by (auto simp: init_hdr_def split: if_splits intro: less_SucI)
  moreover have "apart ?st" by (rule apart_new [OF i(2), of _ ?n 0 ?h]) (simp_all add: none)
  moreover have "count R (?n, 0, False) = 0" using i(3) none unfolding counted_def by simp
  then have "counted ?st (add_mset (?n, 0, False) R)" using i(3) by (auto simp: counted_def init_hdr_def)
  moreover have "lists_ok ?st" by (rule lists_ok_new [OF i(4) none, where h = ?h]) simp_all
  moreover have "dedicated_ids ?st = dedicated_ids st" by (auto simp: dedicated_ids_def)
  then have "dedicated_ok ?st" "accounted ?st" using i(5,6) lim by (auto simp: dedicated_ok_def accounted_def)
  ultimately show ?thesis using none by (simp add: store_inv_def)
qed

lemma alloc_dedicated_inv:
  assumes inv: "store_inv st R" and al: "alloc_dedicated ok nbytes st = (st', r)"
  shows "case r of None \<Rightarrow> store_inv st' R
    | Some a \<Rightarrow> store_inv st' (add_mset a R) \<and> a \<notin># R \<and> (\<exists>h. ps_hdr st' a = Some h \<and> h_len h = nbytes)"
proof -
  define sz where "sz = round_up (BLK_HDR + nbytes) DEDICATED_ALIGN"
  define n where "n = ps_nded st"
  define h where "h = \<lparr>h_rc = 1, h_class = 2 ^ 32 - 1, h_len = nbytes, h_next = 0\<rparr>"
  have i: "carve_ok st" "apart st" "counted st R" "lists_ok st" "dedicated_ok st" "accounted st"
    using inv by (auto simp: store_inv_def)
  have room: "BLK_HDR + nbytes \<le> sz" unfolding sz_def by (rule round_up_ge) (simp add: DEDICATED_ALIGN_def)
  have lists: "lists_ok (st\<lparr>ps_nded := Suc n\<rparr>)" using i(4) by (simp add: lists_ok_def free_blocks_def)
  consider "ps_limit st < ps_used st + sz" | "ps_used st + sz \<le> ps_limit st" "\<not> ok" | "ps_used st + sz \<le> ps_limit st" ok
    by linarith
  then show ?thesis
  proof cases
    case 1
    then have "st' = st" "r = None" using al by (auto simp: alloc_dedicated_def Let_def sz_def)
    then show ?thesis using inv by simp
  next
    case 2
    then have e: "st' = st\<lparr>ps_nded := Suc n\<rparr>" "r = None" using al by (auto simp: alloc_dedicated_def Let_def sz_def n_def)
    have "dedicated_ids st' = dedicated_ids st" by (simp add: e dedicated_ids_def)
    then have "dedicated_ok st'" "accounted st'"
      using i(5,6) by (auto simp: dedicated_ok_def accounted_def e n_def intro: less_SucI)
    then have "store_inv st' R"
      using i(1-3) lists by (simp add: store_inv_def carve_ok_def apart_def counted_def e)
    then show ?thesis using e by simp
  next
    case 3
    have none: "ps_hdr st (n, x, True) = None" for x
      using i(5) unfolding dedicated_ok_def n_def by (cases "ps_hdr st (ps_nded st, x, True)") auto
    have e: "st' = st\<lparr>ps_nded := Suc n, ps_used := ps_used st + sz, ps_dlen := (ps_dlen st)(n := sz),
               ps_hdr := (ps_hdr st)((n, 0, True) \<mapsto> h)\<rparr>" "r = Some (n, 0, True)"
      using 3 al by (auto simp: alloc_dedicated_def Let_def sz_def n_def h_def)
    have ids: "dedicated_ids st' = insert n (dedicated_ids st)" "n \<notin> dedicated_ids st" using none by (auto simp: e dedicated_ids_def)
    have "carve_ok st'" using i(1) by (simp add: e carve_ok_def)
    moreover have "apart st'" using i(2) by (simp add: e apart_def)
    moreover have R: "count R (n, 0, True) = 0" using i(3) none unfolding counted_def by simp
    then have "counted st' (add_mset (n, 0, True) R)" using i(3) by (auto simp: e counted_def h_def)
    moreover have "lists_ok st'" by (rule lists_ok_new [OF i(4) none, where h = h]) (simp_all add: e h_def)
    moreover have "dedicated_ok st'" using i(5) room unfolding dedicated_ok_def ids by (auto simp: e h_def n_def split: if_splits intro: less_SucI)
    moreover have "sum ((ps_dlen st)(n := sz)) (dedicated_ids st) = sum (ps_dlen st) (dedicated_ids st)"
      by (rule sum.cong) (use ids(2) in auto)
    then have "accounted st'" using i(5,6) 3 ids unfolding accounted_def dedicated_ok_def by (simp add: e)
    ultimately have "store_inv st' (add_mset (n, 0, True) R)" by (simp add: store_inv_def)
    with R e show ?thesis by (auto simp: count_eq_zero_iff h_def)
  qed
qed


lemma take_block_inv:
  assumes inv: "store_inv st R" and room: "BLK_HDR + nbytes \<le> class_size cls" and fits: "class_size cls \<le> ps_seg_bytes st"
    and tk: "take_block ok cls (class_size cls) st = (st1, r)"
  shows "case r of None \<Rightarrow> st1 = st
    | Some (s, x) \<Rightarrow> (s, x, False) \<notin># R \<and>
        store_inv (st1\<lparr>ps_hdr := (ps_hdr st1)((s, x, False) \<mapsto> init_hdr cls nbytes (ps_hdr st1 (s, x, False)))\<rparr>)
          (add_mset (s, x, False) R)"
proof -
  have notheld: "a \<notin># R" if "\<forall>h. ps_hdr st a = Some h \<longrightarrow> h_rc h = 0" for a
    using that held_header [OF inv, of a] by (metis less_irrefl)
  define c where "c = (case ps_cur st of Some c \<Rightarrow> if ps_bump st + class_size cls \<le> ps_seg_bytes st then Some c else None | None \<Rightarrow> None)"
  have c: "ps_cur st = Some k \<and> ps_bump st + class_size cls \<le> ps_seg_bytes st" if "c = Some k" for k
    using that by (auto simp: c_def split: option.splits if_splits)
  have tk': "take_block ok cls (class_size cls) st = (case c of
      Some c \<Rightarrow> (st\<lparr>ps_bump := ps_bump st + class_size cls\<rparr>, Some (c, ps_bump st))
    | None \<Rightarrow> if ps_limit st < ps_used st + ps_seg_bytes st then (st, None) else if \<not> ok then (st, None)
        else (st\<lparr>ps_nreg := Suc (ps_nreg st), ps_used := ps_used st + ps_seg_bytes st, ps_cur := Some (ps_nreg st),
                ps_bump := class_size cls\<rparr>, Some (ps_nreg st, 0)))" if "ps_free st cls = 0"
    using that unfolding take_block_def c_def Let_def by (simp only: not_True_eq_False if_False simp_thms)
  consider "ps_free st cls \<noteq> 0" | k where "ps_free st cls = 0" "c = Some k" | "ps_free st cls = 0" "c = None" by (cases c) auto
  then show ?thesis
  proof cases
    case 1
    obtain s x h where h: "unpack (ps_free st cls - 1) = (s, x)" "ps_hdr st (s, x, False) = Some h" "h_rc h = 0"
      and inv': "store_inv (st\<lparr>ps_free := (ps_free st)(cls := h_next h),
                       ps_hdr := (ps_hdr st)((s, x, False) \<mapsto> init_hdr cls nbytes (Some h))\<rparr>) (add_mset (s, x, False) R)"
      using recycle_inv [OF inv 1 room] .
    then have "st1 = st\<lparr>ps_free := (ps_free st)(cls := h_next h)\<rparr>" "r = Some (s, x)" using tk 1 by (auto simp: take_block_def)
    then show ?thesis using inv' h notheld [of "(s, x, False)"] by simp
  next
    case (2 k)
    note ci = carve_inv [OF inv room c [OF 2(2), THEN conjunct1] c [OF 2(2), THEN conjunct2]]
    have "st1 = st\<lparr>ps_bump := ps_bump st + class_size cls\<rparr>" "r = Some (k, ps_bump st)" using tk tk' [OF 2(1)] 2(2) by auto
    then show ?thesis using ci notheld [of "(k, ps_bump st, False)"] by simp
  next
    case 3
    show ?thesis
    proof (cases "ps_limit st < ps_used st + ps_seg_bytes st \<or> \<not> ok")
      case True
      then have "st1 = st" "r = None" using tk tk' [OF 3(1)] 3(2) by (auto split: if_splits)
      then show ?thesis by simp
    next
      case False
      then have e: "st1 = st\<lparr>ps_nreg := Suc (ps_nreg st), ps_used := ps_used st + ps_seg_bytes st, ps_cur := Some (ps_nreg st),
                ps_bump := class_size cls\<rparr>" "r = Some (ps_nreg st, 0)" using tk tk' [OF 3(1)] 3(2) by auto
      have "ps_used st + ps_seg_bytes st \<le> ps_limit st" using False by simp
      from new_segment_inv [OF inv room fits this] show ?thesis using e notheld [of "(ps_nreg st, 0, False)"] by simp
    qed
  qed
qed


lemma alloc_inv:
  assumes inv: "store_inv st R" and al: "alloc ok nbytes st = (st', r)"
  shows "case r of None \<Rightarrow> store_inv st' R
    | Some a \<Rightarrow> store_inv st' (add_mset a R) \<and> a \<notin># R \<and> (\<exists>h. ps_hdr st' a = Some h \<and> h_len h = nbytes)"
proof (cases "max_class_block st < BLK_HDR + nbytes")
  case True
  then show ?thesis using alloc_dedicated_inv [OF inv] al by (simp add: alloc_def)
next
  case False
  define tot where "tot = BLK_HDR + nbytes"
  obtain cls sz where cls: "class_of tot = (cls, sz)" by fastforce
  have tot: "tot \<le> MAX_CLASS_BLOCK" "4 * tot \<le> ps_seg_bytes st" using False by (auto simp: tot_def max_class_block_def)
  then have lt: "tot < 2 ^ 64" by (simp add: MAX_CLASS_BLOCK_def)
  have sz: "sz = class_size cls" using class_of_size [OF lt] cls by simp
  have room: "BLK_HDR + nbytes \<le> class_size cls" using class_of_room [OF lt] cls sz by (simp add: tot_def)
  have "2 ^ 16 \<le> ps_seg_bytes st" using inv by (simp add: store_inv_def accounted_def)
  then have fits: "class_size cls \<le> ps_seg_bytes st"
    using class_of_waste [OF _ lt] tot(2) cls sz by (cases "tot \<le> MIN_BLOCK") (auto simp: class_of_def MIN_BLOCK_def)
  obtain st1 q where tk: "take_block ok cls (class_size cls) st = (st1, q)" by fastforce
  from take_block_inv [OF inv room fits tk] show ?thesis
    using inv al False cls sz tk by (auto simp: alloc_def tot_def [symmetric] split: option.splits prod.splits)
qed

section \<open>The payloads\<close>

text \<open>Two blocks never share a byte, so filling one leaves the others as they were.\<close>

lemma fill_frame:
  assumes inv: "store_inv st R" and a: "ps_hdr st a = Some h" "length data = h_len h"
  shows "block_bytes (fill_block a data st) b = (if b = a then data else block_bytes st b)"
proof (cases "ps_hdr st b")
  case None
  then show ?thesis using a(1) by (auto simp: block_bytes_def fill_block_def split: prod.splits)
next
  case (Some k)
  obtain s x d where a_eq: "a = (s, x, d)" by (cases a)
  obtain t y e where b_eq: "b = (t, y, e)" by (cases b)
  have i: "carve_ok st" "apart st" "dedicated_ok st" using inv by (auto simp: store_inv_def)
  show ?thesis
  proof (cases "b = a")
    case True
    then show ?thesis using a(1) read_write_same [of _ _ data] by (simp add: block_bytes_def fill_block_def a_eq a(2))
  next
    case False
    have sep: "y + BLK_HDR + h_len k \<le> x + BLK_HDR \<or> x + BLK_HDR + length data \<le> y + BLK_HDR" if "s = t" "d = e"
    proof (cases d)
      case True
      then have "x = 0" "y = 0" using i(3) a(1) Some that unfolding dedicated_ok_def a_eq b_eq by auto
      then show ?thesis using False that by (simp add: a_eq b_eq)
    next
      case nd: False
      have ha: "ps_hdr st (s, x, False) = Some h" and hb: "ps_hdr st (s, y, False) = Some k"
        using a(1) Some nd that by (simp_all add: a_eq b_eq)
      have room: "BLK_HDR + h_len h \<le> class_size (h_class h)" "BLK_HDR + h_len k \<le> class_size (h_class k)"
        using i(1) ha hb unfolding carve_ok_def by blast+
      have "x < y \<or> y < x" using False that by (auto simp: a_eq b_eq)
      then have "x + class_size (h_class h) \<le> y \<or> y + class_size (h_class k) \<le> x"
        using i(2) ha hb unfolding apart_def by blast
      then show ?thesis using room a(2) by linarith
    qed
    have k: "ps_hdr st (t, y, e) = Some k" using Some b_eq by simp
    show ?thesis
    proof (cases "s = t \<and> d = e")
      case True
      then show ?thesis using False k read_write_outside [OF sep] by (simp add: block_bytes_def fill_block_def a_eq b_eq)
    next
      case other: False
      then have "(t, e) \<noteq> (s, d)" by auto
      then show ?thesis using False k by (simp add: block_bytes_def fill_block_def a_eq b_eq del: prod.inject)
    qed
  qed
qed

lemma fill_inv: "store_inv (fill_block a data st) R = store_inv st R"
  by (cases a) (simp add: fill_block_def store_inv_defs lists_ok_def free_blocks_def dedicated_ids_def)

text \<open>Taking a block, sharing and dropping touch no payload that is still referenced.\<close>

lemma block_bytes_cong:
  "ps_mem st' = ps_mem st \<Longrightarrow> map_option h_len (ps_hdr st' b) = map_option h_len (ps_hdr st b) \<Longrightarrow>
   block_bytes st' b = block_bytes st b"
  by (cases "ps_hdr st b"; cases "ps_hdr st' b"; cases b) (simp_all add: block_bytes_def)

lemma share_bytes [simp]: "block_bytes (share a st) b = block_bytes st b"
  by (rule block_bytes_cong) (auto simp: share_def split: option.splits)

lemma drop_bytes:
  assumes inv: "store_inv st R" and a: "a \<in># R" and b: "b \<in># R - {#a#}"
  shows "block_bytes (drop_block a st) b = block_bytes st b"
proof (rule block_bytes_cong)
  obtain h where h: "ps_hdr st a = Some h" "h_rc h = count R a" using held_header [OF inv a] .
  have "h_rc h \<noteq> 1" if "b = a"
  proof -
    have "a \<in># R - {#a#}" using b that by simp
    then have "0 < count (R - {#a#}) a" by (simp only: count_greater_zero_iff)
    then show ?thesis using h(2) by simp
  qed
  then show "map_option h_len (ps_hdr (drop_block a st) b) = map_option h_len (ps_hdr st b)"
    using h(1) by (cases a) (auto simp: drop_block_def)
  show "ps_mem (drop_block a st) = ps_mem st" by (auto simp: drop_block_def split: prod.splits option.splits)
qed


lemma alloc_bytes_same:
  assumes inv: "store_inv st R" and al: "alloc ok nbytes st = (st', r)" and b: "b \<in># R"
  shows "block_bytes st' b = block_bytes st b"
proof (rule block_bytes_cong)
  show "ps_mem st' = ps_mem st"
    using al by (auto simp: store_ops Let_def split: if_splits option.splits prod.splits)
  have new: "r = Some a \<Longrightarrow> b \<noteq> a" for a using alloc_inv [OF inv al] b by auto
  have "ps_hdr st' b = ps_hdr st b" if "\<And>a. r = Some a \<Longrightarrow> b \<noteq> a"
    using al that by (auto simp: store_ops Let_def split: if_splits option.splits prod.splits)
  then show "map_option h_len (ps_hdr st' b) = map_option h_len (ps_hdr st b)" using new by simp
qed

end
