(* ===== verification/Pipe_Payload.thy ===== *)
theory Pipe_Payload
  imports Pipe_Blocks
begin

text \<open>
  What the pipeline relies on of the payload store, as a locale, and the store's model as its
  instance: a block handed out is fresh and holds what was written, a reference keeps its block and
  its payload whatever the other processes allocate, share and drop, and the last drop gives the
  block back. Properties of the store over all interleavings of operations.
\<close>

section \<open>References and steps\<close>

text \<open>
  One operation of some process on the store: a block for some data (or none), one more reference to
  a block it refers to, one reference less. The multiset holds the references of these processes.
\<close>

inductive ref_step :: "(bool \<Rightarrow> bytes \<Rightarrow> 's \<Rightarrow> 's \<times> 'h option) \<Rightarrow> ('h \<Rightarrow> 's \<Rightarrow> 's) \<Rightarrow> ('h \<Rightarrow> 's \<Rightarrow> 's) \<Rightarrow>
    's \<times> 'h multiset \<Rightarrow> 's \<times> 'h multiset \<Rightarrow> bool" for al sh dr where
  ref_alloc: "al ok d s = (s', Some a) \<Longrightarrow> ref_step al sh dr (s, R) (s', add_mset a R)"
| ref_full: "al ok d s = (s', None) \<Longrightarrow> ref_step al sh dr (s, R) (s', R)"
| ref_share: "a \<in># R \<Longrightarrow> ref_step al sh dr (s, R) (sh a s, add_mset a R)"
| ref_drop: "a \<in># R \<Longrightarrow> ref_step al sh dr (s, R) (dr a s, R - {#a#})"

locale payload_store =
  fixes sinv :: "'s \<Rightarrow> 'h multiset \<Rightarrow> bool"
    and al :: "bool \<Rightarrow> bytes \<Rightarrow> 's \<Rightarrow> 's \<times> 'h option"
    and sh :: "'h \<Rightarrow> 's \<Rightarrow> 's"
    and dr :: "'h \<Rightarrow> 's \<Rightarrow> 's"
    and rd :: "'s \<Rightarrow> 'h \<Rightarrow> bytes"
  assumes al_some: "sinv s R \<Longrightarrow> al ok d s = (s', Some a) \<Longrightarrow>
      sinv s' (add_mset a R) \<and> a \<notin># R \<and> rd s' a = d \<and> (\<forall>b. b \<in># R \<longrightarrow> rd s' b = rd s b)"
    and al_none: "sinv s R \<Longrightarrow> al ok d s = (s', None) \<Longrightarrow> sinv s' R \<and> (\<forall>b. b \<in># R \<longrightarrow> rd s' b = rd s b)"
    and sh_law: "sinv s R \<Longrightarrow> a \<in># R \<Longrightarrow> sinv (sh a s) (add_mset a R) \<and> (\<forall>b. b \<in># R \<longrightarrow> rd (sh a s) b = rd s b)"
    and dr_law: "sinv s R \<Longrightarrow> a \<in># R \<Longrightarrow>
      sinv (dr a s) (R - {#a#}) \<and> (\<forall>b. b \<in># R - {#a#} \<longrightarrow> rd (dr a s) b = rd s b)"
begin

lemma ref_step_frame:
  "ref_step al sh dr p q \<Longrightarrow> sinv (fst p) (snd p + K) \<Longrightarrow>
   sinv (fst q) (snd q + K) \<and> (\<forall>b. b \<in># K \<longrightarrow> rd (fst q) b = rd (fst p) b)"
proof (induction rule: ref_step.induct)
  case (ref_alloc ok d s s' a R)
  then show ?case using al_some [of s "R + K" ok d s' a] by simp
next
  case (ref_full ok d s s' R)
  then show ?case using al_none [of s "R + K" ok d s'] by simp
next
  case (ref_share a R s)
  then show ?case using sh_law [of s "R + K" a] by simp
next
  case (ref_drop a R s)
  have e: "R + K - {#a#} = (R - {#a#}) + K" using ref_drop(1) by simp
  have "sinv (dr a s) (R - {#a#} + K) \<and> (\<forall>b. b \<in># R - {#a#} + K \<longrightarrow> rd (dr a s) b = rd s b)"
    using dr_law [of s "R + K" a, unfolded e] ref_drop by (metis fst_conv snd_conv union_iff)
  then show ?case unfolding fst_conv snd_conv union_iff by blast
qed

text \<open>A reference that nobody in these steps owns keeps its block and its payload through all of them.\<close>

lemma in_flight:
  assumes "(ref_step al sh dr)\<^sup>*\<^sup>* p q" and "sinv (fst p) (snd p + K)"
  shows "sinv (fst q) (snd q + K) \<and> (\<forall>b. b \<in># K \<longrightarrow> rd (fst q) b = rd (fst p) b)"
  using assms
proof (induction rule: rtranclp_induct)
  case (step q r)
  then show ?case using ref_step_frame [of q r K] by simp
qed simp

end

section \<open>The store is one\<close>

lemma alloc_bytes_law:
  assumes inv: "store_inv st R" and al: "alloc_bytes ok d st = (st', r)"
  shows "(case r of None \<Rightarrow> store_inv st' R
      | Some a \<Rightarrow> store_inv st' (add_mset a R) \<and> a \<notin># R \<and> block_bytes st' a = d)
    \<and> (\<forall>b. b \<in># R \<longrightarrow> block_bytes st' b = block_bytes st b)"
proof -
  obtain st1 q where a: "alloc ok (length d) st = (st1, q)" by fastforce
  note ai = alloc_inv [OF inv a]
  show ?thesis
  proof (cases q)
    case None
    then show ?thesis using ai al a alloc_bytes_same [OF inv a] by (auto simp: alloc_bytes_def)
  next
    case (Some x)
    then obtain h where h: "store_inv st1 (add_mset x R)" "x \<notin># R" "ps_hdr st1 x = Some h" "h_len h = length d"
      using ai by auto
    have e: "st' = fill_block x d st1" "r = Some x" using al a Some by (auto simp: alloc_bytes_def)
    have ff: "block_bytes st' b = (if b = x then d else block_bytes st1 b)" for b
      unfolding e by (rule fill_frame [OF h(1,3)]) (simp add: h(4))
    have "block_bytes st' b = block_bytes st b" if "b \<in># R" for b
      using ff [of b] alloc_bytes_same [OF inv a that] that h(2) by auto
    then show ?thesis using e h(1,2) ff [of x] by (simp add: fill_inv)
  qed
qed

interpretation ps: payload_store store_inv alloc_bytes share drop_block block_bytes
proof
  fix s R ok d s' a
  assume "store_inv s R" "alloc_bytes ok d s = (s', Some a)"
  then show "store_inv s' (add_mset a R) \<and> a \<notin># R \<and> block_bytes s' a = d \<and> (\<forall>b. b \<in># R \<longrightarrow> block_bytes s' b = block_bytes s b)"
    using alloc_bytes_law by fastforce
next
  fix s R ok d s'
  assume "store_inv s R" "alloc_bytes ok d s = (s', None)"
  then show "store_inv s' R \<and> (\<forall>b. b \<in># R \<longrightarrow> block_bytes s' b = block_bytes s b)"
    using alloc_bytes_law by fastforce
next
  fix s R and a :: handle
  assume "store_inv s R" "a \<in># R"
  then show "store_inv (share a s) (add_mset a R) \<and> (\<forall>b. b \<in># R \<longrightarrow> block_bytes (share a s) b = block_bytes s b)"
    by (simp add: share_inv)
next
  fix s R and a :: handle
  assume "store_inv s R" "a \<in># R"
  then show "store_inv (drop_block a s) (R - {#a#}) \<and> (\<forall>b. b \<in># R - {#a#} \<longrightarrow> block_bytes (drop_block a s) b = block_bytes s b)"
    using drop_inv drop_bytes by blast
qed

abbreviation store_steps :: "store \<times> handle multiset \<Rightarrow> store \<times> handle multiset \<Rightarrow> bool" where
  "store_steps \<equiv> (ref_step alloc_bytes share drop_block)\<^sup>*\<^sup>*"

lemma store_steps_inv:
  assumes "limit_bytes \<le> 2 ^ 40" and "store_steps (store_new limit_bytes seg_bytes, {#}) (st, R)"
  shows "store_inv st R"
  using ps.in_flight [OF assms(2), of "{#}"] store_new_inv [OF assms(1)] by simp

lemma steps_geometry: "store_steps p q \<Longrightarrow> ps_limit (fst q) = ps_limit (fst p) \<and> ps_seg_bytes (fst q) = ps_seg_bytes (fst p)"
proof (induction rule: rtranclp_induct)
  case (step q r)
  from step(2) have "ps_limit (fst r) = ps_limit (fst q) \<and> ps_seg_bytes (fst r) = ps_seg_bytes (fst q)"
  proof cases
    case (ref_alloc ok d s s' a R)
    then show ?thesis by (auto simp: store_ops Let_def split: if_splits option.splits prod.splits)
  next
    case (ref_full ok d s s' R)
    then show ?thesis by (auto simp: store_ops Let_def split: if_splits option.splits prod.splits)
  qed (auto simp: store_ops split: option.splits prod.splits)
  with step show ?case by simp
qed simp


section \<open>Safety over all interleavings\<close>


lemma one_block:
  "alloc_bytes True [7, 8] (store_new (2 ^ 27) (2 ^ 20)) =
   (fst (alloc_bytes True [7, 8] (store_new (2 ^ 27) (2 ^ 20))), Some (0, 0, False))"
proof -
  have "snd (alloc_bytes True [7, 8] (store_new (2 ^ 27) (2 ^ 20))) = Some (0, 0, False)"
    by (simp add: store_ops size_consts max_class_block_def store_new_def round_up_def class_of_def)
  then show ?thesis by (simp add: prod_eq_iff)
qed

lemma one_block_step:
  "ref_step alloc_bytes share drop_block (store_new (2 ^ 27) (2 ^ 20), {#})
     (fst (alloc_bytes True [7, 8] (store_new (2 ^ 27) (2 ^ 20))), {#(0, 0, False)#})"
  using one_block by (rule ref_step.ref_alloc)

lemma one_block_back:
  "ref_step alloc_bytes share drop_block (fst (alloc_bytes True [7, 8] (store_new (2 ^ 27) (2 ^ 20))), {#(0, 0, False)#})
     (drop_block (0, 0, False) (fst (alloc_bytes True [7, 8] (store_new (2 ^ 27) (2 ^ 20)))), {#})"
  using ref_drop [of "(0, 0, False)" "{#(0, 0, False)#}" alloc_bytes share drop_block] by simp

lemma one_block_steps:
  "store_steps (store_new (2 ^ 27) (2 ^ 20), {#}) (fst (alloc_bytes True [7, 8] (store_new (2 ^ 27) (2 ^ 20))), {#(0, 0, False)#})"
  using one_block_step by (rule r_into_rtranclp)


lemma drained_rc: "store_inv st {#} \<Longrightarrow> ps_hdr st a = Some h \<Longrightarrow> h_rc h = 0"
proof -
  assume inv: "store_inv st {#}" and h: "ps_hdr st a = Some h"
  have "count {#} a = (case ps_hdr st a of None \<Rightarrow> 0 | Some h \<Rightarrow> h_rc h)"
    using inv unfolding store_inv_def counted_def by blast
  then show ?thesis using h by simp
qed

lemma drained_dedicated:
  assumes inv: "store_inv st {#}"
  shows "ps_hdr st (j, x, True) = None"
proof (cases "ps_hdr st (j, x, True)")
  case (Some h)
  then have "0 < h_rc h" using inv unfolding store_inv_def dedicated_ok_def by blast
  then show ?thesis using drained_rc [OF inv Some] by simp
qed

text \<open>
  Nothing leaks: once no reference is left, no dedicated segment is left, the bytes used are those
  of the regular segments, every block ever carved is in the free list of its size class, and a
  request of a class that has a block is served from there, with the store at its limit or not.
\<close>

theorem store_drained:
  assumes "limit_bytes \<le> 2 ^ 40" and "store_steps (store_new limit_bytes seg_bytes, {#}) (st, {#})"
  shows "ps_used st = ps_nreg st * ps_seg_bytes st \<and> (\<forall>i x. ps_hdr st (i, x, True) = None)
    \<and> (\<forall>c. \<exists>bs. free_chain (ps_hdr st) (ps_free st c) bs \<and> distinct bs
          \<and> set bs = {(s, x). \<exists>h. ps_hdr st (s, x, False) = Some h \<and> h_class h = c})
    \<and> (\<forall>s x h ok. ps_hdr st (s, x, False) = Some h \<longrightarrow>
          (\<exists>st' b. take_block ok (h_class h) (class_size (h_class h)) st = (st', Some b) \<and> ps_used st' = ps_used st))"
proof -
  have inv: "store_inv st {#}" using store_steps_inv [OF assms] .
  then have i: "lists_ok st" "dedicated_ok st" "accounted st" by (auto simp: store_inv_def)
  note rc = drained_rc [OF inv]
  have none: "ps_hdr st (j, x, True) = None" for j x by (rule drained_dedicated [OF inv])
  then have used: "ps_used st = ps_nreg st * ps_seg_bytes st"
    using i(3) by (simp add: accounted_def dedicated_ids_def domIff)
  have all: "free_blocks st c = {(s, x). \<exists>h. ps_hdr st (s, x, False) = Some h \<and> h_class h = c}" for c
    using rc by (auto simp: free_blocks_def)
  have "\<exists>st' b. take_block ok (h_class h) (class_size (h_class h)) st = (st', Some b) \<and> ps_used st' = ps_used st"
    if h: "ps_hdr st (s, x, False) = Some h" for s x h ok
  proof -
    obtain bs where bs: "free_chain (ps_hdr st) (ps_free st (h_class h)) bs" "set bs = free_blocks st (h_class h)"
      using lists_okE [OF i(1)] .
    have "(s, x) \<in> set bs" using h bs(2) all by auto
    then obtain t y cs where c: "bs = (t, y) # cs" by (cases bs) auto
    have "(t, y) \<in> free_blocks st (h_class h)" using bs(2) c by auto
    then obtain k where k: "ps_hdr st (t, y, False) = Some k" by (auto simp: free_blocks_def)
    have p: "ps_free st (h_class h) = pack t y + 1" using bs(1) c by simp
    have "t < 2 ^ 24" "y < 2 ^ 40 - 1" using block_packs [OF inv k] by auto
    then have "ps_free st (h_class h) \<noteq> 0" "unpack (ps_free st (h_class h) - 1) = (t, y)"
      using pack_plus_1 [of t y] unpack_pack [of t y] by (auto simp: p)
    then show ?thesis using k by (simp add: take_block_def)
  qed
  moreover have "\<exists>bs. free_chain (ps_hdr st) (ps_free st c) bs \<and> distinct bs \<and> set bs = free_blocks st c" for c
    using i(1) unfolding lists_ok_def by blast
  ultimately show ?thesis using used none unfolding all by blast
qed


lemma block_and_back_steps:
  "store_steps (store_new (2 ^ 27) (2 ^ 20), {#})
     (drop_block (0, 0, False) (fst (alloc_bytes True [7, 8] (store_new (2 ^ 27) (2 ^ 20)))), {#})"
  using one_block_steps one_block_back by (rule rtranclp.rtrancl_into_rtrancl)

theorem store_drained_witness:
  "ps_used (drop_block (0, 0, False) (fst (alloc_bytes True [7, 8] (store_new (2 ^ 27) (2 ^ 20))))) =
   ps_nreg (drop_block (0, 0, False) (fst (alloc_bytes True [7, 8] (store_new (2 ^ 27) (2 ^ 20))))) *
   ps_seg_bytes (drop_block (0, 0, False) (fst (alloc_bytes True [7, 8] (store_new (2 ^ 27) (2 ^ 20)))))"
proof -
  have "(2 ^ 27 :: nat) \<le> 2 ^ 40" by simp
  from store_drained [OF this block_and_back_steps] show ?thesis by blast
qed

end
