(* ===== verification/Pipe_Ring.thy ===== *)
theory Pipe_Ring
  imports Pipe_Queue_Spec Pipe_Bytes
begin

text \<open>
  The transport under every edge: the shared-memory byte ring of \<^verbatim>\<open>rust/src/ring.rs\<close>.
  The ring is modelled at byte level: a memory of bytes, absolute \<open>head\<close>/\<open>tail\<close> offsets, and
  variable-length records (an 8-byte header with length and kind, then the payload padded to 8
  bytes). Spilled payloads live in maps from object names to bytes. The theory shows that the ring
  refines a first-in first-out list of payloads.
\<close>

section \<open>Records\<close>

definition KIND_DATA :: nat where "KIND_DATA = 1"
definition KIND_PAD :: nat where "KIND_PAD = 2"
definition KIND_SPILL :: nat where "KIND_SPILL = 3"
definition KIND_FILE :: nat where "KIND_FILE = 4"
definition REC_HDR :: nat where "REC_HDR = 8"

lemmas kind_defs = KIND_DATA_def KIND_PAD_def KIND_SPILL_def KIND_FILE_def

definition align8 :: "nat \<Rightarrow> nat" where
  "align8 n = (n + 7) - (n + 7) mod 8"

lemma align8_dvd [simp]: "8 dvd align8 n"
  by (simp add: align8_def)

lemma align8_ge: "n \<le> align8 n"
  unfolding align8_def by presburger

lemma align8_less: "align8 n < n + 8"
  unfolding align8_def by presburger

lemma align8_id: "8 dvd n \<Longrightarrow> align8 n = n"
  unfolding align8_def by presburger

definition write_record :: "memory \<Rightarrow> nat \<Rightarrow> nat \<Rightarrow> bytes \<Rightarrow> memory" where
  "write_record m pos kind payload =
     write_bytes m pos (enc_le 4 (length payload) @ enc_le 4 kind @ payload)"

definition read_header :: "memory \<Rightarrow> nat \<Rightarrow> nat \<times> nat" where
  "read_header m pos = (dec_le (read_bytes m pos 4), dec_le (read_bytes m (pos + 4) 4))"

lemma read_write_record:
  assumes "length p < 2 ^ 32" and "k < 2 ^ 32"
  shows "read_header (write_record m pos k p) pos = (length p, k)"
    and "read_bytes (write_record m pos k p) (pos + 8) (length p) = p"
proof -
  let ?bs = "enc_le 4 (length p) @ enc_le 4 k @ p" and ?m = "write_record m pos k p"
  have "read_bytes ?m pos (length ?bs) = ?bs"
    unfolding write_record_def by (rule read_write_same)
  then have "read_bytes ?m pos (4 + (4 + length p)) = ?bs" by simp
  then have all: "read_bytes ?m pos 4 @ read_bytes ?m (pos + 4) 4 @ read_bytes ?m (pos + 8) (length p) = ?bs"
    by (simp only: read_bytes_append add.assoc) simp
  then have "read_bytes ?m pos 4 = enc_le 4 (length p)"
    and "read_bytes ?m (pos + 4) 4 = enc_le 4 k"
    and "read_bytes ?m (pos + 8) (length p) = p"
    by (simp_all add: append_eq_append_conv)
  with assms show "read_header ?m pos = (length p, k)"
    and "read_bytes ?m (pos + 8) (length p) = p"
    by (simp_all add: read_header_def dec_enc_le_small)
qed

lemma write_record_outside:
  "i < pos \<or> pos + 8 + length p \<le> i \<Longrightarrow> write_record m pos k p i = m i"
  by (auto simp: write_record_def intro!: write_bytes_outside)

lemma read_header_cong:
  "(\<And>i. pos \<le> i \<Longrightarrow> i < pos + 8 \<Longrightarrow> m i = m' i) \<Longrightarrow> read_header m pos = read_header m' pos"
  by (auto simp: read_header_def intro!: arg_cong [where f = dec_le] read_bytes_cong)

section \<open>The ring under its lock\<close>

text \<open>
  The shared control block: \<open>cap\<close>, \<open>maxsize\<close> and \<open>spill_at\<close> are fixed at creation;
  \<open>head\<close>, \<open>tail\<close> and \<open>count\<close> are only written under the lock. Offsets grow forever and are
  reduced modulo \<open>cap\<close> on use (they are 64-bit in the source; a queue would have to carry
  \<open>2 ^ 64\<close> bytes before they wrap, which the model leaves out).
\<close>

record ring =
  r_cap :: nat
  r_maxsize :: nat
  r_spill_at :: nat
  r_head :: nat
  r_tail :: nat
  r_count :: nat
  r_mem :: memory

definition ring_new :: "nat \<Rightarrow> nat \<Rightarrow> nat option \<Rightarrow> ring" where
  "ring_new maxsize ring_bytes spill_at =
     (let cap = align8 (max ring_bytes (64 * 1024));
          sp = min (case spill_at of None \<Rightarrow> cap div 4 | Some s \<Rightarrow> s) (cap div 4)
      in \<lparr>r_cap = cap, r_maxsize = maxsize, r_spill_at = sp, r_head = 0, r_tail = 0, r_count = 0,
          r_mem = (\<lambda>_. 0)\<rparr>)"

text \<open>\<open>pop_locked\<close>: skip a pad record, copy the payload out, advance \<open>head\<close>.\<close>

definition pop_locked :: "ring \<Rightarrow> ring \<times> (nat \<times> bytes) option" where
  "pop_locked r =
     (if r_head r = r_tail r then (r\<lparr>r_count := 0\<rparr>, None)
      else
        let pos = r_head r mod r_cap r;
            (len, kind) = read_header (r_mem r) pos;
            (head, pos, len, kind) =
              (if kind = KIND_PAD
               then (let (len, kind) = read_header (r_mem r) 0
                     in (r_head r + (r_cap r - pos), 0, len, kind))
               else (r_head r, pos, len, kind));
            b = read_bytes (r_mem r) (pos + REC_HDR) len
        in (r\<lparr>r_head := head + REC_HDR + align8 len, r_count := r_count r - 1\<rparr>, Some (kind, b)))"

definition has_slot :: "ring \<Rightarrow> bool" where
  "has_slot r \<longleftrightarrow> r_maxsize r = 0 \<or> r_count r < r_maxsize r"

definition rec_size :: "bytes \<Rightarrow> nat" where
  "rec_size payload = REC_HDR + align8 (length payload)"

definition pad_size :: "ring \<Rightarrow> bytes \<Rightarrow> nat" where
  "pad_size r payload =
     (let room = r_cap r - r_tail r mod r_cap r in if room < rec_size payload then room else 0)"

definition fits :: "ring \<Rightarrow> bytes \<Rightarrow> bool" where
  "fits r payload \<longleftrightarrow>
     (r_tail r - r_head r) + pad_size r payload + rec_size payload \<le> r_cap r"

text \<open>
  The locked section of \<open>put\<close>: write a pad record if the record would cross the end of the ring,
  write the record, publish \<open>tail\<close>, bump \<open>count\<close>.
\<close>

definition commit_locked :: "ring \<Rightarrow> nat \<Rightarrow> bytes \<Rightarrow> ring option" where
  "commit_locked r kind payload =
     (if has_slot r \<and> fits r payload then
        let pos = r_tail r mod r_cap r; pad = pad_size r payload;
            m = (if pad > 0 then write_record (r_mem r) pos KIND_PAD [] else r_mem r);
            start = (if pad > 0 then 0 else pos)
        in Some (r\<lparr>r_mem := write_record m start kind payload,
                   r_tail := r_tail r + pad + rec_size payload,
                   r_count := r_count r + 1\<rparr>)
      else None)"

declare has_slot_def [ring_ops] rec_size_def [ring_ops] pad_size_def [ring_ops] fits_def [ring_ops] align8_def [ring_ops]
  REC_HDR_def [ring_ops] ring_new_def [ring_ops]

section \<open>The records between head and tail\<close>

text \<open>
  \<open>recs_at m c h t rs\<close>: reading the ring memory \<open>m\<close> of size \<open>c\<close> from offset \<open>h\<close>, the way
  \<open>pop_locked\<close> does, gives exactly the records \<open>rs\<close> and ends at \<open>t\<close>.
\<close>

definition skip_pad :: "memory \<Rightarrow> nat \<Rightarrow> nat \<Rightarrow> nat" where
  "skip_pad m c h = (if snd (read_header m (h mod c)) = KIND_PAD then h + (c - h mod c) else h)"

definition rec_at :: "memory \<Rightarrow> nat \<Rightarrow> nat \<Rightarrow> nat \<Rightarrow> bytes \<Rightarrow> bool" where
  "rec_at m c v k p \<longleftrightarrow>
     k \<noteq> KIND_PAD \<and> v mod c + rec_size p \<le> c \<and>
     read_header m (v mod c) = (length p, k) \<and> read_bytes m (v mod c + REC_HDR) (length p) = p"

fun recs_at :: "memory \<Rightarrow> nat \<Rightarrow> nat \<Rightarrow> nat \<Rightarrow> (nat \<times> bytes) list \<Rightarrow> bool" where
  "recs_at m c h t [] \<longleftrightarrow> h = t"
| "recs_at m c h t ((k, p) # rs) \<longleftrightarrow>
     8 dvd h \<and> rec_at m c (skip_pad m c h) k p \<and>
     recs_at m c (skip_pad m c h + rec_size p) t rs"

lemma rec_size_ge: "8 + length p \<le> rec_size p"
  by (simp add: rec_size_def REC_HDR_def align8_ge)

lemma rec_size_dvd [simp]: "8 dvd rec_size p"
  by (simp add: rec_size_def REC_HDR_def)

lemma skip_pad_ge: "h \<le> skip_pad m c h"
  by (simp add: skip_pad_def)

lemma recs_at_le: "recs_at m c h t rs \<Longrightarrow> h \<le> t"
proof (induction rs arbitrary: h)
  case (Cons r rs)
  obtain k p where r: "r = (k, p)" by (cases r)
  from Cons.prems r have "skip_pad m c h + rec_size p \<le> t"
    by (auto intro: Cons.IH)
  with skip_pad_ge [of h m c] show ?case by simp
qed simp

lemma recs_at_Cons_le: "recs_at m c h t ((k, p) # rs) \<Longrightarrow> skip_pad m c h + rec_size p \<le> t"
  by (auto dest: recs_at_le)

lemma mod_add_small: "v mod c + i < c \<Longrightarrow> v mod c + i = (v + i) mod (c::nat)"
  by (metis mod_add_left_eq mod_less)

lemma dvd_room: "8 dvd c \<Longrightarrow> 8 dvd v \<Longrightarrow> 0 < c \<Longrightarrow> v mod c + 8 \<le> (c::nat)"
proof -
  assume a: "8 dvd c" "8 dvd v" "0 < c"
  then have "8 dvd v mod c" by (simp add: dvd_mod)
  with a have "8 dvd c - v mod c" and "0 < c - v mod c"
    by (auto intro: dvd_diff_nat)
  then have "8 \<le> c - v mod c" by (simp add: dvd_imp_le)
  then show ?thesis by simp
qed

text \<open>The bytes of the window \<open>[h, t)\<close> determine the records: the frame property.\<close>

definition window_eq :: "nat \<Rightarrow> nat \<Rightarrow> nat \<Rightarrow> memory \<Rightarrow> memory \<Rightarrow> bool" where
  "window_eq c h t m m' \<longleftrightarrow> (\<forall>x. h \<le> x \<and> x < t \<longrightarrow> m (x mod c) = m' (x mod c))"

lemma window_eq_sub: "window_eq c h t m m' \<Longrightarrow> h \<le> h' \<Longrightarrow> window_eq c h' t m m'"
  by (simp add: window_eq_def)

lemma window_eq_range:
  assumes "window_eq c h t m m'" and "h \<le> v" and "v + n \<le> t" and "v mod c + n \<le> c"
    and "v mod c \<le> i" and "i < v mod c + n"
  shows "m i = m' i"
proof -
  define j where "j = i - v mod c"
  with assms have j: "i = v mod c + j" and "j < n" by auto
  with assms have "i = (v + j) mod c"
    by (metis add_less_mono1 less_le_trans mod_add_small nat_add_left_cancel_less)
  moreover have "m ((v + j) mod c) = m' ((v + j) mod c)"
    using assms \<open>j < n\<close> by (auto simp: window_eq_def)
  ultimately show ?thesis by simp
qed

lemma skip_pad_cong:
  assumes "window_eq c h t m m'" and "8 dvd c" "0 < c" "8 dvd h" "h + 8 \<le> t"
  shows "skip_pad m c h = skip_pad m' c h"
proof -
  have "read_header m (h mod c) = read_header m' (h mod c)"
    using assms dvd_room [of c h] window_eq_range [of c h t m m' h 8]
    by (intro read_header_cong) auto
  then show ?thesis by (simp add: skip_pad_def)
qed

lemma rec_at_cong:
  assumes "window_eq c h t m m'" and "h \<le> v" and "v + rec_size p \<le> t"
  shows "rec_at m c v k p \<longleftrightarrow> rec_at m' c v k p"
proof (cases "v mod c + rec_size p \<le> c")
  case True
  have eq: "m i = m' i" if "v mod c \<le> i" "i < v mod c + rec_size p" for i
    using window_eq_range [OF assms(1,2,3) True that] .
  have "read_header m (v mod c) = read_header m' (v mod c)"
    by (rule read_header_cong) (use rec_size_ge [of p] eq in auto)
  moreover have "read_bytes m (v mod c + REC_HDR) (length p) = read_bytes m' (v mod c + REC_HDR) (length p)"
    by (rule read_bytes_cong) (use rec_size_ge [of p] eq in \<open>auto simp: REC_HDR_def\<close>)
  ultimately show ?thesis by (simp add: rec_at_def)
qed (simp add: rec_at_def)

lemma recs_at_cong:
  assumes "window_eq c h t m m'" and "8 dvd c" "0 < c"
  shows "recs_at m c h t rs \<Longrightarrow> recs_at m' c h t rs"
  using assms(1)
proof (induction rs arbitrary: h)
  case (Cons r rs)
  obtain k p where r: "r = (k, p)" by (cases r)
  let ?v = "skip_pad m c h"
  from Cons.prems r have d: "8 dvd h" and at1: "rec_at m c ?v k p"
    and rest: "recs_at m c (?v + rec_size p) t rs" by auto
  have v: "h \<le> ?v" "?v + rec_size p \<le> t"
    using skip_pad_ge Cons.prems r by (auto dest: recs_at_le)
  with rec_size_ge [of p] have "h + 8 \<le> t" by linarith
  then have sk: "skip_pad m' c h = ?v"
    using skip_pad_cong [OF Cons.prems(2) assms(2,3) d] by simp
  from v at1 rec_at_cong [OF Cons.prems(2)] have "rec_at m' c ?v k p" by blast
  moreover have "recs_at m' c (?v + rec_size p) t rs"
    using rest v by (intro Cons.IH window_eq_sub [OF Cons.prems(2)]) auto
  ultimately show ?case by (simp add: r sk d)
qed simp

lemma recs_at_snoc:
  "recs_at m c h t rs \<Longrightarrow> recs_at m c t t' [x] \<Longrightarrow> recs_at m c h t' (rs @ [x])"
proof (induction rs arbitrary: h)
  case (Cons r rs)
  then show ?case by (cases r) auto
qed simp

section \<open>The ring invariant and its refinement to a list of records\<close>

definition ring_inv :: "ring \<Rightarrow> (nat \<times> bytes) list \<Rightarrow> bool" where
  "ring_inv r rs \<longleftrightarrow>
     8 dvd r_cap r \<and> 64 * 1024 \<le> r_cap r \<and> r_cap r \<le> 2 ^ 32 \<and> r_spill_at r \<le> r_cap r div 4 \<and>
     8 dvd r_head r \<and> 8 dvd r_tail r \<and> r_tail r - r_head r \<le> r_cap r \<and>
     (r_maxsize r \<noteq> 0 \<longrightarrow> r_count r \<le> r_maxsize r) \<and>
     r_count r = length rs \<and> recs_at (r_mem r) (r_cap r) (r_head r) (r_tail r) rs"

lemma ring_invD:
  assumes "ring_inv r rs"
  shows "8 dvd r_cap r" "0 < r_cap r" "r_cap r \<le> 2 ^ 32" "8 dvd r_head r" "8 dvd r_tail r"
    "r_head r \<le> r_tail r" "r_tail r \<le> r_head r + r_cap r" "r_count r = length rs"
    "recs_at (r_mem r) (r_cap r) (r_head r) (r_tail r) rs"
  using assms by (auto simp: ring_inv_def dest: recs_at_le)

text \<open>A fresh ring is empty. A ring larger than 4 GiB is outside the model's header range.\<close>

lemma ring_new_inv:
  assumes "ring_bytes \<le> 2 ^ 32 - 8"
  shows "ring_inv (ring_new maxsize ring_bytes sp) []"
  using assms align8_ge [of "max ring_bytes 65536"] align8_less [of "max ring_bytes 65536"]
  by (auto simp: ring_inv_def ring_new_def Let_def)

lemma pop_locked_refines:
  assumes inv: "ring_inv r rs"
  shows "pop_locked r = (case rs of
      [] \<Rightarrow> (r\<lparr>r_count := 0\<rparr>, None)
    | (k, p) # rs' \<Rightarrow>
        (r\<lparr>r_head := skip_pad (r_mem r) (r_cap r) (r_head r) + rec_size p, r_count := length rs'\<rparr>,
         Some (k, p)))"
proof (cases rs)
  case Nil
  with ring_invD [OF inv] show ?thesis by (simp add: pop_locked_def)
next
  case (Cons x rs')
  obtain k p where x: "x = (k, p)" by (cases x)
  let ?m = "r_mem r" and ?c = "r_cap r" and ?h = "r_head r"
  let ?v = "skip_pad ?m ?c ?h"
  note I = ring_invD [OF inv]
  from I(9) Cons x have at1: "rec_at ?m ?c ?v k p"
    and le: "?v + rec_size p \<le> r_tail r" by (auto dest: recs_at_le)
  have ne: "?h \<noteq> r_tail r"
    using le rec_size_ge [of p] skip_pad_ge [of ?h ?m ?c] by auto
  have cnt: "r_count r - 1 = length rs'" using I(8) Cons by simp
  show ?thesis
  proof (cases "snd (read_header ?m (?h mod ?c)) = KIND_PAD")
    case True
    then have v: "?v = ?h + (?c - ?h mod ?c)" by (simp add: skip_pad_def)
    have z: "?v mod ?c = 0"
    proof -
      have "?h mod ?c \<le> ?c" using I(2) by (simp add: less_imp_le_nat)
      then have "?v = ?h - ?h mod ?c + ?c" using v by simp
      then show ?thesis by (simp add: minus_mod_eq_mult_div)
    qed
    from at1 z have "read_header ?m 0 = (length p, k)" "read_bytes ?m REC_HDR (length p) = p"
      by (simp_all add: rec_at_def)
    with True v ne cnt Cons x show ?thesis
      by (auto simp: pop_locked_def Let_def rec_size_def add.assoc split: prod.splits)
  next
    case False
    then have v: "?v = ?h" by (simp add: skip_pad_def)
    with at1 have "read_header ?m (?h mod ?c) = (length p, k)"
      "read_bytes ?m (?h mod ?c + REC_HDR) (length p) = p" "k \<noteq> KIND_PAD"
      by (simp_all add: rec_at_def)
    with v ne cnt Cons x show ?thesis
      by (auto simp: pop_locked_def Let_def rec_size_def add.assoc)
  qed
qed

lemma skip_pad_dvd:
  assumes "8 dvd c" "8 dvd h" shows "8 dvd skip_pad m c h"
proof -
  have "8 dvd c - h mod c" using assms by (auto intro: dvd_diff_nat dvd_mod)
  with assms show ?thesis by (simp add: skip_pad_def)
qed

lemma pop_locked_inv:
  assumes inv: "ring_inv r ((k, p) # rs)"
  shows "snd (pop_locked r) = Some (k, p)" and "ring_inv (fst (pop_locked r)) rs"
proof -
  let ?v = "skip_pad (r_mem r) (r_cap r) (r_head r)"
  note I = ring_invD [OF inv]
  show "snd (pop_locked r) = Some (k, p)"
    by (simp add: pop_locked_refines [OF inv])
  have le: "?v + rec_size p \<le> r_tail r"
    using recs_at_Cons_le [OF I(9)] .
  have "8 dvd ?v" using I(1,4) by (simp add: skip_pad_dvd)
  moreover have "r_tail r - (?v + rec_size p) \<le> r_cap r"
    using I(7) skip_pad_ge [of "r_head r" "r_mem r" "r_cap r"] by linarith
  ultimately show "ring_inv (fst (pop_locked r)) rs"
    using inv by (auto simp: pop_locked_refines [OF inv] ring_inv_def)
qed

lemma pop_locked_empty: "ring_inv r [] \<Longrightarrow> pop_locked r = (r, None)"
  by (cases r) (simp add: pop_locked_def ring_inv_def)

text \<open>
  Bytes written at positions of the free window \<open>[t, t + n)\<close> leave the live window \<open>[h, t)\<close>
  untouched: the two windows together are no longer than the ring.
\<close>

lemma write_record_window:
  assumes "n \<le> c" and "t + n \<le> h + c" and "h \<le> t" and "v mod c + rec_size p \<le> c"
    and "t \<le> v" and "v + rec_size p \<le> t + n"
  shows "window_eq c h t m (write_record m (v mod c) k p)"
  unfolding window_eq_def
proof (intro allI impI)
  fix x assume x: "h \<le> x \<and> x < t"
  show "m (x mod c) = write_record m (v mod c) k p (x mod c)"
  proof (cases "v mod c \<le> x mod c \<and> x mod c < v mod c + 8 + length p")
    case True
    define j where "j = x mod c - v mod c"
    with True have j: "x mod c = v mod c + j" "j < 8 + length p" by auto
    then have jr: "j < rec_size p" using rec_size_ge [of p] by linarith
    have "x mod c = (v + j) mod c"
      using j jr assms(4) by (metis less_le_trans mod_add_small nat_add_left_cancel_less)
    then have "x = v + j"
      using mod_window_inj [of x c "v + j" h] x jr assms by auto
    with x assms show ?thesis by linarith
  next
    case False
    then have "x mod c < v mod c \<or> v mod c + 8 + length p \<le> x mod c" by auto
    then show ?thesis by (simp add: write_record_outside)
  qed
qed

lemma recs_at_single:
  assumes "8 dvd h" and "skip_pad m c h = v" and "rec_at m c v k p"
  shows "recs_at m c h (v + rec_size p) [(k, p)]"
  using assms by simp

lemma mod_complement: "0 < c \<Longrightarrow> (t + (c - t mod c)) mod c = (0::nat)"
proof -
  assume "0 < c"
  then have "t + (c - t mod c) = t - t mod c + c" by (simp add: less_imp_le_nat)
  then show ?thesis by (simp add: minus_mod_eq_mult_div)
qed

text \<open>A record written without padding, read back where the pop will look for it.\<close>

lemma commit_plain:
  assumes "8 dvd c" "0 < c" "8 dvd t" "h \<le> t" "t + rec_size p \<le> h + c" "t mod c + rec_size p \<le> c"
    and k: "k \<noteq> KIND_PAD" "k < 2 ^ 32" and p: "length p < 2 ^ 32"
    and rs: "recs_at m c h t rs"
  shows "recs_at (write_record m (t mod c) k p) c h (t + rec_size p) (rs @ [(k, p)])"
proof -
  let ?m = "write_record m (t mod c) k p"
  have "window_eq c h t m ?m"
    using assms by (intro write_record_window [where n = "rec_size p"]) auto
  then have "recs_at ?m c h t rs" using recs_at_cong assms rs by blast
  moreover have "recs_at ?m c t (t + rec_size p) [(k, p)]"
    using assms read_write_record [OF p k(2), of m "t mod c"]
    by (intro recs_at_single) (auto simp: skip_pad_def rec_at_def REC_HDR_def)
  ultimately show ?thesis by (rule recs_at_snoc)
qed

text \<open>A record that would cross the end: a pad header, then the record at position 0.\<close>

lemma commit_padded:
  assumes c: "8 dvd c" "0 < c" "8 dvd t" "h \<le> t"
    and pad: "pad = c - t mod c" "pad < rec_size p" and room: "t + pad + rec_size p \<le> h + c"
    and k: "k \<noteq> KIND_PAD" "k < 2 ^ 32" and p: "length p < 2 ^ 32"
    and rs: "recs_at m c h t rs"
  shows "recs_at (write_record (write_record m (t mod c) KIND_PAD []) 0 k p) c h
           (t + pad + rec_size p) (rs @ [(k, p)])"
proof -
  let ?v = "t + pad" and ?m1 = "write_record m (t mod c) KIND_PAD []"
  let ?m = "write_record ?m1 0 k p"
  have v0: "?v mod c = 0" unfolding pad(1) using c(2) by (rule mod_complement)
  have pad8: "8 \<le> pad" using dvd_room [of c t] c pad(1) by simp
  have rc: "pad + rec_size p \<le> c" using room c(4) by linarith
  have sz: "rec_size [] = 8" by (simp add: rec_size_def REC_HDR_def align8_def)
  have w1: "window_eq c h t m ?m1"
    using c room pad rc pad8 sz dvd_room [of c t]
    by (intro write_record_window [where n = "pad + rec_size p"]) auto
  have w2: "window_eq c h t ?m1 ?m"
    using c room rc v0 write_record_window [of "pad + rec_size p" c t h ?v p ?m1 k] by simp
  have hdr: "read_header ?m (t mod c) = (0, KIND_PAD)"
  proof -
    have far: "8 + length p \<le> t mod c"
      using rc rec_size_ge [of p] pad c(2) mod_less_divisor [of c t] by linarith
    have "read_header ?m (t mod c) = read_header ?m1 (t mod c)"
      using far by (intro read_header_cong) (auto simp: write_record_outside)
    also have "\<dots> = (0, KIND_PAD)"
      using read_write_record(1) [of "[]" KIND_PAD m "t mod c"] by (simp add: KIND_PAD_def)
    finally show ?thesis .
  qed
  have "window_eq c h t m ?m" using w1 w2 by (simp add: window_eq_def)
  then have "recs_at ?m c h t rs" using recs_at_cong c rs by blast
  moreover have "recs_at ?m c t (?v + rec_size p) [(k, p)]"
    using hdr v0 c pad rc k read_write_record [OF p k(2), of ?m1 0]
    by (intro recs_at_single) (auto simp: skip_pad_def rec_at_def REC_HDR_def)
  ultimately show ?thesis by (rule recs_at_snoc)
qed

lemma commit_locked_None_iff: "commit_locked r k p = None \<longleftrightarrow> \<not> (has_slot r \<and> fits r p)"
  by (simp add: commit_locked_def Let_def)

lemma commit_locked_inv:
  assumes inv: "ring_inv r rs" and k: "k \<noteq> KIND_PAD" "k < 2 ^ 32"
    and ok: "commit_locked r k p = Some r'"
  shows "ring_inv r' (rs @ [(k, p)])"
proof -
  let ?c = "r_cap r" and ?t = "r_tail r" and ?h = "r_head r"
  note I = ring_invD [OF inv]
  from ok have fit: "(?t - ?h) + pad_size r p + rec_size p \<le> ?c"
    and r': "r' = r\<lparr>r_mem := write_record
               (if pad_size r p > 0 then write_record (r_mem r) (?t mod ?c) KIND_PAD [] else r_mem r)
               (if pad_size r p > 0 then 0 else ?t mod ?c) k p,
             r_tail := ?t + pad_size r p + rec_size p, r_count := r_count r + 1\<rparr>"
    by (auto simp: commit_locked_def fits_def Let_def split: if_splits)
  have p: "length p < 2 ^ 32"
    using fit I(3) rec_size_ge [of p] by linarith
  have pos: "?t mod ?c < ?c" using I(2) by simp
  have "recs_at (r_mem r') ?c ?h (?t + pad_size r p + rec_size p) (rs @ [(k, p)])"
  proof (cases "?c - ?t mod ?c < rec_size p")
    case True
    then have pd: "pad_size r p = ?c - ?t mod ?c" by (simp add: pad_size_def Let_def)
    with pos have "0 < pad_size r p" by simp
    with commit_padded [OF I(1,2,5,6) pd _ _ k p I(9)] True fit I(6) r' pd show ?thesis by simp
  next
    case False
    then have pd: "pad_size r p = 0" by (simp add: pad_size_def Let_def)
    with commit_plain [OF I(1,2,5,6) _ _ k p I(9)] False fit I(6) r' pos show ?thesis by simp
  qed
  moreover have "8 dvd pad_size r p"
    using I(1,5) by (auto simp: pad_size_def Let_def intro: dvd_diff_nat dvd_mod)
  moreover have "has_slot r" using ok by (auto simp: commit_locked_def split: if_splits)
  ultimately show ?thesis
    using inv fit I(6) r' by (auto simp: ring_inv_def has_slot_def)
qed

text \<open>\<open>read_recs\<close>: the records a reader would pop, computed from the memory.\<close>

fun read_recs :: "memory \<Rightarrow> nat \<Rightarrow> nat \<Rightarrow> nat \<Rightarrow> (nat \<times> bytes) list" where
  "read_recs m c h 0 = []"
| "read_recs m c h (Suc n) =
     (let v = skip_pad m c h; (len, k) = read_header m (v mod c);
          p = read_bytes m (v mod c + REC_HDR) len
      in (k, p) # read_recs m c (v + rec_size p) n)"

lemma read_recs_eq: "recs_at m c h t rs \<Longrightarrow> read_recs m c h (length rs) = rs"
proof (induction rs arbitrary: h)
  case (Cons x rs)
  then show ?case by (cases x) (auto simp: rec_at_def Let_def)
qed simp

definition ring_records :: "ring \<Rightarrow> (nat \<times> bytes) list" where
  "ring_records r = read_recs (r_mem r) (r_cap r) (r_head r) (r_count r)"

lemma ring_records_eq: "ring_inv r rs \<Longrightarrow> ring_records r = rs"
  using read_recs_eq [OF ring_invD(9)] ring_invD(8) by (simp add: ring_records_def)

section \<open>Spills, put and get\<close>

text \<open>
  A payload above \<open>spill_at\<close>, or one the ring has no bytes for while a slot is free, goes to an
  object of its own: a shared-memory object, or a file when shared memory is full. What the ring
  carries is the payload's length (8 bytes) and the object's name. Whether the system has room for
  the object is the environment's answer; object creation is exclusive, so a name already in use
  is an error, never an overwrite.
\<close>

datatype space = Room | NoSpace | Broken

record spill_env =
  e_name :: bytes
  e_shm :: space
  e_disk :: space

record ring_queue =
  q_ring :: ring
  q_shm :: "bytes \<rightharpoonup> bytes"
  q_files :: "bytes \<rightharpoonup> bytes"

definition spill_rec :: "bytes \<Rightarrow> bytes \<Rightarrow> bytes" where
  "spill_rec nm data = enc_le 8 (length data) @ nm"

definition spill_name :: "bytes \<Rightarrow> bytes" where
  "spill_name rec = drop 8 rec"

datatype spill_result = Spilled nat bytes ring_queue | SpillNoSpace | SpillError

definition file_spill_write :: "spill_env \<Rightarrow> bytes \<Rightarrow> ring_queue \<Rightarrow> spill_result" where
  "file_spill_write env data q =
     (case e_disk env of
        Room \<Rightarrow> Spilled KIND_FILE (spill_rec (e_name env) data)
                  (q\<lparr>q_files := (q_files q)(e_name env \<mapsto> data)\<rparr>)
      | NoSpace \<Rightarrow> SpillNoSpace
      | Broken \<Rightarrow> SpillError)"

definition spill :: "spill_env \<Rightarrow> bool \<Rightarrow> bytes \<Rightarrow> ring_queue \<Rightarrow> spill_result" where
  "spill env disk data q =
     (if disk then file_spill_write env data q
      else case e_shm env of
        Room \<Rightarrow>
          (if e_name env \<in> dom (q_shm q) then SpillError
           else Spilled KIND_SPILL (spill_rec (e_name env) data)
                  (q\<lparr>q_shm := (q_shm q)(e_name env \<mapsto> data)\<rparr>))
      | NoSpace \<Rightarrow> file_spill_write env data q
      | Broken \<Rightarrow> SpillError)"

definition discard_spill :: "nat \<Rightarrow> bytes \<Rightarrow> ring_queue \<Rightarrow> ring_queue" where
  "discard_spill kind rec q =
     (if kind = KIND_SPILL then q\<lparr>q_shm := (q_shm q)(spill_name rec := None)\<rparr>
      else q\<lparr>q_files := (q_files q)(spill_name rec := None)\<rparr>)"

text \<open>
  One \<open>put\<close> whose deadline has passed (non-blocking, or the last round of a timed wait): the
  result is \<open>Inr True\<close> when the record was published, \<open>Inr False\<close> when the caller must raise
  \<open>Full\<close>, \<open>Inl OSE\<close> on a system error.
\<close>

definition put_spilled :: "spill_env \<Rightarrow> bool \<Rightarrow> bytes \<Rightarrow> ring_queue \<Rightarrow> ring_queue \<times> (exn + bool)" where
  "put_spilled env disk data q =
     (case spill env disk data q of
        SpillNoSpace \<Rightarrow> (q, Inr False)
      | SpillError \<Rightarrow> (q, Inl OSE)
      | Spilled kind rec q1 \<Rightarrow>
          (case commit_locked (q_ring q1) kind rec of
             Some r \<Rightarrow> (q1\<lparr>q_ring := r\<rparr>, Inr True)
           | None \<Rightarrow> (discard_spill kind rec q1, Inr False)))"

definition ring_put :: "spill_env \<Rightarrow> bool \<Rightarrow> bytes \<Rightarrow> ring_queue \<Rightarrow> ring_queue \<times> (exn + bool)" where
  "ring_put env disk data q =
     (if length data > r_spill_at (q_ring q) then put_spilled env disk data q
      else case commit_locked (q_ring q) KIND_DATA data of
        Some r \<Rightarrow> (q\<lparr>q_ring := r\<rparr>, Inr True)
      | None \<Rightarrow>
          (if has_slot (q_ring q) then put_spilled env disk data q
           else (q, Inr False)))"

text \<open>\<open>materialize\<close>: the payload of a popped record; a spilled one is read and its object removed.\<close>

definition materialize :: "nat \<Rightarrow> bytes \<Rightarrow> ring_queue \<Rightarrow> ring_queue \<times> (exn + bytes)" where
  "materialize kind b q =
     (if kind = KIND_SPILL then
        (case q_shm q (spill_name b) of
           None \<Rightarrow> (q, Inl OSE)
         | Some data \<Rightarrow> (q\<lparr>q_shm := (q_shm q)(spill_name b := None)\<rparr>, Inr (take (dec_le (take 8 b)) data)))
      else if kind = KIND_FILE then
        (case q_files q (spill_name b) of
           None \<Rightarrow> (q, Inl OSE)
         | Some data \<Rightarrow>
             (q\<lparr>q_files := (q_files q)(spill_name b := None)\<rparr>,
              (if dec_le (take 8 b) \<le> length data then Inr (take (dec_le (take 8 b)) data) else Inl OSE)))
      else (q, Inr b))"

definition ring_get :: "ring_queue \<Rightarrow> ring_queue \<times> (exn + bytes option)" where
  "ring_get q =
     (if r_head (q_ring q) = r_tail (q_ring q) then (q, Inr None)
      else case pop_locked (q_ring q) of
        (r, None) \<Rightarrow> (q\<lparr>q_ring := r\<rparr>, Inr None)
      | (r, Some (kind, b)) \<Rightarrow>
          (case materialize kind b (q\<lparr>q_ring := r\<rparr>) of
             (q', Inl e) \<Rightarrow> (q', Inl e)
           | (q', Inr data) \<Rightarrow> (q', Inr (Some data))))"

definition ring_qsize :: "ring_queue \<Rightarrow> nat" where
  "ring_qsize q = r_count (q_ring q)"

section \<open>The queue invariant and its contents\<close>

definition names_of :: "nat \<Rightarrow> (nat \<times> bytes) list \<Rightarrow> bytes list" where
  "names_of kind rs = map (\<lambda>(k, b). spill_name b) (filter (\<lambda>(k, b). k = kind) rs)"

definition rec_ok :: "(bytes \<rightharpoonup> bytes) \<Rightarrow> (bytes \<rightharpoonup> bytes) \<Rightarrow> nat \<times> bytes \<Rightarrow> bool" where
  "rec_ok shm files = (\<lambda>(k, b).
     k = KIND_DATA \<or>
     k = KIND_SPILL \<and> (\<exists>d. shm (spill_name b) = Some d \<and> dec_le (take 8 b) = length d) \<or>
     k = KIND_FILE \<and> (\<exists>d. files (spill_name b) = Some d \<and> dec_le (take 8 b) = length d))"

definition queue_inv :: "ring_queue \<Rightarrow> bool" where
  "queue_inv q \<longleftrightarrow> (let rs = ring_records (q_ring q) in
     ring_inv (q_ring q) rs \<and> (\<forall>x \<in> set rs. rec_ok (q_shm q) (q_files q) x) \<and>
     distinct (names_of KIND_SPILL rs) \<and> distinct (names_of KIND_FILE rs))"

definition payload_of :: "(bytes \<rightharpoonup> bytes) \<Rightarrow> (bytes \<rightharpoonup> bytes) \<Rightarrow> nat \<times> bytes \<Rightarrow> bytes" where
  "payload_of shm files = (\<lambda>(k, b).
     if k = KIND_SPILL then take (dec_le (take 8 b)) (the (shm (spill_name b)))
     else if k = KIND_FILE then take (dec_le (take 8 b)) (the (files (spill_name b)))
     else b)"

definition queue_contents :: "ring_queue \<Rightarrow> bytes list" where
  "queue_contents q = map (payload_of (q_shm q) (q_files q)) (ring_records (q_ring q))"

definition fresh_name :: "spill_env \<Rightarrow> ring_queue \<Rightarrow> bool" where
  "fresh_name env q \<longleftrightarrow> e_name env \<notin> dom (q_shm q) \<and> e_name env \<notin> dom (q_files q)"

lemma names_of_simps [simp]:
  "names_of kind [] = []"
  "names_of kind ((k, b) # rs) = (if k = kind then spill_name b # names_of kind rs else names_of kind rs)"
  "names_of kind (rs @ rs') = names_of kind rs @ names_of kind rs'"
  by (simp_all add: names_of_def)

lemma set_names_of: "set (names_of kind rs) = {spill_name b | b. (kind, b) \<in> set rs}"
  by (force simp: names_of_def)

lemma spill_name_rec [simp]: "spill_name (spill_rec nm d) = nm"
  by (simp add: spill_name_def spill_rec_def)

lemma take_spill_rec [simp]: "take 8 (spill_rec nm d) = enc_le 8 (length d)"
  by (simp add: spill_rec_def)

lemma queue_invI:
  assumes "ring_inv (q_ring q) rs" and "\<And>x. x \<in> set rs \<Longrightarrow> rec_ok (q_shm q) (q_files q) x"
    and "distinct (names_of KIND_SPILL rs)" and "distinct (names_of KIND_FILE rs)"
  shows "queue_inv q" and "queue_contents q = map (payload_of (q_shm q) (q_files q)) rs"
  using assms by (simp_all add: queue_inv_def queue_contents_def ring_records_eq Let_def)

lemma queue_invD:
  assumes "queue_inv q"
  shows "ring_inv (q_ring q) (ring_records (q_ring q))"
    and "\<And>x. x \<in> set (ring_records (q_ring q)) \<Longrightarrow> rec_ok (q_shm q) (q_files q) x"
    and "distinct (names_of KIND_SPILL (ring_records (q_ring q)))"
    and "distinct (names_of KIND_FILE (ring_records (q_ring q)))"
    and "queue_contents q = map (payload_of (q_shm q) (q_files q)) (ring_records (q_ring q))"
  using assms by (simp_all add: queue_inv_def queue_contents_def Let_def)

text \<open>Objects no record names do not matter to a record.\<close>

lemma rec_ok_upd:
  assumes "rec_ok shm files x"
  shows "shm nm = None \<Longrightarrow> rec_ok (shm(nm \<mapsto> d)) files x"
    and "files nm = None \<Longrightarrow> rec_ok shm (files(nm \<mapsto> d)) x"
    and "shm nm = None \<Longrightarrow> payload_of (shm(nm \<mapsto> d)) files x = payload_of shm files x"
    and "files nm = None \<Longrightarrow> payload_of shm (files(nm \<mapsto> d)) x = payload_of shm files x"
  using assms by (auto simp: rec_ok_def payload_of_def kind_defs split: prod.splits)

lemma rec_ok_del:
  assumes "rec_ok shm files x"
  shows "nm \<noteq> spill_name (snd x) \<or> fst x \<noteq> KIND_SPILL \<Longrightarrow> rec_ok (shm(nm := None)) files x"
    and "nm \<noteq> spill_name (snd x) \<or> fst x \<noteq> KIND_FILE \<Longrightarrow> rec_ok shm (files(nm := None)) x"
    and "nm \<noteq> spill_name (snd x) \<or> fst x \<noteq> KIND_SPILL \<Longrightarrow>
           payload_of (shm(nm := None)) files x = payload_of shm files x"
    and "nm \<noteq> spill_name (snd x) \<or> fst x \<noteq> KIND_FILE \<Longrightarrow>
           payload_of shm (files(nm := None)) x = payload_of shm files x"
  using assms by (auto simp: rec_ok_def payload_of_def kind_defs split: prod.splits)

lemma names_of_dom:
  assumes "\<And>x. x \<in> set rs \<Longrightarrow> rec_ok shm files x"
  shows "set (names_of KIND_SPILL rs) \<subseteq> dom shm" and "set (names_of KIND_FILE rs) \<subseteq> dom files"
  using assms by (force simp: set_names_of rec_ok_def kind_defs)+

subsection \<open>Put\<close>

lemma spill_Spilled:
  assumes "spill env disk data q = Spilled k rec q1" and "fresh_name env q"
  shows "rec = spill_rec (e_name env) data" and "q_ring q1 = q_ring q"
    and "k = KIND_SPILL \<and> q1 = q\<lparr>q_shm := (q_shm q)(e_name env \<mapsto> data)\<rparr> \<or>
         k = KIND_FILE \<and> q1 = q\<lparr>q_files := (q_files q)(e_name env \<mapsto> data)\<rparr>"
  using assms
  by (auto simp: spill_def file_spill_write_def split: if_splits space.splits)

lemma put_spilled_ok:
  assumes inv: "queue_inv q" and fresh: "fresh_name env q" and len: "length data < 2 ^ 64"
    and ok: "put_spilled env disk data q = (q', Inr True)"
  shows "queue_inv q'" and "queue_contents q' = queue_contents q @ [data]"
proof -
  define rs where "rs = ring_records (q_ring q)"
  note rs = queue_invD [OF inv, folded rs_def]
  from ok obtain k rec q1 r where sp: "spill env disk data q = Spilled k rec q1"
    and cm: "commit_locked (q_ring q1) k rec = Some r" and q': "q' = q1\<lparr>q_ring := r\<rparr>"
    by (auto simp: put_spilled_def split: spill_result.splits option.splits)
  note S = spill_Spilled [OF sp fresh]
  have kk: "k \<noteq> KIND_PAD" "k < 2 ^ 32" using S(3) by (auto simp: kind_defs)
  have ri: "ring_inv r (rs @ [(k, rec)])"
    using commit_locked_inv [OF rs(1) kk] cm S(2) by simp
  have fr: "e_name env \<notin> set (names_of KIND_SPILL rs)" "e_name env \<notin> set (names_of KIND_FILE rs)"
    "q_shm q (e_name env) = None" "q_files q (e_name env) = None"
    using fresh names_of_dom [OF rs(2)] by (auto simp: fresh_name_def)
  have dec: "dec_le (enc_le 8 (length data)) = length data"
    using len by (simp add: dec_enc_le_small)
  have new: "rec_ok (q_shm q') (q_files q') (k, rec)" "payload_of (q_shm q') (q_files q') (k, rec) = data"
    using S(1,3) dec q' by (auto simp: rec_ok_def payload_of_def kind_defs)
  have old: "rec_ok (q_shm q') (q_files q') x"
    "payload_of (q_shm q') (q_files q') x = payload_of (q_shm q) (q_files q) x" if "x \<in> set rs" for x
    using S(3) q' rec_ok_upd [OF rs(2) [OF that]] fr by auto
  have dist: "distinct (names_of KIND_SPILL (rs @ [(k, rec)]))" "distinct (names_of KIND_FILE (rs @ [(k, rec)]))"
    using rs(3,4) fr S(1) by auto
  have inv': "ring_inv (q_ring q') (rs @ [(k, rec)])" using ri q' by simp
  have ok': "rec_ok (q_shm q') (q_files q') x" if "x \<in> set (rs @ [(k, rec)])" for x
    using that new(1) old(1) [of x] by auto
  show "queue_inv q'" using inv' ok' dist by (rule queue_invI)
  have "queue_contents q' = map (payload_of (q_shm q') (q_files q')) (rs @ [(k, rec)])"
    using inv' ok' dist by (rule queue_invI)
  also have "\<dots> = queue_contents q @ [data]"
    using new old rs(5) by simp
  finally show "queue_contents q' = queue_contents q @ [data]" .
qed

lemma put_spilled_fail:
  assumes "fresh_name env q" and "put_spilled env disk data q = (q', res)" and "res \<noteq> Inr True"
  shows "q' = q"
proof (cases "spill env disk data q")
  case (Spilled k rec q1)
  note S = spill_Spilled [OF Spilled assms(1)]
  have "commit_locked (q_ring q1) k rec = None"
    using assms Spilled by (auto simp: put_spilled_def split: option.splits)
  then have "q' = discard_spill k rec q1"
    using assms Spilled by (simp add: put_spilled_def)
  moreover have "(q_shm q)(e_name env := None) = q_shm q" "(q_files q)(e_name env := None) = q_files q"
    using assms(1) by (auto simp: fresh_name_def)
  ultimately show ?thesis
    using S(1,3) by (elim disjE conjE) (simp_all add: discard_spill_def kind_defs)
qed (use assms in \<open>auto simp: put_spilled_def\<close>)

lemma commit_data_ok:
  assumes inv: "queue_inv q" and cm: "commit_locked (q_ring q) KIND_DATA data = Some r"
  shows "queue_inv (q\<lparr>q_ring := r\<rparr>)" and "queue_contents (q\<lparr>q_ring := r\<rparr>) = queue_contents q @ [data]"
proof -
  define rs where "rs = ring_records (q_ring q)"
  note rs = queue_invD [OF inv, folded rs_def]
  let ?q = "q\<lparr>q_ring := r\<rparr>" and ?rs = "rs @ [(KIND_DATA, data)]"
  have "ring_inv (q_ring ?q) ?rs"
    using commit_locked_inv [OF rs(1) _ _ cm] by (simp add: kind_defs)
  moreover have "rec_ok (q_shm ?q) (q_files ?q) x" if "x \<in> set ?rs" for x
    using that rs(2) by (auto simp: rec_ok_def)
  moreover have "distinct (names_of KIND_SPILL ?rs)" "distinct (names_of KIND_FILE ?rs)"
    using rs(3,4) by (auto simp: kind_defs)
  ultimately have "queue_inv ?q" "queue_contents ?q = map (payload_of (q_shm ?q) (q_files ?q)) ?rs"
    by (blast intro: queue_invI)+
  then show "queue_inv ?q" "queue_contents ?q = queue_contents q @ [data]"
    using rs(5) by (simp_all add: payload_of_def kind_defs)
qed

lemma ring_put_ok:
  assumes "queue_inv q" and "fresh_name env q" and "length data < 2 ^ 64"
    and "ring_put env disk data q = (q', Inr True)"
  shows "queue_inv q'" and "queue_contents q' = queue_contents q @ [data]"
  using assms put_spilled_ok [OF assms(1,2,3)] commit_data_ok [OF assms(1)]
  by (auto simp: ring_put_def split: if_splits option.splits)

lemma ring_put_fail:
  assumes "fresh_name env q" and "ring_put env disk data q = (q', res)" and "res \<noteq> Inr True"
  shows "q' = q"
  using assms put_spilled_fail [OF assms(1) _ assms(3)]
  by (auto simp: ring_put_def split: if_splits option.splits)

subsection \<open>Get\<close>

lemma ring_get_Nil:
  assumes "queue_inv q" and "queue_contents q = []"
  shows "ring_get q = (q, Inr None)"
proof -
  from assms have "ring_inv (q_ring q) []"
    using queue_invD [OF assms(1)] by simp
  then show ?thesis by (auto simp: ring_get_def dest: ring_invD)
qed

lemma ring_get_Cons:
  assumes inv: "queue_inv q" and c: "queue_contents q = data # ds"
  obtains q' where "ring_get q = (q', Inr (Some data))" and "queue_inv q'" and "queue_contents q' = ds"
proof -
  define rs where "rs = ring_records (q_ring q)"
  note rs = queue_invD [OF inv, folded rs_def]
  with c obtain k b rs' where cons: "rs = (k, b) # rs'"
    and data: "payload_of (q_shm q) (q_files q) (k, b) = data"
    and ds: "ds = map (payload_of (q_shm q) (q_files q)) rs'"
    by (cases rs) auto
  from pop_locked_inv [of "q_ring q" k b rs'] rs(1) cons
  obtain r where pop: "pop_locked (q_ring q) = (r, Some (k, b))" and ri: "ring_inv r rs'"
    by (cases "pop_locked (q_ring q)") auto
  have ne: "r_head (q_ring q) \<noteq> r_tail (q_ring q)"
  proof
    assume "r_head (q_ring q) = r_tail (q_ring q)"
    with pop show False by (simp add: pop_locked_def)
  qed
  define q' where "q' = fst (materialize k b (q\<lparr>q_ring := r\<rparr>))"
  have mat: "materialize k b (q\<lparr>q_ring := r\<rparr>) = (q', Inr data)" and ring: "q_ring q' = r"
    and shm: "q_shm q' = (if k = KIND_SPILL then (q_shm q)(spill_name b := None) else q_shm q)"
    and files: "q_files q' = (if k = KIND_FILE then (q_files q)(spill_name b := None) else q_files q)"
    using rs(2) [of "(k, b)"] cons data
    by (auto simp: q'_def materialize_def rec_ok_def payload_of_def kind_defs)
  have names: "spill_name b \<noteq> spill_name (snd x) \<or> fst x \<noteq> k" if "x \<in> set rs'" "k \<noteq> KIND_DATA" for x
  proof -
    have "k = KIND_SPILL \<or> k = KIND_FILE"
      using rs(2) [of "(k, b)"] cons that by (auto simp: rec_ok_def)
    then have "spill_name b \<notin> set (names_of k rs')" using rs(3,4) cons by auto
    with that show ?thesis by (cases x) (auto simp: set_names_of)
  qed
  have old: "rec_ok (q_shm q') (q_files q') x \<and>
      payload_of (q_shm q') (q_files q') x = payload_of (q_shm q) (q_files q) x" if "x \<in> set rs'" for x
    using rec_ok_del [OF rs(2), of x] rs(2) [of x] names [OF that] that cons shm files
    by (auto simp: kind_defs)
  have "queue_inv q'" "queue_contents q' = map (payload_of (q_shm q') (q_files q')) rs'"
    using ri ring old rs(3,4) cons by (auto intro!: queue_invI split: if_splits)
  moreover have "map (payload_of (q_shm q') (q_files q')) rs' = ds"
    using old ds by simp
  moreover have "ring_get q = (q', Inr (Some data))"
    using ne pop mat by (simp add: ring_get_def)
  ultimately show ?thesis using that by simp
qed

section \<open>The ring is a first-in first-out queue\<close>

definition ring_admissible :: "spill_env \<times> bool \<Rightarrow> bytes \<Rightarrow> ring_queue \<Rightarrow> bool" where
  "ring_admissible = (\<lambda>(env, disk) data q. fresh_name env q \<and> length data < 2 ^ 64)"

definition ring_put_op :: "spill_env \<times> bool \<Rightarrow> bytes \<Rightarrow> ring_queue \<Rightarrow> ring_queue \<times> (exn + bool)" where
  "ring_put_op = (\<lambda>(env, disk) data q. ring_put env disk data q)"

interpretation rq: fifo_queue queue_inv queue_contents ring_admissible ring_put_op ring_get
proof unfold_locales
  fix q e m q' assume "queue_inv q" "ring_admissible e m q" "ring_put_op e m q = (q', Inr True)"
  then show "queue_inv q' \<and> queue_contents q' = queue_contents q @ [m]"
    by (auto simp: ring_admissible_def ring_put_op_def split: prod.splits dest: ring_put_ok)
next
  fix q e m q' and res :: "exn + bool"
  assume "ring_admissible e m q" "ring_put_op e m q = (q', res)" "res \<noteq> Inr True"
  then show "q' = q"
    by (auto simp: ring_admissible_def ring_put_op_def split: prod.splits dest: ring_put_fail)
next
  fix q assume "queue_inv q" "queue_contents q = []"
  then show "ring_get q = (q, Inr None)" by (rule ring_get_Nil)
next
  fix q m ms assume "queue_inv q" "queue_contents q = m # ms"
  then show "\<exists>q'. ring_get q = (q', Inr (Some m)) \<and> queue_inv q' \<and> queue_contents q' = ms"
    by (blast elim: ring_get_Cons)
qed

definition new_queue :: "nat \<Rightarrow> nat \<Rightarrow> nat option \<Rightarrow> ring_queue" where
  "new_queue maxsize ring_bytes spill_at =
     \<lparr>q_ring = ring_new maxsize ring_bytes spill_at, q_shm = Map.empty, q_files = Map.empty\<rparr>"

lemma new_queue_inv:
  assumes "ring_bytes \<le> 2 ^ 32 - 8"
  shows "queue_inv (new_queue maxsize ring_bytes sp)" and "queue_contents (new_queue maxsize ring_bytes sp) = []"
  using queue_invI [of "new_queue maxsize ring_bytes sp" "[]"] ring_new_inv [OF assms]
  by (simp_all add: new_queue_def)

text \<open>
  C9: for every interleaving of puts and gets by any number of processes on one edge, from an empty
  ring, what the gets delivered followed by what is still queued is exactly what the puts accepted,
  in order: the byte ring with padding, wrap-around and spilled payloads neither loses, duplicates,
  reorders nor corrupts a payload.
\<close>

theorem ring_fifo_history:
  assumes "ring_bytes \<le> 2 ^ 32 - 8"
    and "ops_admissible ring_admissible ring_put_op ring_get ops (new_queue maxsize ring_bytes sp)"
    and "queue_run ring_put_op ring_get ops (new_queue maxsize ring_bytes sp) = (q', accepted, delivered)"
  shows "queue_inv q' \<and> accepted = delivered @ queue_contents q'"
  using rq.run_history [OF new_queue_inv(1) [OF assms(1)] assms(2,3)] new_queue_inv(2) [OF assms(1)] by simp

text \<open>Witness: two puts (one spilled by its size) and a get on a small ring.\<close>

theorem ring_fifo_history_witness:
  "\<exists>q' accepted delivered.
     queue_run ring_put_op ring_get
       [PutOp (\<lparr>e_name = [1], e_shm = Room, e_disk = Room\<rparr>, False) [7, 8, 9],
        PutOp (\<lparr>e_name = [2], e_shm = NoSpace, e_disk = Room\<rparr>, False) (replicate 20000 5), GetOp]
       (new_queue 4 65536 None) = (q', accepted, delivered) \<and>
     queue_inv q' \<and> accepted = delivered @ queue_contents q'"
proof -
  let ?ops = "[PutOp (\<lparr>e_name = [1], e_shm = Room, e_disk = Room\<rparr>, False) [7, 8, 9 :: byte],
    PutOp (\<lparr>e_name = [2], e_shm = NoSpace, e_disk = Room\<rparr>, False) (replicate 20000 5), GetOp]"
  let ?q = "new_queue 4 65536 None"
  obtain q' a d where r: "queue_run ring_put_op ring_get ?ops ?q = (q', a, d)"
    by (cases "queue_run ring_put_op ring_get ?ops ?q") auto
  have "ops_admissible ring_admissible ring_put_op ring_get ?ops ?q"
    by (simp add: ring_admissible_def fresh_name_def new_queue_def ring_put_op_def ring_put_def
          commit_locked_def ring_ops Let_def)
  from ring_fifo_history [OF _ this r] r show ?thesis by simp
qed

lemma recs_at_length: "recs_at m c h t rs \<Longrightarrow> h + 8 * length rs \<le> t"
proof (induction rs arbitrary: h)
  case (Cons x rs)
  obtain k p where x: "x = (k, p)" by (cases x)
  from Cons.prems x have "skip_pad m c h + rec_size p + 8 * length rs \<le> t"
    by (auto intro: Cons.IH)
  with skip_pad_ge [of h m c] rec_size_ge [of p] show ?case by simp
qed simp



lemma put_spilled_room:
  assumes "e_shm env = Room" and "e_disk env = Room" and "fresh_name env q" and "has_slot (q_ring q)"
    and "fits (q_ring q) (spill_rec (e_name env) data)"
  shows "snd (put_spilled env disk data q) = Inr True"
  using assms
  by (cases disk)
     (simp_all add: put_spilled_def spill_def file_spill_write_def fresh_name_def commit_locked_def
        domIff Let_def)

text \<open>
  A put is refused only for a reason the queue can name. With a free slot, ring bytes for a
  spill record and room for the spill object, every payload is accepted, whatever its size, even
  when the payload itself does not fit the ring.
\<close>

theorem ring_put_progress:
  assumes "fresh_name env q" and "has_slot (q_ring q)" and "e_shm env = Room" and "e_disk env = Room"
    and "fits (q_ring q) (spill_rec (e_name env) data)"
  shows "snd (ring_put env disk data q) = Inr True"
  using put_spilled_room [OF assms(3,4,1,2,5)] assms(2)
  by (auto simp: ring_put_def split: option.splits)

theorem ring_put_progress_witness:
  "snd (ring_put \<lparr>e_name = [1], e_shm = Room, e_disk = Room\<rparr> False (replicate 100000 0) (new_queue 4 65536 None))
   = Inr True"
  by (rule ring_put_progress)
     (simp_all add: fresh_name_def new_queue_def spill_rec_def ring_ops Let_def)

end
