(* ===== verification/Pipe_Shm.thy ===== *)
theory Pipe_Shm
  imports Pipe_Payload Pipe_Ring
begin

text \<open>
  The queue object of an edge (\<^verbatim>\<open>src/pipe/shmqueue.py\<close>) and the Python side of the payload store
  (\<^verbatim>\<open>src/pipe/shmstore.py\<close>): how an object is taken apart into a pickle and the arrays it carries,
  which of them travel by handle, what the receiver rebuilds, and who owns the references meanwhile.
  Pickling, numpy's and torch's views are parameters. The theory shows that the queue of objects is
  the byte ring and the store together: objects arrive whole and in order, whatever the other
  processes do with the store, and every reference ends up with the receiver or is given back.
\<close>

section \<open>Arrays and tensors\<close>

text \<open>
  An array with the bytes it stands for (in C order), and the block of a store it is a view of: the
  store's name, the block and the distance of its first byte from the block's payload.
\<close>

record ndarray =
  a_dtype :: nat
  a_hasobject :: bool
  a_shape :: "nat list"
  a_strides :: "int list"
  a_bytes :: bytes
  a_block :: "(string \<times> handle \<times> int) option"

record tensor =
  t_cpu :: bool
  t_strided :: bool
  t_dtype :: nat
  t_shape :: "nat list"
  t_stride :: "int list"
  t_bytes :: bytes
  t_grad :: bool
  t_is_leaf :: bool
  t_block :: "(string \<times> handle \<times> int) option"

datatype leaf = NdLeaf ndarray | TLeaf tensor

text \<open>What the consumer can tell of an array: kind, dtype, shape, bytes, whether it requires grad.\<close>

type_synonym leaf_data = "bool \<times> nat \<times> nat list \<times> bytes \<times> bool"

fun leaf_data :: "leaf \<Rightarrow> leaf_data" where
  "leaf_data (NdLeaf a) = (False, a_dtype a, a_shape a, a_bytes a, False)"
| "leaf_data (TLeaf t) = (True, t_dtype t, t_shape t, t_bytes t, t_grad t)"

text \<open>
  Views of a buffer, from numpy and torch: the bytes a dtype, a shape, strides and an offset select
  (\<open>None\<close>: it raises), the strides of a C-ordered array, and the element sizes of the dtypes that
  move as raw bytes (\<open>tensor_itemsizes\<close>).
\<close>

record views =
  np_view :: "nat \<Rightarrow> nat list \<Rightarrow> int list \<Rightarrow> int \<Rightarrow> bytes \<Rightarrow> bytes option"
  np_strides :: "nat \<Rightarrow> nat list \<Rightarrow> int list"
  th_view :: "nat \<Rightarrow> nat list \<Rightarrow> int list \<Rightarrow> int \<Rightarrow> bytes \<Rightarrow> bytes option"
  th_stride :: "nat list \<Rightarrow> int list"
  th_itemsize :: "nat \<Rightarrow> nat option"

section \<open>Reductions\<close>

text \<open>How an array is pickled: by handle, inline, or as its own library does it.\<close>

datatype red =
    NdStored string handle nat "nat list" "int list" int
  | TStored string handle nat "nat list" "int list" int bool
  | TInline bytes nat "nat list" bool
  | NdPlain ndarray
  | TPlain tensor

fun red_handles :: "red \<Rightarrow> handle list" where
  "red_handles (NdStored nm h dt shp strd off) = [h]"
| "red_handles (TStored nm h dt shp strd off grad) = [h]"
| "red_handles _ = []"

record shm_cfg =
  c_name :: string
  c_store :: bool
  c_min :: nat
  c_spill_at :: nat
  c_inline_max :: nat

text \<open>
  A block with a copy of the data, a reference for the handle, and the local \<open>Block\<close> dropped when the
  function that made it returns.
\<close>

definition store_copy :: "bool \<Rightarrow> bytes \<Rightarrow> store \<Rightarrow> store \<times> handle option" where
  "store_copy ok data st =
     (case alloc_bytes ok data st of
        (st1, None) \<Rightarrow> (st1, None)
      | (st1, Some h) \<Rightarrow> (drop_block h (share h st1), Some h))"

definition reduce_ndarray :: "shm_cfg \<Rightarrow> views \<Rightarrow> bool \<Rightarrow> ndarray \<Rightarrow> store \<Rightarrow> store \<times> red option" where
  "reduce_ndarray cfg np ok a st =
     (if length (a_bytes a) < c_min cfg \<or> a_hasobject a then (st, None)
      else
        case (case a_block a of
                Some (nm, h, off) \<Rightarrow>
                  if nm = c_name cfg \<and> np_view np (a_dtype a) (a_shape a) (a_strides a) off (block_bytes st h) \<noteq> None
                  then Some (h, off) else None
              | None \<Rightarrow> None) of
          Some (h, off) \<Rightarrow> (share h st, Some (NdStored (c_name cfg) h (a_dtype a) (a_shape a) (a_strides a) off))
        | None \<Rightarrow>
            (case store_copy ok (a_bytes a) st of
               (st1, None) \<Rightarrow> (st1, None)
             | (st1, Some h) \<Rightarrow>
                 (st1, Some (NdStored (c_name cfg) h (a_dtype a) (a_shape a) (np_strides np (a_dtype a) (a_shape a)) 0))))"

definition reduce_tensor :: "shm_cfg \<Rightarrow> views \<Rightarrow> bool \<Rightarrow> tensor \<Rightarrow> store \<Rightarrow> store \<times> red option" where
  "reduce_tensor cfg np ok t st =
     (if \<not> (t_cpu t \<and> t_strided t \<and> th_itemsize np (t_dtype t) \<noteq> None \<and> c_min cfg \<le> length (t_bytes t) \<and> (t_is_leaf t \<or> \<not> t_grad t))
      then (st, None)
      else
        case (case t_block t of
                Some (nm, h, off) \<Rightarrow> if nm = c_name cfg then Some (h, off) else None
              | None \<Rightarrow> None) of
          Some (h, off) \<Rightarrow>
            (share h st, Some (TStored (c_name cfg) h (t_dtype t) (t_shape t) (t_stride t) (off div int (the (th_itemsize np (t_dtype t)))) (t_grad t)))
        | None \<Rightarrow>
            (case store_copy ok (t_bytes t) st of
               (st1, None) \<Rightarrow> (st1, None)
             | (st1, Some h) \<Rightarrow>
                 (st1, Some (TStored (c_name cfg) h (t_dtype t) (t_shape t) (th_stride np (t_shape t)) 0 (t_grad t)))))"

text \<open>The reducers of the queue: the store first, then inline, then the library's own.\<close>

definition reduce_nd :: "shm_cfg \<Rightarrow> views \<Rightarrow> bool \<Rightarrow> ndarray \<Rightarrow> store \<Rightarrow> store \<times> (exn + red)" where
  "reduce_nd cfg np ok a st =
     (case (if c_store cfg then reduce_ndarray cfg np ok a st else (st, None)) of
        (st1, Some r) \<Rightarrow> (st1, Inr r)
      | (st1, None) \<Rightarrow> (st1, Inr (NdPlain a)))"

definition tensor_reducer :: "shm_cfg \<Rightarrow> views \<Rightarrow> bool \<Rightarrow> tensor \<Rightarrow> store \<Rightarrow> store \<times> (exn + red)" where
  "tensor_reducer cfg np ok t st =
     (case (if c_store cfg then reduce_tensor cfg np ok t st else (st, None)) of
        (st1, Some r) \<Rightarrow> (st1, Inr r)
      | (st1, None) \<Rightarrow>
          (st1,
           if t_cpu t \<and> t_strided t \<and> th_itemsize np (t_dtype t) \<noteq> None \<and> length (t_bytes t) \<le> c_inline_max cfg \<and> (t_is_leaf t \<or> \<not> t_grad t)
           then Inr (TInline (t_bytes t) (t_dtype t) (t_shape t) (t_grad t))
           else if \<not> t_is_leaf t \<and> t_grad t then Inl OtherExn
           else Inr (TPlain t)))"

fun reduce_leaf :: "shm_cfg \<Rightarrow> views \<Rightarrow> bool \<Rightarrow> leaf \<Rightarrow> store \<Rightarrow> store \<times> (exn + red)" where
  "reduce_leaf cfg np ok (NdLeaf a) st = reduce_nd cfg np ok a st"
| "reduce_leaf cfg np ok (TLeaf t) st = tensor_reducer cfg np ok t st"

text \<open>
  \<open>_dumps\<close>: the pickler meets the arrays of the object one after the other; \<open>os\<close> says which
  segments the operating system grants meanwhile.
\<close>

fun reduce_all :: "shm_cfg \<Rightarrow> views \<Rightarrow> (nat \<Rightarrow> bool) \<Rightarrow> leaf list \<Rightarrow> store \<Rightarrow> store \<times> (exn + red list)" where
  "reduce_all cfg np os [] st = (st, Inr [])"
| "reduce_all cfg np os (l # ls) st =
     (case reduce_leaf cfg np (os 0) l st of
        (st1, Inl e) \<Rightarrow> (st1, Inl e)
      | (st1, Inr r) \<Rightarrow>
          (case reduce_all cfg np (\<lambda>i. os (Suc i)) ls st1 of
             (st2, Inl e) \<Rightarrow> (st2, Inl e)
           | (st2, Inr rs) \<Rightarrow> (st2, Inr (r # rs))))"

section \<open>Messages\<close>

text \<open>
  The pickle of an object whose arrays have been reduced, and the pickle of a handle; \<open>pickles\<close> is
  what \<open>pickle\<close> documents of an object it accepts: loading gives it back, and a protocol 2 pickle
  starts with its \<open>PROTO\<close> byte, which is not 0.
\<close>

record 's pickler =
  pk_dumps :: "'s \<Rightarrow> red list \<Rightarrow> bytes"
  pk_loads :: "bytes \<Rightarrow> ('s \<times> red list) option"
  pk_hdumps :: "string \<Rightarrow> handle \<Rightarrow> bytes"
  pk_hloads :: "bytes \<Rightarrow> (string \<times> handle) option"

definition pickles :: "'s pickler \<Rightarrow> 's \<Rightarrow> red list \<Rightarrow> bool" where
  "pickles pk s rs \<longleftrightarrow> pk_loads pk (pk_dumps pk s rs) = Some (s, rs) \<and> take 1 (pk_dumps pk s rs) \<noteq> [0]
     \<and> (\<forall>nm h. pk_hloads pk (pk_hdumps pk nm h) = Some (nm, h))"

definition encode :: "shm_cfg \<Rightarrow> views \<Rightarrow> 's pickler \<Rightarrow> (nat \<Rightarrow> bool) \<Rightarrow> 's \<Rightarrow> leaf list \<Rightarrow> store \<Rightarrow>
    store \<times> (exn + bytes \<times> bool)" where
  "encode cfg np pk os s ls st =
     (case reduce_all cfg np os ls st of
        (st1, Inl e) \<Rightarrow> (st1, Inl e)
      | (st1, Inr rs) \<Rightarrow>
          let data = pk_dumps pk s rs in
          if c_spill_at cfg < length data \<and> c_store cfg then
            (case store_copy (os (length ls)) data st1 of
               (st2, Some h) \<Rightarrow> (st2, Inr (0 # pk_hdumps pk (c_name cfg) h, False))
             | (st2, None) \<Rightarrow> (st2, Inr (data, True)))
          else (st1, Inr (data, False)))"

text \<open>Rebuilding: a stored array adopts the reference of its handle and is a view of the block.\<close>

definition rebuild_ndarray :: "views \<Rightarrow> string \<Rightarrow> handle \<Rightarrow> nat \<Rightarrow> nat list \<Rightarrow> int list \<Rightarrow> int \<Rightarrow> store \<Rightarrow> exn + leaf" where
  "rebuild_ndarray np nm h dt shp strd off st =
     (case adopt h st of
        Inl e \<Rightarrow> Inl e
      | Inr h' \<Rightarrow>
          (case np_view np dt shp strd off (block_bytes st h') of
             None \<Rightarrow> Inl ValueE
           | Some d \<Rightarrow> Inr (NdLeaf \<lparr>a_dtype = dt, a_hasobject = False, a_shape = shp, a_strides = strd, a_bytes = d,
                                   a_block = Some (nm, h', off)\<rparr>)))"

definition rebuild_tensor :: "views \<Rightarrow> string \<Rightarrow> handle \<Rightarrow> nat \<Rightarrow> nat list \<Rightarrow> int list \<Rightarrow> int \<Rightarrow> bool \<Rightarrow> store \<Rightarrow> exn + leaf" where
  "rebuild_tensor np nm h dt shp strd off grad st =
     (case adopt h st of
        Inl e \<Rightarrow> Inl e
      | Inr h' \<Rightarrow>
          (case (th_itemsize np dt, th_view np dt shp strd off (block_bytes st h')) of
             (Some n, Some d) \<Rightarrow>
               Inr (TLeaf \<lparr>t_cpu = True, t_strided = True, t_dtype = dt, t_shape = shp, t_stride = strd, t_bytes = d,
                          t_grad = grad, t_is_leaf = True, t_block = Some (nm, h', off * int n)\<rparr>)
           | _ \<Rightarrow> Inl OtherExn))"

definition rebuild_inline :: "views \<Rightarrow> bytes \<Rightarrow> nat \<Rightarrow> nat list \<Rightarrow> bool \<Rightarrow> leaf" where
  "rebuild_inline np d dt shp grad =
     TLeaf \<lparr>t_cpu = True, t_strided = True, t_dtype = dt, t_shape = shp, t_stride = th_stride np shp, t_bytes = d,
            t_grad = grad, t_is_leaf = True, t_block = None\<rparr>"

fun rebuild :: "views \<Rightarrow> red \<Rightarrow> store \<Rightarrow> exn + leaf" where
  "rebuild np (NdStored nm h dt shp strd off) st = rebuild_ndarray np nm h dt shp strd off st"
| "rebuild np (TStored nm h dt shp strd off grad) st = rebuild_tensor np nm h dt shp strd off grad st"
| "rebuild np (TInline d dt shp grad) st = Inr (rebuild_inline np d dt shp grad)"
| "rebuild np (NdPlain a) st = Inr (NdLeaf (a\<lparr>a_block := None\<rparr>))"
| "rebuild np (TPlain t) st = Inr (TLeaf (t\<lparr>t_block := None\<rparr>))"

declare rebuild_ndarray_def [simp] rebuild_tensor_def [simp] rebuild_inline_def [simp]

fun rebuild_all :: "views \<Rightarrow> red list \<Rightarrow> store \<Rightarrow> exn + leaf list" where
  "rebuild_all np [] st = Inr []"
| "rebuild_all np (r # rs) st =
     (case rebuild np r st of
        Inl e \<Rightarrow> Inl e
      | Inr l \<Rightarrow> (case rebuild_all np rs st of Inl e \<Rightarrow> Inl e | Inr ls \<Rightarrow> Inr (l # ls)))"

definition load_pickle :: "views \<Rightarrow> 's pickler \<Rightarrow> bytes \<Rightarrow> store \<Rightarrow> exn + 's \<times> leaf list" where
  "load_pickle np pk b st =
     (case pk_loads pk b of
        None \<Rightarrow> Inl OtherExn
      | Some (s, rs) \<Rightarrow> (case rebuild_all np rs st of Inl e \<Rightarrow> Inl e | Inr ls \<Rightarrow> Inr (s, ls)))"

text \<open>\<open>load_spilled\<close>: the block is dropped when the function returns.\<close>

definition load_spilled :: "views \<Rightarrow> 's pickler \<Rightarrow> handle \<Rightarrow> store \<Rightarrow> store \<times> (exn + 's \<times> leaf list)" where
  "load_spilled np pk h st =
     (case adopt h st of
        Inl e \<Rightarrow> (st, Inl e)
      | Inr h' \<Rightarrow> (drop_block h' st, load_pickle np pk (block_bytes st h') st))"

definition load :: "views \<Rightarrow> 's pickler \<Rightarrow> bytes \<Rightarrow> store \<Rightarrow> store \<times> (exn + 's \<times> leaf list)" where
  "load np pk b st =
     (if take 1 b = [0] then
        (case pk_hloads pk (drop 1 b) of None \<Rightarrow> (st, Inl OtherExn) | Some (nm, h) \<Rightarrow> load_spilled np pk h st)
      else (st, load_pickle np pk b st))"

section \<open>Reductions keep the payload\<close>

text \<open>What a reduction stands for, given the payloads of the blocks.\<close>

fun red_data :: "views \<Rightarrow> (handle \<Rightarrow> bytes) \<Rightarrow> red \<Rightarrow> leaf_data option" where
  "red_data np rd (NdStored nm h dt shp strd off) =
     map_option (\<lambda>d. (False, dt, shp, d, False)) (np_view np dt shp strd off (rd h))"
| "red_data np rd (TStored nm h dt shp strd off grad) =
     (if th_itemsize np dt = None then None
      else map_option (\<lambda>d. (True, dt, shp, d, grad)) (th_view np dt shp strd off (rd h)))"
| "red_data np rd (TInline d dt shp grad) = Some (True, dt, shp, d, grad)"
| "red_data np rd (NdPlain a) = Some (leaf_data (NdLeaf a))"
| "red_data np rd (TPlain t) = Some (leaf_data (TLeaf t))"

text \<open>
  The arrays of an object: default strides select the bytes in order, an array that is a view of a
  block of the store has its bytes there, and its owner holds a reference to the block.
\<close>

fun wf_leaf :: "shm_cfg \<Rightarrow> views \<Rightarrow> (handle \<Rightarrow> bytes) \<Rightarrow> handle multiset \<Rightarrow> leaf \<Rightarrow> bool" where
  "wf_leaf cfg np rd R (NdLeaf a) \<longleftrightarrow>
     np_view np (a_dtype a) (a_shape a) (np_strides np (a_dtype a) (a_shape a)) 0 (a_bytes a) = Some (a_bytes a) \<and>
     (case a_block a of
        None \<Rightarrow> True
      | Some (nm, h, off) \<Rightarrow> nm = c_name cfg \<longrightarrow>
          h \<in># R \<and> np_view np (a_dtype a) (a_shape a) (a_strides a) off (rd h) \<in> {None, Some (a_bytes a)})"
| "wf_leaf cfg np rd R (TLeaf t) \<longleftrightarrow>
     th_view np (t_dtype t) (t_shape t) (th_stride np (t_shape t)) 0 (t_bytes t) = Some (t_bytes t) \<and>
     (case t_block t of
        None \<Rightarrow> True
      | Some (nm, h, off) \<Rightarrow> nm = c_name cfg \<longrightarrow>
          h \<in># R \<and> th_view np (t_dtype t) (t_shape t) (t_stride t) (off div int (the (th_itemsize np (t_dtype t)))) (rd h)
            = Some (t_bytes t))"

lemma wf_leaf_frame:
  "wf_leaf cfg np rd R l \<Longrightarrow> (\<And>b. b \<in># R \<Longrightarrow> rd' b = rd b) \<Longrightarrow> R \<subseteq># R' \<Longrightarrow> wf_leaf cfg np rd' R' l"
  by (cases l) (auto split: option.splits dest: mset_subset_eqD)

lemma red_data_frame: "(\<And>h. h \<in> set (red_handles r) \<Longrightarrow> rd' h = rd h) \<Longrightarrow> red_data np rd' r = red_data np rd r"
  by (cases r) auto

lemma store_copy_law:
  assumes inv: "store_inv st R" and c: "store_copy ok data st = (st', r)"
  shows "(case r of None \<Rightarrow> store_inv st' R | Some h \<Rightarrow> store_inv st' (add_mset h R) \<and> block_bytes st' h = data)
    \<and> (\<forall>b. b \<in># R \<longrightarrow> block_bytes st' b = block_bytes st b)"
proof -
  obtain st1 q where a: "alloc_bytes ok data st = (st1, q)" by fastforce
  show ?thesis
  proof (cases q)
    case None
    then show ?thesis using ps.al_none [OF inv, of ok data st1] a c by (auto simp: store_copy_def)
  next
    case (Some h)
    have 1: "store_inv st1 (add_mset h R)" "block_bytes st1 h = data" "\<forall>b. b \<in># R \<longrightarrow> block_bytes st1 b = block_bytes st b"
      using ps.al_some [OF inv, of ok data st1 h] a Some by auto
    have 2: "store_inv (share h st1) (add_mset h (add_mset h R))" using ps.sh_law [OF 1(1), of h] by simp
    have "b \<in># add_mset h R \<Longrightarrow> block_bytes (drop_block h (share h st1)) b = block_bytes st1 b" for b
      using drop_bytes [OF 2, of h b] by simp
    moreover have "store_inv (drop_block h (share h st1)) (add_mset h R)" using ps.dr_law [OF 2, of h] by simp
    moreover have "st' = drop_block h (share h st1)" "r = Some h" using a c Some by (auto simp: store_copy_def)
    ultimately show ?thesis using 1 by auto
  qed
qed


text \<open>A reducer that returns leaves the references of its reduction in flight and the others alone.\<close>

definition reduced :: "views \<Rightarrow> store \<Rightarrow> store \<Rightarrow> handle multiset \<Rightarrow> leaf \<Rightarrow> exn + red \<Rightarrow> bool" where
  "reduced np st st' R l res \<longleftrightarrow>
     (case res of
        Inl e \<Rightarrow> store_inv st' R
      | Inr r \<Rightarrow> store_inv st' (R + mset (red_handles r)) \<and> red_data np (block_bytes st') r = Some (leaf_data l))
     \<and> (\<forall>b. b \<in># R \<longrightarrow> block_bytes st' b = block_bytes st b)"

lemma reduced_plain: "store_inv st R \<Longrightarrow> red_handles r = [] \<Longrightarrow> red_data np (block_bytes st) r = Some (leaf_data l) \<Longrightarrow>
    reduced np st st R l (Inr r)"
  by (simp add: reduced_def)

lemma reduce_ndarray_law:
  assumes inv: "store_inv st R" and wf: "wf_leaf cfg np (block_bytes st) R (NdLeaf a)"
    and r: "reduce_ndarray cfg np ok a st = (st', res)"
  shows "(\<forall>x. res = Some x \<longrightarrow> reduced np st st' R (NdLeaf a) (Inr x))
    \<and> (res = None \<longrightarrow> store_inv st' R \<and> (\<forall>b. b \<in># R \<longrightarrow> block_bytes st' b = block_bytes st b))"
proof (cases "length (a_bytes a) < c_min cfg \<or> a_hasobject a")
  case True
  then show ?thesis using r inv by (auto simp: reduce_ndarray_def)
next
  case big: False
  define view where "view = (case a_block a of
      Some (nm, h, off) \<Rightarrow>
        if nm = c_name cfg \<and> np_view np (a_dtype a) (a_shape a) (a_strides a) off (block_bytes st h) \<noteq> None
        then Some (h, off) else None
    | None \<Rightarrow> None)"
  have rv: "(st', res) = (case view of
      Some (h, off) \<Rightarrow> (share h st, Some (NdStored (c_name cfg) h (a_dtype a) (a_shape a) (a_strides a) off))
    | None \<Rightarrow> (case store_copy ok (a_bytes a) st of
         (st1, None) \<Rightarrow> (st1, None)
       | (st1, Some h) \<Rightarrow>
           (st1, Some (NdStored (c_name cfg) h (a_dtype a) (a_shape a) (np_strides np (a_dtype a) (a_shape a)) 0))))"
    using r big by (simp add: reduce_ndarray_def view_def)
  show ?thesis
  proof (cases view)
    case None
    obtain st1 q where c: "store_copy ok (a_bytes a) st = (st1, q)" by fastforce
    show ?thesis using store_copy_law [OF inv c] rv None c wf by (cases q) (auto simp: reduced_def)
  next
    case (Some v)
    then obtain h off where v: "view = Some (h, off)" by (cases v) auto
    then have b: "a_block a = Some (c_name cfg, h, off)"
      "np_view np (a_dtype a) (a_shape a) (a_strides a) off (block_bytes st h) \<noteq> None"
      by (auto simp: view_def split: option.splits if_splits prod.splits)
    then have h: "h \<in># R" "np_view np (a_dtype a) (a_shape a) (a_strides a) off (block_bytes st h) = Some (a_bytes a)"
      using wf by auto
    show ?thesis using rv v h share_inv [OF inv h(1)] by (auto simp: reduced_def)
  qed
qed

lemma reduce_tensor_law:
  assumes inv: "store_inv st R" and wf: "wf_leaf cfg np (block_bytes st) R (TLeaf t)"
    and r: "reduce_tensor cfg np ok t st = (st', res)"
  shows "(\<forall>x. res = Some x \<longrightarrow> reduced np st st' R (TLeaf t) (Inr x))
    \<and> (res = None \<longrightarrow> store_inv st' R \<and> (\<forall>b. b \<in># R \<longrightarrow> block_bytes st' b = block_bytes st b))"
proof (cases "t_cpu t \<and> t_strided t \<and> th_itemsize np (t_dtype t) \<noteq> None \<and> c_min cfg \<le> length (t_bytes t)
    \<and> (t_is_leaf t \<or> \<not> t_grad t)")
  case False
  then have "st' = st" "res = None" using r unfolding reduce_tensor_def by (simp_all split: if_splits)
  then show ?thesis using inv by simp
next
  case big: True
  define view where "view = (case t_block t of
      Some (nm, h, off) \<Rightarrow> if nm = c_name cfg then Some (h, off) else None | None \<Rightarrow> None)"
  have rv: "(st', res) = (case view of
      Some (h, off) \<Rightarrow>
        (share h st, Some (TStored (c_name cfg) h (t_dtype t) (t_shape t) (t_stride t)
           (off div int (the (th_itemsize np (t_dtype t)))) (t_grad t)))
    | None \<Rightarrow> (case store_copy ok (t_bytes t) st of
         (st1, None) \<Rightarrow> (st1, None)
       | (st1, Some h) \<Rightarrow>
           (st1, Some (TStored (c_name cfg) h (t_dtype t) (t_shape t) (th_stride np (t_shape t)) 0 (t_grad t)))))"
    using r big unfolding reduce_tensor_def view_def by simp
  show ?thesis
  proof (cases view)
    case None
    obtain st1 q where c: "store_copy ok (t_bytes t) st = (st1, q)" by fastforce
    show ?thesis using store_copy_law [OF inv c] rv None c wf big by (cases q) (auto simp: reduced_def)
  next
    case (Some v)
    then obtain h off where v: "view = Some (h, off)" by (cases v) auto
    then have b: "t_block t = Some (c_name cfg, h, off)" by (auto simp: view_def split: option.splits if_splits prod.splits)
    then have h: "h \<in># R" "th_view np (t_dtype t) (t_shape t) (t_stride t) (off div int (the (th_itemsize np (t_dtype t))))
        (block_bytes st h) = Some (t_bytes t)"
      using wf by auto
    show ?thesis using rv v h share_inv [OF inv h(1)] big by (auto simp: reduced_def)
  qed
qed

lemma reduce_leaf_law:
  assumes inv: "store_inv st R" and wf: "wf_leaf cfg np (block_bytes st) R l" and r: "reduce_leaf cfg np ok l st = (st', res)"
  shows "reduced np st st' R l res"
proof (cases l)
  case (NdLeaf a)
  obtain st1 q where q: "(if c_store cfg then reduce_ndarray cfg np ok a st else (st, None)) = (st1, q)" by fastforce
  have "(\<forall>x. q = Some x \<longrightarrow> reduced np st st1 R l (Inr x))
    \<and> (q = None \<longrightarrow> store_inv st1 R \<and> (\<forall>b. b \<in># R \<longrightarrow> block_bytes st1 b = block_bytes st b))"
    using reduce_ndarray_law [OF inv, of cfg np a ok st1 q] wf q inv NdLeaf by (cases "c_store cfg") auto
  then show ?thesis using r q NdLeaf by (cases q) (auto simp: reduce_nd_def reduced_def)
next
  case (TLeaf t)
  obtain st1 q where q: "(if c_store cfg then reduce_tensor cfg np ok t st else (st, None)) = (st1, q)" by fastforce
  have "(\<forall>x. q = Some x \<longrightarrow> reduced np st st1 R l (Inr x))
    \<and> (q = None \<longrightarrow> store_inv st1 R \<and> (\<forall>b. b \<in># R \<longrightarrow> block_bytes st1 b = block_bytes st b))"
    using reduce_tensor_law [OF inv, of cfg np t ok st1 q] wf q inv TLeaf by (cases "c_store cfg") auto
  then show ?thesis using r q TLeaf by (cases q) (auto simp: tensor_reducer_def reduced_def split: if_splits)
qed


lemma reduce_all_law:
  "store_inv st R \<Longrightarrow> (\<And>l. l \<in> set ls \<Longrightarrow> wf_leaf cfg np (block_bytes st) R l) \<Longrightarrow> reduce_all cfg np os ls st = (st', res) \<Longrightarrow>
   (case res of
      Inl e \<Rightarrow> \<exists>L. store_inv st' (R + L)
    | Inr rs \<Rightarrow> store_inv st' (R + mset (concat (map red_handles rs))) \<and>
        map (red_data np (block_bytes st')) rs = map Some (map leaf_data ls))
   \<and> (\<forall>b. b \<in># R \<longrightarrow> block_bytes st' b = block_bytes st b)"
proof (induction ls arbitrary: st R os st' res)
  case Nil
  then show ?case by auto
next
  case (Cons l ls)
  obtain st1 q where q: "reduce_leaf cfg np (os 0) l st = (st1, q)" by fastforce
  have red: "reduced np st st1 R l q" by (rule reduce_leaf_law [OF Cons.prems(1) _ q]) (simp add: Cons.prems(2))
  show ?case
  proof (cases q)
    case (Inl e)
    then have "st' = st1" "res = Inl e" using Cons.prems(3) q by auto
    moreover have "store_inv st1 (R + {#})" using red Inl by (simp add: reduced_def)
    then have "\<exists>L. store_inv st1 (R + L)" by blast
    ultimately show ?thesis using red by (auto simp: reduced_def)
  next
    case (Inr r)
    let ?R = "R + mset (red_handles r)"
    have 1: "store_inv st1 ?R" "red_data np (block_bytes st1) r = Some (leaf_data l)"
      "\<And>b. b \<in># R \<Longrightarrow> block_bytes st1 b = block_bytes st b"
      using red Inr by (auto simp: reduced_def)
    have wf: "wf_leaf cfg np (block_bytes st1) ?R k" if "k \<in> set ls" for k
      by (rule wf_leaf_frame [of cfg np "block_bytes st" R]) (use Cons.prems(2) that 1(3) in auto)
    obtain st2 p where p: "reduce_all cfg np (\<lambda>i. os (Suc i)) ls st1 = (st2, p)" by fastforce
    note ih = Cons.IH [OF 1(1) wf p]
    have frame: "block_bytes st2 b = block_bytes st b" if "b \<in># R" for b
      using ih [THEN conjunct2, THEN spec, of b] 1(3) [OF that] that by simp
    show ?thesis
    proof (cases p)
      case (Inl e)
      then have e: "st' = st2" "res = Inl e" using Cons.prems(3) q p Inr by auto
      obtain L where "store_inv st2 (?R + L)" using ih Inl by auto
      then have "store_inv st2 (R + (mset (red_handles r) + L))" by (simp add: ac_simps)
      then show ?thesis using e frame by auto
    next
      case (Inr rs)
      then have e: "st' = st2" "res = Inr (r # rs)" using Cons.prems(3) q p \<open>q = Inr r\<close> by auto
      have "red_data np (block_bytes st2) r = red_data np (block_bytes st1) r"
        by (rule red_data_frame) (use ih in auto)
      then show ?thesis using e frame ih 1(2) Inr by (simp add: ac_simps)
    qed
  qed
qed

text \<open>A message on its way: its bytes, the object they stand for, and the references they carry.\<close>

definition carries :: "views \<Rightarrow> 's pickler \<Rightarrow> (handle \<Rightarrow> bytes) \<Rightarrow> handle multiset \<Rightarrow> bytes \<Rightarrow> 's \<times> leaf_data list \<Rightarrow> bool" where
  "carries np pk rd K b d \<longleftrightarrow>
     (\<exists>rs. pickles pk (fst d) rs \<and> map (red_data np rd) rs = map Some (snd d) \<and>
        (b = pk_dumps pk (fst d) rs \<and> K = mset (concat (map red_handles rs)) \<or>
         (\<exists>nm h. b = 0 # pk_hdumps pk nm h \<and> rd h = pk_dumps pk (fst d) rs \<and> K = add_mset h (mset (concat (map red_handles rs))))))"

lemma carries_spilled:
  assumes "pickles pk s rs" and "map (red_data np rd) rs = map Some ds" and "rd h = pk_dumps pk s rs"
  shows "carries np pk rd (add_mset h (mset (concat (map red_handles rs)))) (0 # pk_hdumps pk nm h) (s, ds)"
  unfolding carries_def using assms by (intro exI [of _ rs] conjI disjI2 exI [of _ nm] exI [of _ h]) simp_all

lemma carries_frame:
  assumes "carries np pk rd K b d" and "\<And>h. h \<in># K \<Longrightarrow> rd' h = rd h"
  shows "carries np pk rd' K b d"
proof -
  obtain rs where rs: "pickles pk (fst d) rs" "map (red_data np rd) rs = map Some (snd d)"
    and c: "b = pk_dumps pk (fst d) rs \<and> K = mset (concat (map red_handles rs)) \<or>
      (\<exists>nm h. b = 0 # pk_hdumps pk nm h \<and> rd h = pk_dumps pk (fst d) rs \<and> K = add_mset h (mset (concat (map red_handles rs))))"
    using assms(1) unfolding carries_def by blast
  have "h \<in># K" if "r \<in> set rs" "h \<in> set (red_handles r)" for r h
  proof -
    have "h \<in># mset (concat (map red_handles rs))" using that by auto
    then show ?thesis using c by auto
  qed
  then have "red_data np rd' r = red_data np rd r" if "r \<in> set rs" for r
    using that assms(2) by (intro red_data_frame) auto
  then have "map (red_data np rd') rs = map (red_data np rd) rs" by simp
  with rs c assms(2) show ?thesis unfolding carries_def by (intro exI [of _ rs]) auto
qed

definition picklable :: "shm_cfg \<Rightarrow> views \<Rightarrow> 's pickler \<Rightarrow> (nat \<Rightarrow> bool) \<Rightarrow> 's \<Rightarrow> leaf list \<Rightarrow> store \<Rightarrow> bool" where
  "picklable cfg np pk os s ls st \<longleftrightarrow>
     (case snd (reduce_all cfg np os ls st) of Inl e \<Rightarrow> True | Inr rs \<Rightarrow> pickles pk s rs)"

lemma encode_law:
  assumes inv: "store_inv st R" and wf: "\<And>l. l \<in> set ls \<Longrightarrow> wf_leaf cfg np (block_bytes st) R l"
    and pick: "picklable cfg np pk os s ls st" and enc: "encode cfg np pk os s ls st = (st', res)"
  shows "(case res of
      Inl e \<Rightarrow> \<exists>L. store_inv st' (R + L)
    | Inr (b, disk) \<Rightarrow> \<exists>K. store_inv st' (R + K) \<and> carries np pk (block_bytes st') K b (s, map leaf_data ls))
    \<and> (\<forall>b. b \<in># R \<longrightarrow> block_bytes st' b = block_bytes st b)"
proof -
  obtain st1 q where q: "reduce_all cfg np os ls st = (st1, q)" by fastforce
  note red = reduce_all_law [OF inv wf q]
  show ?thesis
  proof (cases q)
    case (Inl e)
    then show ?thesis using red enc q by (auto simp: encode_def)
  next
    case (Inr rs)
    let ?K = "mset (concat (map red_handles rs))" and ?data = "pk_dumps pk s rs"
    have pk: "pickles pk s rs" using pick q Inr by (simp add: picklable_def)
    have 1: "store_inv st1 (R + ?K)" "map (red_data np (block_bytes st1)) rs = map Some (map leaf_data ls)"
      "\<And>b. b \<in># R \<Longrightarrow> block_bytes st1 b = block_bytes st b" using red Inr by auto
    have direct: "carries np pk (block_bytes st1) ?K ?data (s, map leaf_data ls)"
      using pk 1(2) unfolding carries_def by auto
    show ?thesis
    proof (cases "c_spill_at cfg < length ?data \<and> c_store cfg")
      case False
      then have "st' = st1" "res = Inr (?data, False)" using enc q Inr by (auto simp: encode_def Let_def)
      then show ?thesis using 1 direct by auto
    next
      case True
      obtain st2 p where p: "store_copy (os (length ls)) ?data st1 = (st2, p)" by fastforce
      note copy = store_copy_law [OF 1(1) p]
      have same: "block_bytes st2 b = block_bytes st1 b" if "b \<in># R + ?K" for b using copy that by blast
      then have frame: "\<forall>b. b \<in># R \<longrightarrow> block_bytes st2 b = block_bytes st b" using 1(3) by simp
      have c2: "carries np pk (block_bytes st2) ?K ?data (s, map leaf_data ls)"
        by (rule carries_frame [OF direct]) (use same in auto)
      show ?thesis
      proof (cases p)
        case None
        then have "st' = st2" "res = Inr (?data, True)" using enc q Inr True p by (auto simp: encode_def Let_def)
        then show ?thesis using copy None c2 frame by auto
      next
        case (Some h)
        then have e: "st' = st2" "res = Inr (0 # pk_hdumps pk (c_name cfg) h, False)"
          using enc q Inr True p by (auto simp: encode_def Let_def)
        have "map (red_data np (block_bytes st2)) rs = map (red_data np (block_bytes st1)) rs"
          by (rule map_cong [OF refl], rule red_data_frame) (use same in auto)
        then have "carries np pk (block_bytes st2) (add_mset h ?K) (0 # pk_hdumps pk (c_name cfg) h) (s, map leaf_data ls)"
          using pk 1(2) copy Some by (intro carries_spilled) auto
        moreover have "store_inv st2 (R + add_mset h ?K)" using copy Some by simp
        ultimately have "\<exists>K. store_inv st2 (R + K) \<and>
            carries np pk (block_bytes st2) K (0 # pk_hdumps pk (c_name cfg) h) (s, map leaf_data ls)" by blast
        then show ?thesis using e frame by simp
      qed
    qed
  qed
qed


section \<open>The receiver\<close>

lemma adopt_held: "store_inv st R \<Longrightarrow> a \<in># R \<Longrightarrow> adopt a st = Inr a"
proof -
  assume inv: "store_inv st R" and a: "a \<in># R"
  obtain h where h: "ps_hdr st a = Some h" using held_header [OF inv a] .
  obtain s x d where e: "a = (s, x, d)" by (cases a)
  show ?thesis
  proof (cases d)
    case True
    then have "x = 0" "BLK_HDR + h_len h \<le> ps_dlen st s"
      using inv h unfolding store_inv_def dedicated_ok_def e by auto
    then show ?thesis using True by (simp add: adopt_def e)
  next
    case False
    then have "carve_ok st" "ps_hdr st (s, x, False) = Some h" using inv h by (simp_all add: store_inv_def e)
    then have "x + class_size (h_class h) \<le> ps_seg_bytes st" "BLK_HDR + h_len h \<le> class_size (h_class h)"
      unfolding carve_ok_def by blast+
    then show ?thesis using False by (simp add: adopt_def e)
  qed
qed

fun leaf_handles :: "leaf \<Rightarrow> handle list" where
  "leaf_handles (NdLeaf a) = (case a_block a of None \<Rightarrow> [] | Some (nm, h, off) \<Rightarrow> [h])"
| "leaf_handles (TLeaf t) = (case t_block t of None \<Rightarrow> [] | Some (nm, h, off) \<Rightarrow> [h])"

lemma rebuild_law:
  assumes "store_inv st R" and "set (red_handles r) \<subseteq> set_mset R" and "red_data np (block_bytes st) r = Some d"
  shows "\<exists>l. rebuild np r st = Inr l \<and> leaf_data l = d \<and> leaf_handles l = red_handles r"
  using assms adopt_held [OF assms(1)] by (cases r) (auto split: option.splits if_splits)

lemma rebuild_all_law:
  "store_inv st R \<Longrightarrow> set (concat (map red_handles rs)) \<subseteq> set_mset R \<Longrightarrow> map (red_data np (block_bytes st)) rs = map Some ds \<Longrightarrow>
   \<exists>ls. rebuild_all np rs st = Inr ls \<and> map leaf_data ls = ds \<and> concat (map leaf_handles ls) = concat (map red_handles rs)"
proof (induction rs arbitrary: ds)
  case (Cons r rs)
  then obtain d ds' where ds: "ds = d # ds'" by (cases ds) auto
  obtain l where "rebuild np r st = Inr l" "leaf_data l = d" "leaf_handles l = red_handles r"
    using rebuild_law [of st R r np d] Cons.prems ds by auto
  moreover obtain ls where "rebuild_all np rs st = Inr ls" "map leaf_data ls = ds'"
    "concat (map leaf_handles ls) = concat (map red_handles rs)"
    using Cons.IH [of ds'] Cons.prems ds by auto
  ultimately show ?case using ds by auto
qed simp

lemma load_law:
  assumes inv: "store_inv st (R + K)" and c: "carries np pk (block_bytes st) K b d"
  shows "\<exists>st' s ls. load np pk b st = (st', Inr (s, ls)) \<and> (s, map leaf_data ls) = d
    \<and> store_inv st' (R + mset (concat (map leaf_handles ls))) \<and> (\<forall>a. a \<in># R \<longrightarrow> block_bytes st' a = block_bytes st a)"
proof -
  obtain s ds where d: "d = (s, ds)" by (cases d)
  obtain rs where rs: "pickles pk s rs" "map (red_data np (block_bytes st)) rs = map Some ds"
    and c': "b = pk_dumps pk s rs \<and> K = mset (concat (map red_handles rs)) \<or>
      (\<exists>nm h. b = 0 # pk_hdumps pk nm h \<and> block_bytes st h = pk_dumps pk s rs \<and> K = add_mset h (mset (concat (map red_handles rs))))"
    using c unfolding carries_def d fst_conv snd_conv by blast
  have sub: "set (concat (map red_handles rs)) \<subseteq> set_mset (R + K)" using c' by auto
  obtain ls where ls: "rebuild_all np rs st = Inr ls" "map leaf_data ls = ds"
    "concat (map leaf_handles ls) = concat (map red_handles rs)"
    using rebuild_all_law [OF inv sub rs(2)] by blast
  have lp: "load_pickle np pk (pk_dumps pk s rs) st = Inr (s, ls)"
    using rs(1) ls(1) by (simp add: load_pickle_def pickles_def)
  from c' show ?thesis
  proof (elim disjE exE conjE)
    assume "b = pk_dumps pk s rs" "K = mset (concat (map red_handles rs))"
    then have "load np pk b st = (st, Inr (s, ls))" using lp rs(1) by (simp add: load_def pickles_def)
    moreover have "store_inv st (R + mset (concat (map leaf_handles ls)))"
      using inv ls(3) \<open>K = _\<close> by simp
    ultimately show ?thesis using ls d by auto
  next
    fix nm h
    assume b: "b = 0 # pk_hdumps pk nm h" and h: "block_bytes st h = pk_dumps pk s rs"
      and K: "K = add_mset h (mset (concat (map red_handles rs)))"
    have held: "h \<in># R + K" by (simp add: K)
    have "pk_hloads pk (pk_hdumps pk nm h) = Some (nm, h)" using rs(1) unfolding pickles_def by blast
    then have "load np pk b st = (drop_block h st, Inr (s, ls))"
      using b lp h adopt_held [OF inv held] by (simp add: load_def load_spilled_def)
    moreover have rest: "R + K - {#h#} = R + mset (concat (map leaf_handles ls))" by (simp add: K ls(3))
    then have "store_inv (drop_block h st) (R + mset (concat (map leaf_handles ls)))" using drop_inv [OF inv held] by simp
    moreover have "block_bytes (drop_block h st) a = block_bytes st a" if "a \<in># R" for a
      by (rule drop_bytes [OF inv held]) (use rest that in simp)
    ultimately show ?thesis using ls d by auto
  qed
qed


section \<open>Objects through a queue\<close>

text \<open>
  An edge with its senders, receivers and all other users of the store. A sender encodes an object
  once and then tries to put the message until there is room (or gives up: \<open>put\<close> that raises
  \<open>Full\<close>); meanwhile anyone may use the store. The state: the ring, the store, the references held
  by processes, and the encoded messages that wait to be put, each with the object it stands for.
\<close>

type_synonym 's message = "'s \<times> leaf_data list"
type_synonym 's edge = "ring_queue \<times> store \<times> handle multiset \<times> ('s message \<times> bytes \<times> bool) list"

datatype 's event = Sent "'s message" | Got "'s message" | Dropped | Quiet

inductive shm_step :: "shm_cfg \<Rightarrow> views \<Rightarrow> 's pickler \<Rightarrow> 's edge \<Rightarrow> 's event \<Rightarrow> 's edge \<Rightarrow> bool"
  for cfg np pk where
  shm_encode: "(\<And>l. l \<in> set ls \<Longrightarrow> wf_leaf cfg np (block_bytes st) R l) \<Longrightarrow> picklable cfg np pk os s ls st \<Longrightarrow>
     encode cfg np pk os s ls st = (st', Inr (b, disk)) \<Longrightarrow>
     shm_step cfg np pk (q, st, R, ps) Quiet (q, st', R, ((s, map leaf_data ls), b, disk) # ps)"
| shm_raise: "(\<And>l. l \<in> set ls \<Longrightarrow> wf_leaf cfg np (block_bytes st) R l) \<Longrightarrow> picklable cfg np pk os s ls st \<Longrightarrow>
     encode cfg np pk os s ls st = (st', Inl e) \<Longrightarrow>
     shm_step cfg np pk (q, st, R, ps) Dropped (q, st', R, ps)"
| shm_put: "ring_admissible (env, disk) b q \<Longrightarrow> ring_put_op (env, disk) b q = (q', Inr True) \<Longrightarrow>
     shm_step cfg np pk (q, st, R, ps @ (d, b, disk) # ps') (Sent d) (q', st, R, ps @ ps')"
| shm_full: "ring_admissible (env, disk) b q \<Longrightarrow> ring_put_op (env, disk) b q = (q', Inr False) \<Longrightarrow>
     shm_step cfg np pk (q, st, R, ps @ (d, b, disk) # ps') Quiet (q', st, R, ps @ (d, b, disk) # ps')"
| shm_give_up: "shm_step cfg np pk (q, st, R, ps @ (d, b, disk) # ps') Dropped (q, st, R, ps @ ps')"
| shm_get: "ring_get q = (q', Inr (Some b)) \<Longrightarrow> load np pk b st = (st', Inr (s, ls)) \<Longrightarrow>
     shm_step cfg np pk (q, st, R, ps) (Got (s, map leaf_data ls)) (q', st', R + mset (concat (map leaf_handles ls)), ps)"
| shm_store: "ref_step alloc_bytes share drop_block (st, R) (st', R') \<Longrightarrow>
     shm_step cfg np pk (q, st, R, ps) Quiet (q, st', R', ps)"

inductive shm_run :: "shm_cfg \<Rightarrow> views \<Rightarrow> 's pickler \<Rightarrow> 's edge \<Rightarrow> 's event list \<Rightarrow> 's edge \<Rightarrow> bool"
  for cfg np pk where
  shm_nil: "shm_run cfg np pk e [] e"
| shm_snoc: "shm_run cfg np pk e es e' \<Longrightarrow> shm_step cfg np pk e' x e'' \<Longrightarrow> shm_run cfg np pk e (es @ [x]) e''"

fun sent_msgs :: "'s event list \<Rightarrow> 's message list" where
  "sent_msgs [] = []"
| "sent_msgs (Sent d # es) = d # sent_msgs es"
| "sent_msgs (_ # es) = sent_msgs es"

fun got_msgs :: "'s event list \<Rightarrow> 's message list" where
  "got_msgs [] = []"
| "got_msgs (Got d # es) = d # got_msgs es"
| "got_msgs (_ # es) = got_msgs es"

lemma sent_append [simp]: "sent_msgs (es @ es') = sent_msgs es @ sent_msgs es'"
  by (induction es rule: sent_msgs.induct) auto

lemma got_append [simp]: "got_msgs (es @ es') = got_msgs es @ got_msgs es'"
  by (induction es rule: got_msgs.induct) auto

text \<open>
  The invariant: a list of flights \<open>(K, b, d)\<close> behind the ring's messages, one behind the messages
  that wait, and the references nobody will ever give back.
\<close>

type_synonym 's flight = "handle multiset \<times> bytes \<times> 's message"

definition flights_ok :: "views \<Rightarrow> 's pickler \<Rightarrow> store \<Rightarrow> 's flight list \<Rightarrow> bool" where
  "flights_ok np pk st fs \<longleftrightarrow> list_all (\<lambda>(K, b, d). carries np pk (block_bytes st) K b d) fs"

definition carried :: "'s flight list \<Rightarrow> handle multiset" where
  "carried fs = sum_list (map fst fs)"

lemma carried_simps [simp]:
  "carried [] = {#}" "carried (f # fs) = fst f + carried fs" "carried (fs @ gs) = carried fs + carried gs"
  by (simp_all add: carried_def)

lemma flights_ok_simps [simp]:
  "flights_ok np pk st []"
  "flights_ok np pk st ((K, b, d) # fs) \<longleftrightarrow> carries np pk (block_bytes st) K b d \<and> flights_ok np pk st fs"
  "flights_ok np pk st (fs @ gs) \<longleftrightarrow> flights_ok np pk st fs \<and> flights_ok np pk st gs"
  by (simp_all add: flights_ok_def)

lemma flights_ok_frame:
  assumes "flights_ok np pk st fs" and "\<And>h. h \<in># carried fs \<Longrightarrow> block_bytes st' h = block_bytes st h"
  shows "flights_ok np pk st' fs"
  using assms
proof (induction fs)
  case (Cons f fs)
  obtain K b d where f: "f = (K, b, d)" by (cases f)
  have "carries np pk (block_bytes st') K b d" by (rule carries_frame [of np pk "block_bytes st"]) (use Cons.prems f in auto)
  then show ?case using Cons f by auto
qed simp

definition edge_inv :: "views \<Rightarrow> 's pickler \<Rightarrow> 's edge \<Rightarrow> 's flight list \<Rightarrow> 's flight list \<Rightarrow> handle multiset \<Rightarrow> bool" where
  "edge_inv np pk e fs ws lost \<longleftrightarrow>
     (case e of (q, st, R, ps) \<Rightarrow>
        queue_inv q \<and> map (fst \<circ> snd) fs = queue_contents q \<and> flights_ok np pk st fs \<and>
        map snd ws = map (\<lambda>(d, b, disk). (b, d)) ps \<and> flights_ok np pk st ws \<and>
        store_inv st (R + carried fs + carried ws + lost))"


lemma edge_frame:
  assumes "edge_inv np pk (q, st, R, ps) fs ws lost"
    and "\<And>h. h \<in># R + carried fs + carried ws + lost \<Longrightarrow> block_bytes st' h = block_bytes st h"
    and "store_inv st' (R' + carried fs + carried ws + lost')"
  shows "edge_inv np pk (q, st', R', ps) fs ws lost'"
proof -
  have "flights_ok np pk st' fs" "flights_ok np pk st' ws"
    using assms(1,2) by (auto simp: edge_inv_def intro!: flights_ok_frame [of np pk st])
  then show ?thesis using assms(1,3) by (simp add: edge_inv_def)
qed

lemma waiting_flight:
  assumes "edge_inv np pk (q, st, R, ps @ (d, b, disk) # ps') fs ws lost"
  obtains ws1 K ws2 where "ws = ws1 @ (K, b, d) # ws2" and "map snd ws1 = map (\<lambda>(d, b, disk). (b, d)) ps"
    and "map snd ws2 = map (\<lambda>(d, b, disk). (b, d)) ps'"
proof -
  have "map snd ws = map (\<lambda>(d, b, disk). (b, d)) ps @ (b, d) # map (\<lambda>(d, b, disk). (b, d)) ps'"
    using assms by (simp add: edge_inv_def)
  then obtain ws1 w ws2 where "ws = ws1 @ w # ws2" "map snd ws1 = map (\<lambda>(d, b, disk). (b, d)) ps"
    "snd w = (b, d)" "map snd ws2 = map (\<lambda>(d, b, disk). (b, d)) ps'"
    by (auto simp: map_eq_append_conv map_eq_Cons_conv)
  then show thesis using that [of ws1 "fst w" ws2] by (cases w) auto
qed

lemma encode_edge:
  assumes inv: "edge_inv np pk (q, st, R, ps) fs ws lost"
    and wf: "\<And>l. l \<in> set ls \<Longrightarrow> wf_leaf cfg np (block_bytes st) R l"
    and pick: "picklable cfg np pk os s ls st" and enc: "encode cfg np pk os s ls st = (st', res)"
  shows "case res of
      Inl e \<Rightarrow> \<exists>L. edge_inv np pk (q, st', R, ps) fs ws (lost + L)
    | Inr (b, disk) \<Rightarrow> \<exists>K. edge_inv np pk (q, st', R, ((s, map leaf_data ls), b, disk) # ps) fs ((K, b, (s, map leaf_data ls)) # ws) lost"
proof -
  let ?R = "R + carried fs + carried ws + lost"
  have si: "store_inv st ?R" using inv by (simp add: edge_inv_def)
  have wf': "wf_leaf cfg np (block_bytes st) ?R l" if "l \<in> set ls" for l
    by (rule wf_leaf_frame [OF wf [OF that] refl]) (simp add: union_assoc)
  note law = encode_law [OF si wf' pick enc]
  then have frame: "h \<in># ?R \<Longrightarrow> block_bytes st' h = block_bytes st h" for h by blast
  show ?thesis
  proof (cases res)
    case (Inl e)
    then obtain L where "store_inv st' (?R + L)" using law by auto
    then have "edge_inv np pk (q, st', R, ps) fs ws (lost + L)"
      by (intro edge_frame [OF inv frame]) (simp_all add: ac_simps)
    then show ?thesis using Inl by auto
  next
    case (Inr r)
    obtain b disk where r: "r = (b, disk)" by (cases r)
    obtain K where K: "store_inv st' (?R + K)" "carries np pk (block_bytes st') K b (s, map leaf_data ls)"
      using law Inr r by auto
    have "edge_inv np pk (q, st', R, ps) fs ws (lost + K)"
      by (intro edge_frame [OF inv frame]) (use K(1) in \<open>simp_all add: ac_simps\<close>)
    then have "edge_inv np pk (q, st', R, ((s, map leaf_data ls), b, disk) # ps) fs ((K, b, (s, map leaf_data ls)) # ws) lost"
      using K(2) by (simp add: edge_inv_def ac_simps)
    then show ?thesis using Inr r by auto
  qed
qed

text \<open>One step: what is under way changes the way a first-in first-out queue of objects does.\<close>

definition moved :: "'s event \<Rightarrow> 's flight list \<Rightarrow> 's flight list \<Rightarrow> bool" where
  "moved x fs fs' \<longleftrightarrow>
     (case x of
        Sent d \<Rightarrow> map (snd \<circ> snd) fs' = map (snd \<circ> snd) fs @ [d]
      | Got d \<Rightarrow> map (snd \<circ> snd) fs = d # map (snd \<circ> snd) fs'
      | _ \<Rightarrow> fs' = fs)"

lemma get_edge:
  assumes inv: "edge_inv np pk (q, st, R, ps) fs ws lost" and g: "ring_get q = (q', Inr (Some b))"
  shows "\<exists>st' s ls K fs'. load np pk b st = (st', Inr (s, ls)) \<and> fs = (K, b, (s, map leaf_data ls)) # fs' \<and>
    edge_inv np pk (q', st', R + mset (concat (map leaf_handles ls)), ps) fs' ws lost"
proof -
  have qi: "queue_inv q" and fs: "map (fst \<circ> snd) fs = queue_contents q" and fl: "flights_ok np pk st fs"
    using inv by (auto simp: edge_inv_def)
  have qc: "queue_contents q = b # queue_contents q'" using rq.get_contents [OF qi] g by simp
  have qi': "queue_inv q'" using rq.get_inv [OF qi] g by simp
  obtain K d fs' where f: "fs = (K, b, d) # fs'" "map (fst \<circ> snd) fs' = queue_contents q'"
    using fs qc by (cases fs) (auto split: prod.splits)
  let ?R = "R + carried fs' + carried ws + lost"
  have si: "store_inv st (?R + K)" using inv f(1) by (simp add: edge_inv_def ac_simps)
  obtain st' s ls where l: "load np pk b st = (st', Inr (s, ls))" "(s, map leaf_data ls) = d"
    "store_inv st' (?R + mset (concat (map leaf_handles ls)))" "\<forall>a. a \<in># ?R \<longrightarrow> block_bytes st' a = block_bytes st a"
    using load_law [OF si, of np pk b d] fl f(1) by (simp only: flights_ok_simps) blast
  have "edge_inv np pk (q', st, R, ps) fs' ws (lost + K)"
    using inv f qi' by (simp add: edge_inv_def ac_simps)
  then have "edge_inv np pk (q', st', R + mset (concat (map leaf_handles ls)), ps) fs' ws lost"
    using l(3,4) flights_ok_frame [of np pk st _ st'] by (auto simp: edge_inv_def ac_simps)
  then show ?thesis using l f by blast
qed

lemma shm_step_inv:
  "shm_step cfg np pk e x e' \<Longrightarrow> edge_inv np pk e fs ws lost \<Longrightarrow>
   \<exists>fs' ws' lost'. edge_inv np pk e' fs' ws' lost' \<and> moved x fs fs' \<and> (x \<noteq> Dropped \<longrightarrow> lost' = lost)"
proof (induction rule: shm_step.induct)
  case (shm_encode ls st R os s st' b disk q ps)
  then show ?case using encode_edge [OF shm_encode(4) shm_encode(1-3)] by (auto simp: moved_def)
next
  case (shm_raise ls st R os s st' e q ps)
  then show ?case using encode_edge [OF shm_raise(4) shm_raise(1-3)] by (auto simp: moved_def)
next
  case (shm_put env disk b q q' st R ps d ps')
  obtain ws1 K ws2 where ws: "ws = ws1 @ (K, b, d) # ws2" "map snd ws1 = map (\<lambda>(d, b, disk). (b, d)) ps"
    "map snd ws2 = map (\<lambda>(d, b, disk). (b, d)) ps'" using waiting_flight [OF shm_put(3)] .
  have "queue_inv q" using shm_put(3) by (simp add: edge_inv_def)
  from rq.put_ok [OF this shm_put(1,2)] have "queue_inv q'" "queue_contents q' = queue_contents q @ [b]" by auto
  then have "edge_inv np pk (q', st, R, ps @ ps') (fs @ [(K, b, d)]) (ws1 @ ws2) lost"
    using shm_put(3) ws by (simp add: edge_inv_def ac_simps)
  moreover have "moved (Sent d) fs (fs @ [(K, b, d)])" by (simp add: moved_def)
  ultimately show ?case by blast
next
  case (shm_full env disk b q q' st R ps d ps')
  have "queue_inv q" using shm_full(3) by (simp add: edge_inv_def)
  from rq.put_fail [OF this shm_full(1,2)] have "q' = q" by simp
  then show ?case using shm_full(3) by (auto simp: moved_def)
next
  case (shm_give_up q st R ps d b disk ps')
  obtain ws1 K ws2 where ws: "ws = ws1 @ (K, b, d) # ws2" "map snd ws1 = map (\<lambda>(d, b, disk). (b, d)) ps"
    "map snd ws2 = map (\<lambda>(d, b, disk). (b, d)) ps'" using waiting_flight [OF shm_give_up] .
  then have "edge_inv np pk (q, st, R, ps @ ps') fs (ws1 @ ws2) (K + lost)"
    using shm_give_up by (simp add: edge_inv_def ac_simps)
  then show ?case by (auto simp: moved_def)
next
  case (shm_get q q' b st st' s ls R ps)
  show ?case using get_edge [OF shm_get(3,1)] shm_get(2) by (auto simp: moved_def)
next
  case (shm_store st R st' R' q ps)
  let ?K = "carried fs + carried ws + lost"
  have "store_inv st (R + ?K)" using shm_store(2) by (simp add: edge_inv_def ac_simps)
  then have f: "store_inv st' (R' + ?K)" "\<And>b. b \<in># ?K \<Longrightarrow> block_bytes st' b = block_bytes st b"
    using ps.ref_step_frame [OF shm_store(1), of ?K] by auto
  then have "edge_inv np pk (q, st', R', ps) fs ws lost"
    using shm_store(2) flights_ok_frame [of np pk st _ st'] by (auto simp: edge_inv_def ac_simps)
  then show ?case by (auto simp: moved_def)
qed


lemma shm_run_inv:
  "shm_run cfg np pk e es e' \<Longrightarrow> edge_inv np pk e [] [] {#} \<Longrightarrow>
   \<exists>fs ws lost. edge_inv np pk e' fs ws lost \<and> sent_msgs es = got_msgs es @ map (snd \<circ> snd) fs \<and> (Dropped \<notin> set es \<longrightarrow> lost = {#})"
proof (induction rule: shm_run.induct)
  case (shm_nil e)
  then show ?case by fastforce
next
  case (shm_snoc e es e' x e'')
  obtain fs ws lost where i: "edge_inv np pk e' fs ws lost" "sent_msgs es = got_msgs es @ map (snd \<circ> snd) fs"
    "Dropped \<notin> set es \<longrightarrow> lost = {#}" using shm_snoc.IH [OF shm_snoc.prems] by blast
  obtain fs' ws' lost' where j: "edge_inv np pk e'' fs' ws' lost'" "moved x fs fs'" "x \<noteq> Dropped \<longrightarrow> lost' = lost"
    using shm_step_inv [OF shm_snoc.hyps(2) i(1)] by blast
  have "sent_msgs (es @ [x]) = got_msgs (es @ [x]) @ map (snd \<circ> snd) fs'" using i(2) j(2) by (cases x) (simp_all add: moved_def)
  moreover have "Dropped \<notin> set (es @ [x]) \<longrightarrow> lost' = {#}" using i(3) j(3) by auto
  ultimately show ?case using j(1) by blast
qed

lemma edge_start:
  "limit_bytes \<le> 2 ^ 40 \<Longrightarrow> ring_bytes \<le> 2 ^ 32 - 8 \<Longrightarrow>
   edge_inv np pk (new_queue maxsize ring_bytes sp, store_new limit_bytes seg_bytes, {#}, []) [] [] {#}"
  using new_queue_inv [of ring_bytes maxsize sp] store_new_inv [of limit_bytes seg_bytes] by (simp add: edge_inv_def)


text \<open>A pickler for numbers, and views that show the whole buffer.\<close>

definition demo_cfg :: shm_cfg where
  "demo_cfg = \<lparr>c_name = ''gps1'', c_store = True, c_min = 1, c_spill_at = 16384, c_inline_max = 16384\<rparr>"

definition demo_views :: views where
  "demo_views = \<lparr>np_view = (\<lambda>dt shp strd off d. Some d), np_strides = (\<lambda>dt shp. []), th_view = (\<lambda>dt shp strd off d. Some d),
     th_stride = (\<lambda>shp. []), th_itemsize = (\<lambda>dt. Some 4)\<rparr>"

definition unary :: "nat \<Rightarrow> bytes" where
  "unary n = replicate n 1 @ [0]"

definition get_unary :: "bytes \<Rightarrow> nat \<times> bytes" where
  "get_unary bs = (length (takeWhile (\<lambda>b. b = 1) bs), tl (dropWhile (\<lambda>b. b = 1) bs))"

lemma get_unary_unary [simp]: "get_unary (unary n @ bs) = (n, bs)"
  by (induction n) (auto simp: get_unary_def unary_def)

definition demo_array :: ndarray where
  "demo_array = \<lparr>a_dtype = 7, a_hasobject = False, a_shape = [2], a_strides = [], a_bytes = [7, 8], a_block = None\<rparr>"

fun red_code :: "red \<Rightarrow> bytes" where
  "red_code (NdStored nm (s, x, d) dt shp strd off) = unary s @ unary x @ unary (if d then 1 else 0)"
| "red_code _ = []"

definition demo_pickler :: "nat pickler" where
  "demo_pickler =
     \<lparr>pk_dumps = (\<lambda>n rs. 128 # unary n @ concat (map red_code rs)),
      pk_loads = (\<lambda>b. let (n, r0) = get_unary (tl b); (s, r1) = get_unary r0; (x, r2) = get_unary r1; (d, r3) = get_unary r2
                      in Some (n, if r0 = [] then [] else [NdStored ''gps1'' (s, x, d = 1) 7 [2] [] 0])),
      pk_hdumps = (\<lambda>nm (s, x, d). 128 # unary s @ unary x @ unary (if d then 1 else 0) @ map (\<lambda>c. of_nat (of_char c)) nm),
      pk_hloads = (\<lambda>b. let (s, r1) = get_unary (tl b); (x, r2) = get_unary r1; (d, r3) = get_unary r2
                       in Some (map (\<lambda>b. char_of (unat b)) r3, (s, x, d = 1)))\<rparr>"

lemma demo_pickles: "pickles demo_pickler n [NdStored ''gps1'' h 7 [2] [] 0]"
proof -
  have c: "char_of (unat (of_nat (of_char c) :: byte)) = c" for c
  proof -
    have "of_char c < (256 :: nat)" using rangeI [of "of_char :: char \<Rightarrow> nat" c] range_nat_of_char by auto
    then show ?thesis by (simp add: unat_of_nat)
  qed
  have "get_unary (unary n) = (n, [])" for n using get_unary_unary [of n "[]"] by simp
  moreover have "unary n \<noteq> []" for n by (simp add: unary_def)
  ultimately show ?thesis by (cases h) (auto simp: pickles_def demo_pickler_def Let_def comp_def c)
qed

text \<open>An array of two bytes on its way: the store has its block, with the reference of the message.\<close>

definition demo_store :: store where
  "demo_store = drop_block (0, 0, False) (share (0, 0, False) (fst (alloc_bytes True [7, 8] (store_new (2 ^ 27) (2 ^ 20)))))"

definition demo_bytes :: bytes where
  "demo_bytes = 128 # unary 5 @ unary 0 @ unary 0 @ unary 0"

lemma demo_reduces:
  "reduce_all demo_cfg demo_views (\<lambda>_. True) [NdLeaf demo_array] (store_new (2 ^ 27) (2 ^ 20)) =
   (demo_store, Inr [NdStored ''gps1'' (0, 0, False) 7 [2] [] 0])"
proof -
  have "store_copy True [7, 8] (store_new (2 ^ 27) (2 ^ 20)) = (demo_store, Some (0, 0, False))"
    unfolding store_copy_def demo_store_def by (subst one_block) (simp only: prod.case option.case)
  then show ?thesis by (simp add: reduce_nd_def reduce_ndarray_def demo_cfg_def demo_array_def demo_views_def)
qed

lemma demo_encodes:
  "encode demo_cfg demo_views demo_pickler (\<lambda>_. True) 5 [NdLeaf demo_array] (store_new (2 ^ 27) (2 ^ 20)) =
   (demo_store, Inr (demo_bytes, False))"
  by (simp only: encode_def demo_reduces prod.case sum.case) (simp add: demo_bytes_def demo_pickler_def demo_cfg_def unary_def)

lemma demo_picklable: "picklable demo_cfg demo_views demo_pickler (\<lambda>_. True) 5 [NdLeaf demo_array] (store_new (2 ^ 27) (2 ^ 20))"
  by (simp only: picklable_def demo_reduces snd_conv sum.case demo_pickles)

lemma demo_wf: "l \<in> set [NdLeaf demo_array] \<Longrightarrow> wf_leaf demo_cfg demo_views rd R l"
  by (simp add: demo_array_def demo_views_def)

lemma demo_put: "\<exists>q. ring_put \<lparr>e_name = [1], e_shm = Room, e_disk = Room\<rparr> False demo_bytes (new_queue 4 65536 None) = (q, Inr True)"
proof -
  have "snd (ring_put \<lparr>e_name = [1], e_shm = Room, e_disk = Room\<rparr> False demo_bytes (new_queue 4 65536 None)) = Inr True"
    by (simp add: ring_put_def commit_locked_def new_queue_def ring_ops unary_def demo_bytes_def Let_def)
  then show ?thesis by (cases "ring_put \<lparr>e_name = [1], e_shm = Room, e_disk = Room\<rparr> False demo_bytes (new_queue 4 65536 None)") auto
qed



text \<open>
  After the first hop nothing is copied: an array or tensor that arrived by handle and is put
  onward is reduced to the same handle, with one more reference, whatever the state of the store.
\<close>

theorem forwarded_by_handle:
  assumes "adopt h st = Inr h"
    and "np_view np dt shp strd off (block_bytes st h) = Some d" and "c_min cfg \<le> length d"
    and "th_itemsize np tdt = Some n" and "0 < n"
    and "th_view np tdt tshp tstrd toff (block_bytes st h) = Some td" and "c_min cfg \<le> length td"
  shows "(\<exists>a. rebuild np (NdStored (c_name cfg) h dt shp strd off) st = Inr (NdLeaf a) \<and>
            reduce_ndarray cfg np ok a st = (share h st, Some (NdStored (c_name cfg) h dt shp strd off)))
    \<and> (\<exists>t. rebuild np (TStored (c_name cfg) h tdt tshp tstrd toff grad) st = Inr (TLeaf t) \<and>
            reduce_tensor cfg np ok t st = (share h st, Some (TStored (c_name cfg) h tdt tshp tstrd toff grad)))"
  using assms by (simp add: reduce_ndarray_def reduce_tensor_def)

theorem forwarded_by_handle_witness:
  "adopt (0, 0, False) (store_new (2 ^ 27) (2 ^ 20)) = Inr (0, 0, False) \<and>
   (\<exists>a. rebuild (demo_views\<lparr>np_view := (\<lambda>dt shp strd off d. Some [1]), th_view := (\<lambda>dt shp strd off d. Some [2])\<rparr>)
          (NdStored ''gps1'' (0, 0, False) 7 [1] [1] 0) (store_new (2 ^ 27) (2 ^ 20)) = Inr (NdLeaf a))"
proof -
  let ?st = "store_new (2 ^ 27) (2 ^ 20)"
  have ad: "adopt (0, 0, False) ?st = Inr (0, 0, False)"
    by (simp add: adopt_def store_new_def round_up_def size_consts)
  have "c_name demo_cfg = ''gps1''" by (simp add: demo_cfg_def)
  then show ?thesis
    using ad forwarded_by_handle [of "(0, 0, False)" ?st
        "demo_views\<lparr>np_view := (\<lambda>dt shp strd off d. Some [1]), th_view := (\<lambda>dt shp strd off d. Some [2])\<rparr>" 7 "[1]" "[1]" 0 "[1]"
        demo_cfg 7 4 "[1]" "[1]" 0 "[2]"]
    by (auto simp: demo_cfg_def demo_views_def)
qed


end
