(* ===== verification/Pipe_Crash.thy ===== *)
theory Pipe_Crash
  imports Pipe_Ring
begin

text \<open>
  What a killed process leaves of the ring (\<^verbatim>\<open>rust/src/ring.rs\<close>). The locked sections of \<open>put\<close> and of
  \<open>get\<close> are taken apart into their single stores, down to the bytes of a record, and a process can die
  after any of them; another process takes the lock over and goes on. The theory shows that the
  records in the ring survive every such death, which item can be lost, how far the item count can
  drift, and what that drift can do to the producers.
\<close>

section \<open>The stores of the locked sections\<close>

datatype ring_store = ByteW nat byte | HeadW nat | TailW nat | CountW nat

fun apply_store :: "ring_store \<Rightarrow> ring \<Rightarrow> ring" where
  "apply_store (ByteW i b) r = r\<lparr>r_mem := (r_mem r)(i := b)\<rparr>"
| "apply_store (HeadW h) r = r\<lparr>r_head := h\<rparr>"
| "apply_store (TailW t) r = r\<lparr>r_tail := t\<rparr>"
| "apply_store (CountW n) r = r\<lparr>r_count := n\<rparr>"

fun byte_stores :: "nat \<Rightarrow> bytes \<Rightarrow> ring_store list" where
  "byte_stores i [] = []"
| "byte_stores i (b # bs) = ByteW i b # byte_stores (Suc i) bs"

definition record_bytes :: "nat \<Rightarrow> bytes \<Rightarrow> bytes" where
  "record_bytes kind payload = enc_le 4 (length payload) @ enc_le 4 kind @ payload"

text \<open>\<open>put\<close> with the lock held and room in the ring: the pad record, the record, \<open>tail\<close>, \<open>count\<close>.\<close>

definition record_stores :: "ring \<Rightarrow> nat \<Rightarrow> bytes \<Rightarrow> ring_store list" where
  "record_stores r kind payload =
     (let pos = r_tail r mod r_cap r
      in if 0 < pad_size r payload
         then byte_stores pos (record_bytes KIND_PAD []) @ byte_stores 0 (record_bytes kind payload)
         else byte_stores pos (record_bytes kind payload))"

definition put_stores :: "ring \<Rightarrow> nat \<Rightarrow> bytes \<Rightarrow> ring_store list" where
  "put_stores r kind payload =
     record_stores r kind payload @ [TailW (r_tail r + pad_size r payload + rec_size payload), CountW (r_count r + 1)]"

text \<open>\<open>pop_locked\<close> on a ring that is not empty: \<open>head\<close>, then \<open>count\<close>.\<close>

definition pop_stores :: "ring \<Rightarrow> ring_store list" where
  "pop_stores r = (let r' = fst (pop_locked r) in [HeadW (r_head r'), CountW (r_count r')])"

definition apply_stores :: "ring_store list \<Rightarrow> ring \<Rightarrow> ring" where
  "apply_stores ss r = fold apply_store ss r"

lemma apply_stores_simps [simp]:
  "apply_stores [] r = r" "apply_stores (s # ss) r = apply_stores ss (apply_store s r)"
  "apply_stores (ss @ ss') r = apply_stores ss' (apply_stores ss r)"
  by (simp_all add: apply_stores_def)

lemma apply_byte_stores: "apply_stores (byte_stores i bs) r = r\<lparr>r_mem := write_bytes (r_mem r) i bs\<rparr>"
proof (induction bs arbitrary: i r)
  case Nil
  have "write_bytes (r_mem r) i [] = r_mem r" by (auto simp: write_bytes_def fun_eq_iff)
  then show ?case by simp
next
  case (Cons b bs)
  have "write_bytes ((r_mem r)(i := b)) (Suc i) bs = write_bytes (r_mem r) i (b # bs)"
    by (auto simp: write_bytes_def fun_eq_iff nth_Cons' Suc_diff_le)
  then show ?case using Cons by (simp add: fun_upd_def)
qed

text \<open>Completed, the stores are the operations of the ring.\<close>

lemma put_stores_commit:
  assumes "has_slot r" and "fits r p"
  shows "commit_locked r k p = Some (apply_stores (put_stores r k p) r)"
  using assms
  by (simp add: commit_locked_def put_stores_def record_stores_def apply_byte_stores write_record_def record_bytes_def Let_def)

lemma pop_stores_pop:
  assumes "r_head r \<noteq> r_tail r"
  shows "fst (pop_locked r) = apply_stores (pop_stores r) r"
  using assms by (simp add: pop_stores_def pop_locked_def Let_def split: prod.splits)

section \<open>The records survive\<close>

text \<open>The invariant of the ring without what it says about the count.\<close>

definition ring_live :: "ring \<Rightarrow> (nat \<times> bytes) list \<Rightarrow> bool" where
  "ring_live r rs \<longleftrightarrow>
     8 dvd r_cap r \<and> 64 * 1024 \<le> r_cap r \<and> r_cap r \<le> 2 ^ 32 \<and> 8 dvd r_head r \<and> 8 dvd r_tail r \<and>
     r_tail r - r_head r \<le> r_cap r \<and> recs_at (r_mem r) (r_cap r) (r_head r) (r_tail r) rs"

lemma ring_inv_live: "ring_inv r rs \<Longrightarrow> ring_live r rs"
  by (simp add: ring_inv_def ring_live_def)

lemma ring_live_count [simp]: "ring_live (r\<lparr>r_count := n\<rparr>) rs \<longleftrightarrow> ring_live r rs"
  by (simp add: ring_live_def)

text \<open>A live ring is the ring of the queue proofs with its count put right.\<close>

definition recount :: "ring \<Rightarrow> (nat \<times> bytes) list \<Rightarrow> ring" where
  "recount r rs = r\<lparr>r_count := length rs, r_maxsize := 0, r_spill_at := 0\<rparr>"

lemma recount_inv: "ring_live r rs \<Longrightarrow> ring_inv (recount r rs) rs"
  by (simp add: ring_live_def ring_inv_def recount_def)

lemma recount_sizes [simp]: "pad_size (recount r rs) p = pad_size r p" "fits (recount r rs) p = fits r p"
  by (simp_all add: pad_size_def fits_def recount_def)

definition bytes_in :: "nat set \<Rightarrow> ring_store list \<Rightarrow> bool" where
  "bytes_in S ss \<longleftrightarrow> (\<forall>s \<in> set ss. \<exists>i b. s = ByteW i b \<and> i \<in> S)"

lemma bytes_in_take: "bytes_in S ss \<Longrightarrow> bytes_in S (take n ss)"
  by (auto simp: bytes_in_def dest: in_set_takeD)

lemma bytes_in_byte_stores: "bytes_in S (byte_stores i bs) \<longleftrightarrow> {i..<i + length bs} \<subseteq> S"
proof (induction bs arbitrary: i)
  case (Cons b bs)
  have "{i..<i + length (b # bs)} = insert i {Suc i..<Suc i + length bs}" by auto
  then show ?case using Cons [of "Suc i"] by (auto simp: bytes_in_def)
qed (simp add: bytes_in_def)

lemma apply_bytes_in:
  "bytes_in S ss \<Longrightarrow> \<exists>m. apply_stores ss r = r\<lparr>r_mem := m\<rparr> \<and> (\<forall>i. i \<notin> S \<longrightarrow> m i = r_mem r i)"
proof (induction ss arbitrary: r)
  case Nil
  then show ?case by (intro exI [of _ "r_mem r"]) simp
next
  case (Cons s ss)
  then obtain i b where s: "s = ByteW i b" "i \<in> S" "bytes_in S ss" by (auto simp: bytes_in_def)
  obtain m where "apply_stores ss (apply_store s r) = (apply_store s r)\<lparr>r_mem := m\<rparr>" "\<forall>j. j \<notin> S \<longrightarrow> m j = r_mem (apply_store s r) j"
    using Cons.IH [OF s(3)] by blast
  then show ?case using s(1,2) by (intro exI [of _ m]) auto
qed

text \<open>The bytes a put writes before it publishes are outside the records that are there.\<close>

lemma record_stores_free:
  assumes live: "ring_live r rs" and fit: "fits r p"
  shows "bytes_in {x mod r_cap r | x. r_tail r \<le> x \<and> x < r_tail r + pad_size r p + rec_size p} (record_stores r k p)"
    (is "bytes_in ?S _")
proof -
  let ?c = "r_cap r" and ?t = "r_tail r"
  have c: "0 < ?c" "8 dvd ?c" "8 dvd ?t" using live by (auto simp: ring_live_def)
  have len: "length (record_bytes k p) = 8 + length p" "length (record_bytes KIND_PAD []) = 8" for k p
    by (simp_all add: record_bytes_def)
  have room: "?t mod ?c + 8 \<le> ?c" using dvd_room [OF c(2,3,1)] .
  have sz: "8 + length p \<le> rec_size p" by (rule rec_size_ge)
  show ?thesis
  proof (cases "?c - ?t mod ?c < rec_size p")
    case False
    have "?t mod ?c < ?c" using c(1) by simp
    then have pad: "pad_size r p = 0" and fit1: "?t mod ?c + rec_size p \<le> ?c" using False by (auto simp: pad_size_def Let_def)
    have "{?t mod ?c..<?t mod ?c + (8 + length p)} \<subseteq> ?S"
    proof
      fix i assume i: "i \<in> {?t mod ?c..<?t mod ?c + (8 + length p)}"
      define j where "j = i - ?t mod ?c"
      have "i = ?t mod ?c + j" "j < rec_size p" using i sz by (auto simp: j_def)
      moreover from this have "?t mod ?c + j = (?t + j) mod ?c" using fit1 by (intro mod_add_small) simp
      ultimately show "i \<in> ?S" using pad by (auto intro!: exI [of _ "?t + j"])
    qed
    then show ?thesis using pad by (simp add: record_stores_def bytes_in_byte_stores len Let_def)
  next
    case True
    have pos: "?t mod ?c < ?c" using c(1) by simp
    have pad: "pad_size r p = ?c - ?t mod ?c" using True by (simp add: pad_size_def Let_def)
    then have "0 < pad_size r p" "8 \<le> pad_size r p" using pos room by auto
    have v0: "(?t + pad_size r p) mod ?c = 0" unfolding pad using c(1) by (rule mod_complement)
    have rc: "rec_size p \<le> ?c" using fit by (simp add: fits_def)
    have "{?t mod ?c..<?t mod ?c + 8} \<subseteq> ?S"
    proof
      fix i assume i: "i \<in> {?t mod ?c..<?t mod ?c + 8}"
      define j where "j = i - ?t mod ?c"
      have "i = ?t mod ?c + j" "j < 8" using i by (auto simp: j_def)
      moreover from this have "?t mod ?c + j = (?t + j) mod ?c" using room by (intro mod_add_small) simp
      ultimately show "i \<in> ?S" using \<open>8 \<le> pad_size r p\<close> by (auto intro!: exI [of _ "?t + j"])
    qed
    moreover have "{0..<8 + length p} \<subseteq> ?S"
    proof
      fix i assume i: "i \<in> {0..<8 + length p}"
      then have "i < rec_size p" using sz by auto
      moreover from this have "i = (?t + pad_size r p + i) mod ?c"
        using rc v0 by (metis add_0 less_le_trans mod_add_left_eq mod_less)
      ultimately show "i \<in> ?S" by (auto intro!: exI [of _ "?t + pad_size r p + i"])
    qed
    ultimately have "bytes_in ?S (byte_stores (?t mod ?c) (record_bytes KIND_PAD []))" "bytes_in ?S (byte_stores 0 (record_bytes k p))"
      unfolding bytes_in_byte_stores len by simp_all
    then show ?thesis using \<open>0 < pad_size r p\<close> by (auto simp: record_stores_def bytes_in_def Let_def)
  qed
qed

text \<open>A process that dies before it has published leaves the records as they were.\<close>

lemma unpublished_live:
  assumes live: "ring_live r rs" and fit: "fits r p"
  shows "ring_live (apply_stores (take n (record_stores r k p)) r) rs"
    and "r_count (apply_stores (take n (record_stores r k p)) r) = r_count r"
proof -
  let ?c = "r_cap r" and ?t = "r_tail r" and ?h = "r_head r"
  let ?S = "{x mod ?c | x. ?t \<le> x \<and> x < ?t + pad_size r p + rec_size p}"
  obtain m where m: "apply_stores (take n (record_stores r k p)) r = r\<lparr>r_mem := m\<rparr>" "\<forall>i. i \<notin> ?S \<longrightarrow> m i = r_mem r i"
    using apply_bytes_in [OF bytes_in_take [OF record_stores_free [OF live fit, of k]], of n r] by blast
  have ht: "?h \<le> ?t" using live recs_at_le by (auto simp: ring_live_def)
  have room: "?t + pad_size r p + rec_size p \<le> ?h + ?c" using fit ht by (simp add: fits_def)
  have "window_eq ?c ?h ?t (r_mem r) m"
    unfolding window_eq_def
  proof (intro allI impI)
    fix x assume x: "?h \<le> x \<and> x < ?t"
    have "x mod ?c \<notin> ?S"
    proof
      assume "x mod ?c \<in> ?S"
      then obtain y where "x mod ?c = y mod ?c" "?t \<le> y" "y < ?t + pad_size r p + rec_size p" by auto
      then show False using mod_window_inj [of x ?c y ?h] x room ht by auto
    qed
    then show "r_mem r (x mod ?c) = m (x mod ?c)" using m(2) by simp
  qed
  then have "recs_at m ?c ?h ?t rs" using live recs_at_cong by (auto simp: ring_live_def)
  then show "ring_live (apply_stores (take n (record_stores r k p)) r) rs"
    "r_count (apply_stores (take n (record_stores r k p)) r) = r_count r"
    using live m(1) by (auto simp: ring_live_def)
qed

text \<open>Once \<open>tail\<close> is stored the record is in the ring, counted or not.\<close>

lemma published_live:
  assumes live: "ring_live r rs" and fit: "fits r p" and k: "k \<noteq> KIND_PAD" "k < 2 ^ 32"
  shows "ring_live (apply_stores (record_stores r k p @ [TailW (r_tail r + pad_size r p + rec_size p)]) r) (rs @ [(k, p)])"
proof -
  let ?r = "recount r rs"
  have slot: "has_slot ?r" by (simp add: has_slot_def recount_def)
  have "ring_inv (apply_stores (put_stores ?r k p) ?r) (rs @ [(k, p)])"
    using commit_locked_inv [OF recount_inv [OF live] k] put_stores_commit [OF slot, of p k] fit by simp
  moreover have "record_stores ?r k p = record_stores r k p"
    by (simp add: record_stores_def) (simp add: recount_def)
  moreover have "\<exists>m. apply_stores (record_stores r k p) ?r = ?r\<lparr>r_mem := m\<rparr> \<and> apply_stores (record_stores r k p) r = r\<lparr>r_mem := m\<rparr>"
    by (auto simp: record_stores_def apply_byte_stores recount_def Let_def)
  ultimately show ?thesis
    by (auto simp: put_stores_def ring_inv_def ring_live_def recount_def pad_size_def)
qed

text \<open>Popping moves \<open>head\<close> past exactly one record, whatever the count says.\<close>

lemma popped_live:
  assumes live: "ring_live r ((k, p) # rs)"
  shows "ring_live (apply_stores [HeadW (r_head (fst (pop_locked r)))] r) rs" and "snd (pop_locked r) = Some (k, p)"
    and "r_head r \<noteq> r_tail r"
proof -
  let ?r = "recount r ((k, p) # rs)"
  note inv = recount_inv [OF live]
  have ne: "r_head r \<noteq> r_tail r"
  proof
    assume "r_head r = r_tail r"
    then show False using pop_locked_inv(1) [OF inv] by (simp add: pop_locked_def recount_def)
  qed
  have "pop_locked ?r = (let (r', x) = pop_locked r in (?r\<lparr>r_head := r_head r', r_count := length rs\<rparr>, x))"
    using ne by (simp add: pop_locked_def recount_def Let_def split: prod.splits)
  then show "ring_live (apply_stores [HeadW (r_head (fst (pop_locked r)))] r) rs" "snd (pop_locked r) = Some (k, p)"
    using pop_locked_inv [OF inv] by (auto simp: ring_inv_def ring_live_def recount_def split: prod.splits)
  show "r_head r \<noteq> r_tail r" by (rule ne)
qed

lemma live_Nil_iff: "ring_live r rs \<Longrightarrow> r_head r = r_tail r \<longleftrightarrow> rs = []"
proof (cases rs)
  case (Cons x xs)
  then show "ring_live r rs \<Longrightarrow> ?thesis" by (cases x) (auto dest: popped_live(3))
qed (simp add: ring_live_def)

section \<open>Histories with deaths\<close>

text \<open>
  One locked section of some process: a put of a record or a pop, completed (\<open>None\<close>) or cut off after
  some of its stores. What it published and what it took off the ring: a record is published by the
  store of \<open>tail\<close> and taken by the store of \<open>head\<close>.
\<close>

datatype ring_op = RPut nat bytes "nat option" | RPop "nat option"

definition cut :: "nat option \<Rightarrow> 'a list \<Rightarrow> 'a list" where
  "cut d ss = (case d of None \<Rightarrow> ss | Some n \<Rightarrow> take n ss)"

fun crash_step :: "ring_op \<Rightarrow> ring \<Rightarrow> ring \<times> (nat \<times> bytes) list \<times> (nat \<times> bytes) list" where
  "crash_step (RPut k p d) r =
     (if has_slot r \<and> fits r p
      then let ss = cut d (put_stores r k p)
           in (apply_stores ss r, if length (record_stores r k p) < length ss then [(k, p)] else [], [])
      else (r, [], []))"
| "crash_step (RPop d) r =
     (if r_head r = r_tail r then (r, [], [])
      else let ss = cut d (pop_stores r)
           in (apply_stores ss r, [], if ss = [] then [] else [the (snd (pop_locked r))]))"

fun crash_run :: "ring_op list \<Rightarrow> ring \<Rightarrow> ring \<times> (nat \<times> bytes) list \<times> (nat \<times> bytes) list" where
  "crash_run [] r = (r, [], [])"
| "crash_run (oper # ops) r =
     (case crash_step oper r of (r1, pub1, got1) \<Rightarrow>
      case crash_run ops r1 of (r2, pub2, got2) \<Rightarrow> (r2, pub1 @ pub2, got1 @ got2))"

fun is_put :: "ring_op \<Rightarrow> bool" where
  "is_put (RPut k p d) = True"
| "is_put (RPop d) = False"

fun dies :: "ring_op \<Rightarrow> bool" where
  "dies (RPut k p d) = (d \<noteq> None)"
| "dies (RPop d) = (d \<noteq> None)"

fun record_kind :: "ring_op \<Rightarrow> bool" where
  "record_kind (RPut k p d) = (k \<in> {KIND_DATA, KIND_SPILL, KIND_FILE})"
| "record_kind (RPop d) = True"

definition dead_puts :: "ring_op list \<Rightarrow> nat" where
  "dead_puts ops = length (filter (\<lambda>x. is_put x \<and> dies x) ops)"

definition dead_pops :: "ring_op list \<Rightarrow> nat" where
  "dead_pops ops = length (filter (\<lambda>x. \<not> is_put x \<and> dies x) ops)"

text \<open>How far the count may be from the number of records, after some deaths.\<close>

definition drift :: "nat \<Rightarrow> nat \<Rightarrow> ring \<Rightarrow> (nat \<times> bytes) list \<Rightarrow> bool" where
  "drift i j r rs \<longleftrightarrow> ring_live r rs \<and> length rs \<le> r_count r + i \<and> r_count r \<le> length rs + j"

lemma put_cut:
  assumes "drift i j r rs" and "fits r p" and k: "k \<noteq> KIND_PAD" "k < 2 ^ 32"
  shows "\<exists>rs'. rs' = rs @ (if length (record_stores r k p) < length (cut d (put_stores r k p)) then [(k, p)] else [])
    \<and> drift (if d = None then i else Suc i) j (apply_stores (cut d (put_stores r k p)) r) rs'"
proof -
  let ?rec = "record_stores r k p" and ?t = "TailW (r_tail r + pad_size r p + rec_size p)"
  have live: "ring_live r rs" and cnt: "length rs \<le> r_count r + i" "r_count r \<le> length rs + j" using assms(1) by (auto simp: drift_def)
  have before: "ring_live (apply_stores (take n ?rec) r) rs" "r_count (apply_stores (take n ?rec) r) = r_count r" for n
    using unpublished_live [OF live assms(2)] by blast+
  have published: "ring_live (apply_stores (?rec @ [?t]) r) (rs @ [(k, p)])" by (rule published_live [OF live assms(2) k])
  have same: "r_count (apply_stores (?rec @ [?t]) r) = r_count r" using before(2) [of "length ?rec"] by simp
  consider n where "d = Some n" "n \<le> length ?rec" | "d = Some (Suc (length ?rec))" | n where "d = Some n" "Suc (length ?rec) < n" | "d = None"
    by (cases d) (auto simp: not_le, linarith)
  then show ?thesis
  proof cases
    case 1
    then show ?thesis using before [of n] cnt by (auto simp: cut_def put_stores_def drift_def)
  next
    case 2
    then show ?thesis using published same cnt by (auto simp: cut_def put_stores_def drift_def)
  qed (use published same cnt in \<open>auto simp: cut_def put_stores_def drift_def\<close>)
qed

lemma pop_cut:
  assumes "drift i j r ((k, p) # rs)"
  shows "drift i (if d = None then j else Suc j) (apply_stores (cut d (pop_stores r)) r)
      (if cut d (pop_stores r) = [] then (k, p) # rs else rs)" and "the (snd (pop_locked r)) = (k, p)"
proof -
  have live: "ring_live r ((k, p) # rs)" and cnt: "length rs < r_count r + i" "r_count r \<le> Suc (length rs) + j"
    using assms by (auto simp: drift_def)
  note pop = popped_live [OF live]
  have c: "r_count (fst (pop_locked r)) = r_count r - 1" using pop(3) by (auto simp: pop_locked_def Let_def split: prod.splits)
  have h: "ring_live (apply_stores [HeadW (r_head (fst (pop_locked r)))] r) rs" by (rule pop(1))
  consider "d = Some 0" | "d = Some 1" | n where "d = Some n" "1 < n" | "d = None" by (cases d) (auto, linarith)
  then show "drift i (if d = None then j else Suc j) (apply_stores (cut d (pop_stores r)) r)
      (if cut d (pop_stores r) = [] then (k, p) # rs else rs)"
    using h c live cnt by cases (auto simp: cut_def pop_stores_def drift_def Let_def take_Cons' split: if_splits)
  show "the (snd (pop_locked r)) = (k, p)" using pop(2) by simp
qed

lemma crash_step_drift:
  assumes "drift i j r rs" and "record_kind oper" and "crash_step oper r = (r', pub, got)"
  shows "\<exists>rs'. rs @ pub = got @ rs' \<and> drift (i + dead_puts [oper]) (j + dead_pops [oper]) r' rs'"
proof (cases oper)
  case (RPut k p d)
  have k: "k \<noteq> KIND_PAD" "k < 2 ^ 32" using assms(2) RPut by (auto simp: kind_defs)
  show ?thesis
  proof (cases "has_slot r \<and> fits r p")
    case True
    then show ?thesis using put_cut [OF assms(1) _ k, of p d] assms(3) RPut by (auto simp: dead_puts_def dead_pops_def Let_def)
  next
    case False
    then show ?thesis using assms RPut by (auto simp: dead_puts_def dead_pops_def drift_def)
  qed
next
  case (RPop d)
  have live: "ring_live r rs" using assms(1) by (simp add: drift_def)
  show ?thesis
  proof (cases rs)
    case Nil
    then show ?thesis using assms RPop live_Nil_iff [OF live] by (auto simp: dead_puts_def dead_pops_def drift_def)
  next
    case (Cons x xs)
    obtain k p where x: "x = (k, p)" by (cases x)
    have "r_head r \<noteq> r_tail r" using live_Nil_iff [OF live] Cons by simp
    then show ?thesis using pop_cut(1) [of i j r k p xs d] pop_cut(2) [of i j r k p xs] assms(1,3) RPop Cons x by (auto simp: dead_puts_def dead_pops_def Let_def)
  qed
qed

lemma crash_run_drift:
  "drift i j r rs \<Longrightarrow> list_all record_kind ops \<Longrightarrow> crash_run ops r = (r', pub, got) \<Longrightarrow>
   \<exists>rs'. rs @ pub = got @ rs' \<and> drift (i + dead_puts ops) (j + dead_pops ops) r' rs'"
proof (induction ops arbitrary: i j r rs pub got r')
  case Nil
  then show ?case by (simp add: dead_puts_def dead_pops_def)
next
  case (Cons oper ops)
  obtain r1 p1 g1 where s: "crash_step oper r = (r1, p1, g1)" by (cases "crash_step oper r") auto
  obtain r2 p2 g2 where t: "crash_run ops r1 = (r2, p2, g2)" by (cases "crash_run ops r1") auto
  have split: "dead_puts (oper # ops) = dead_puts [oper] + dead_puts ops" "dead_pops (oper # ops) = dead_pops [oper] + dead_pops ops"
    by (simp_all add: dead_puts_def dead_pops_def)
  obtain rs1 where 1: "rs @ p1 = g1 @ rs1" "drift (i + dead_puts [oper]) (j + dead_pops [oper]) r1 rs1"
    using crash_step_drift [OF Cons.prems(1) _ s] Cons.prems(2) by auto
  obtain rs2 where 2: "rs1 @ p2 = g2 @ rs2" "drift (i + dead_puts (oper # ops)) (j + dead_pops (oper # ops)) r2 rs2"
    using Cons.IH [OF 1(2) _ t] Cons.prems(2) unfolding split by (auto simp: add.assoc)
  have "pub = p1 @ p2" "got = g1 @ g2" "r' = r2" using Cons.prems(3) s t by auto
  then have "rs @ pub = got @ rs2" using 1(1) 2(1) by (metis append.assoc)
  then show ?case using 2(2) \<open>r' = r2\<close> by blast
qed

text \<open>
  C10: the ring survives the death of any process at any store: over every history of puts and pops by
  any number of processes, each of which may be cut off anywhere, down to the middle of a record, the
  records taken followed by the records in the ring are the records published, in order and byte for
  byte; so a death loses at most the item its own process was handling. The item count is off by
  at most one for every process that died, and exact if none did.
\<close>

theorem ring_survives_deaths:
  assumes "ring_bytes \<le> 2 ^ 32 - 8" and "list_all record_kind ops"
    and "crash_run ops (ring_new maxsize ring_bytes sp) = (r, pub, got)"
  shows "\<exists>rs. recs_at (r_mem r) (r_cap r) (r_head r) (r_tail r) rs \<and> pub = got @ rs
    \<and> length rs \<le> r_count r + dead_puts ops \<and> r_count r \<le> length rs + dead_pops ops"
proof -
  have "drift 0 0 (ring_new maxsize ring_bytes sp) []"
    using ring_inv_live [OF ring_new_inv [OF assms(1), of maxsize sp]] by (simp add: drift_def ring_new_def Let_def)
  from crash_run_drift [OF this assms(2,3)] show ?thesis by (auto simp: drift_def ring_live_def)
qed

theorem ring_survives_deaths_witness:
  "\<exists>r pub got rs. crash_run [RPut KIND_DATA [7, 8] None, RPut KIND_DATA [9] (Some 3), RPop (Some 1)] (ring_new 2 65536 None) = (r, pub, got)
     \<and> recs_at (r_mem r) (r_cap r) (r_head r) (r_tail r) rs \<and> pub = got @ rs"
proof -
  let ?ops = "[RPut KIND_DATA [7, 8] None, RPut KIND_DATA [9] (Some 3), RPop (Some 1)]"
  obtain r pub got where run: "crash_run ?ops (ring_new 2 65536 None) = (r, pub, got)"
    by (cases "crash_run ?ops (ring_new 2 65536 None)") auto
  have "list_all record_kind ?ops" by simp
  from ring_survives_deaths [OF _ this run] run show ?thesis by auto
qed

section \<open>A count nobody corrects\<close>

text \<open>
  \<open>get_many\<close>: waits for the first record as \<open>get\<close> does, then pops until it has enough or \<open>pop_locked\<close>
  finds the ring empty, which sets the count to 0.
\<close>

fun pop_many :: "nat \<Rightarrow> ring \<Rightarrow> ring \<times> (nat \<times> bytes) list" where
  "pop_many 0 r = (r, [])"
| "pop_many (Suc n) r =
     (case pop_locked r of
        (r1, None) \<Rightarrow> (r1, [])
      | (r1, Some x) \<Rightarrow> (case pop_many n r1 of (r2, xs) \<Rightarrow> (r2, x # xs)))"

definition ring_get_many :: "nat \<Rightarrow> ring \<Rightarrow> ring \<times> (nat \<times> bytes) list" where
  "ring_get_many max_items r = (if r_head r = r_tail r then (r, []) else pop_many (max max_items 1) r)"

text \<open>
  C36: a consumer killed between its two stores can wedge an edge for good. On an edge of one slot, after
  a put and a get whose process dies when it has stored \<open>head\<close> and not yet \<open>count\<close>, the ring is empty
  by its offsets and full by its count: every put is refused, whatever it carries and however often
  it is tried, and every get finds nothing and leaves the count as it is, since the correction in
  \<open>pop_locked\<close> is only reached on a ring that was not empty.
\<close>

theorem dead_consumer_wedges:
  assumes "crash_run [RPut KIND_DATA p None, RPop (Some 1)] (ring_new 1 ring_bytes sp) = (r, pub, got)"
    and "ring_bytes \<le> 2 ^ 32 - 8" and "length p \<le> 1024" and "q_ring q = r"
  shows "snd (ring_put env disk data q) \<noteq> Inr True \<and> q_ring (fst (ring_put env disk data q)) = r
    \<and> ring_get q = (q, Inr None) \<and> ring_get_many n r = (r, [])"
proof -
  let ?r0 = "ring_new 1 ring_bytes sp"
  have "rec_size p < 1040" using align8_less [of "length p"] assms(3) by (simp add: rec_size_def REC_HDR_def)
  moreover have "65536 \<le> r_cap ?r0" using align8_ge [of "max ring_bytes 65536"] by (simp add: ring_new_def Let_def)
  ultimately have ok: "has_slot ?r0" "fits ?r0 p" by (auto simp: has_slot_def fits_def pad_size_def ring_new_def Let_def)
  obtain r1 where r1: "commit_locked ?r0 KIND_DATA p = Some r1" using put_stores_commit [OF ok] by blast
  have inv: "ring_inv r1 [(KIND_DATA, p)]"
    using commit_locked_inv [OF ring_new_inv [OF assms(2)] _ _ r1] by (simp add: kind_defs)
  note pop = popped_live [OF ring_inv_live [OF inv]]
  have "apply_stores (put_stores ?r0 KIND_DATA p) ?r0 = r1" using put_stores_commit [OF ok] r1 by simp
  then have r: "r = apply_stores [HeadW (r_head (fst (pop_locked r1)))] r1"
    using assms(1) ok pop(3) by (auto simp: cut_def pop_stores_def Let_def)
  have empty: "r_head r = r_tail r" using live_Nil_iff [OF pop(1)] r by simp
  have "r_maxsize r1 = 1" using r1 by (auto simp: commit_locked_def ring_new_def Let_def split: if_splits)
  then have full: "\<not> has_slot r" using r ring_invD(8) [OF inv] by (simp add: has_slot_def)
  have no: "commit_locked r k b = None" for k b using full by (simp add: commit_locked_None_iff)
  have spilled: "snd (put_spilled env disk data q) \<noteq> Inr True \<and> q_ring (fst (put_spilled env disk data q)) = r"
    using assms(4) no by (auto simp: put_spilled_def spill_def file_spill_write_def discard_spill_def
        split: spill_result.splits space.splits if_splits)
  then show ?thesis
    using no assms(4) full empty by (auto simp: ring_put_def ring_get_def ring_get_many_def)
qed

theorem dead_consumer_wedges_witness:
  "\<exists>r pub got. crash_run [RPut KIND_DATA [7] None, RPop (Some 1)] (ring_new 1 65536 None) = (r, pub, got)
     \<and> snd (ring_put \<lparr>e_name = [1], e_shm = Room, e_disk = Room\<rparr> False [8] \<lparr>q_ring = r, q_shm = Map.empty, q_files = Map.empty\<rparr>) \<noteq> Inr True"
proof -
  let ?run = "crash_run [RPut KIND_DATA [7] None, RPop (Some 1)] (ring_new 1 65536 None)"
  obtain r pub got where run: "?run = (r, pub, got)" by (cases ?run) auto
  from dead_consumer_wedges [OF run] run show ?thesis by auto
qed

text \<open>With \<open>get_many\<close> and other items left, the count is corrected once it has emptied the ring.\<close>

lemma pop_many_all: "ring_live r rs \<Longrightarrow> length rs < n \<Longrightarrow> r_count (fst (pop_many n r)) = 0 \<and> snd (pop_many n r) = rs"
proof (induction rs arbitrary: r n)
  case Nil
  then obtain m where "n = Suc m" by (cases n) auto
  then show ?case using live_Nil_iff [OF Nil.prems(1)] by (simp add: pop_locked_def)
next
  case (Cons x xs)
  obtain m where n: "n = Suc m" "length xs < m" using Cons.prems(2) by (cases n) auto
  obtain k p where x: "x = (k, p)" by (cases x)
  note pop = popped_live [OF Cons.prems(1) [unfolded x]]
  have "fst (pop_locked r) = apply_stores (pop_stores r) r" by (rule pop_stores_pop [OF pop(3)])
  then have "ring_live (fst (pop_locked r)) xs" using pop(1) by (metis apply_stores_simps(1,2) apply_store.simps(4) pop_stores_def ring_live_count)
  from Cons.IH [OF this n(2)] pop(2) n(1) x show ?case by (auto split: prod.splits)
qed

end
