(* ===== verification/Pipe_Teardown.thy ===== *)
theory Pipe_Teardown
  imports Pipe_Crash
begin

text \<open>
  Tearing a ring down (\<open>RingQueue::unlink\<close> of \<^verbatim>\<open>rust/src/ring.rs\<close>): the owner walks over the unread
  records, collects the objects they were spilled to, adds those in the table of producers that wait
  with a spilled message, and removes them all; on Linux it also removes every object whose name starts
  with the ring's. The theory shows that nothing of the ring is left, whatever processes died before.
\<close>

section \<open>The table of waiting producers\<close>

definition PENDING_SLOTS :: nat where "PENDING_SLOTS = 48"
definition PENDING_NAME :: nat where "PENDING_NAME = 32"

type_synonym pending = "bytes option list"

definition no_pending :: pending where
  "no_pending = replicate PENDING_SLOTS None"

text \<open>\<open>note_pending\<close>: the first free slot, if the name fits into one and there is one.\<close>

fun free_slot :: "nat \<Rightarrow> pending \<Rightarrow> nat option" where
  "free_slot i [] = None"
| "free_slot i (None # ps) = Some i"
| "free_slot i (Some n # ps) = free_slot (Suc i) ps"

definition note_pending :: "bytes \<Rightarrow> pending \<Rightarrow> pending \<times> nat option" where
  "note_pending name tbl =
     (if PENDING_NAME \<le> length name then (tbl, None)
      else case free_slot 0 tbl of None \<Rightarrow> (tbl, None) | Some i \<Rightarrow> (tbl[i := Some name], Some i))"

definition clear_pending :: "nat option \<Rightarrow> pending \<Rightarrow> pending" where
  "clear_pending slot tbl = (case slot of None \<Rightarrow> tbl | Some i \<Rightarrow> tbl[i := None])"

definition take_pending :: "pending \<Rightarrow> pending \<times> bytes list" where
  "take_pending tbl = (map (\<lambda>_. None) tbl, List.map_filter id tbl)"

lemma free_slot_Some: "free_slot i tbl = Some j \<Longrightarrow> i \<le> j \<and> j < i + length tbl \<and> tbl ! (j - i) = None"
proof (induction i tbl rule: free_slot.induct)
  case (3 i n ps)
  then show ?case by (auto simp: nth_Cons' Suc_diff_le)
qed auto

lemma free_slot_None: "free_slot i tbl = None \<longleftrightarrow> None \<notin> set tbl"
  by (induction i tbl rule: free_slot.induct) auto

lemma set_map_filter_id: "set (List.map_filter id tbl) = {x. Some x \<in> set tbl}"
  by (force simp: List.map_filter_def image_iff)

text \<open>A name that is noted is found by the teardown; one that is cleared leaves the table as it was.\<close>

lemma pending_roundtrip:
  assumes "note_pending name tbl = (tbl', Some i)"
  shows "set (snd (take_pending tbl')) = insert name (set (snd (take_pending tbl)))" and "clear_pending (Some i) tbl' = tbl"
proof -
  have fs: "free_slot 0 tbl = Some i" and t: "tbl' = tbl[i := Some name]"
    using assms by (auto simp: note_pending_def split: if_splits option.splits)
  have i: "i < length tbl" "tbl ! i = None" using free_slot_Some [OF fs] by auto
  then show "clear_pending (Some i) tbl' = tbl" using t by (simp add: clear_pending_def list_update_same_conv)
  have "Some x \<in> set tbl' \<longleftrightarrow> x = name \<or> Some x \<in> set tbl" for x
  proof -
    have "Some x \<in> set tbl \<longleftrightarrow> (\<exists>j < length tbl. j \<noteq> i \<and> tbl ! j = Some x)" using i by (auto simp: in_set_conv_nth)
    then show ?thesis using i t by (auto simp: in_set_conv_nth nth_list_update)
  qed
  then show "set (snd (take_pending tbl')) = insert name (set (snd (take_pending tbl)))"
    by (auto simp: take_pending_def set_map_filter_id)
qed

section \<open>The walk over the unread records\<close>

text \<open>
  The names of the spilled messages between \<open>head\<close> and \<open>tail\<close>, and how many went to files. A ring has at
  least 64 KiB; the test of \<open>c\<close> is what makes the loop end for every number.
\<close>

function walk :: "memory \<Rightarrow> nat \<Rightarrow> nat \<Rightarrow> nat \<Rightarrow> bytes list \<times> nat" where
  "walk m c h t =
     (if h < t \<and> 0 < c then
        let pos = h mod c; (len, kind) = read_header m pos in
        if kind = KIND_PAD then walk m c (h + (c - pos)) t
        else
          let (names, files) = walk m c (h + REC_HDR + align8 len) t in
          if kind = KIND_SPILL then (spill_name (read_bytes m (pos + REC_HDR) len) # names, files)
          else if kind = KIND_FILE then (names, Suc files)
          else (names, files)
      else ([], 0))"
  by pat_completeness auto
termination
proof (relation "measure (\<lambda>(m, c, h, t). t - h)")
  fix m :: memory and c h t pos :: nat and x :: "nat \<times> nat" and len kind :: nat
  assume "h < t \<and> 0 < c" and "pos = h mod c"
  then have "0 < c - pos" by simp
  then show "((m, c, h + (c - pos), t), (m, c, h, t)) \<in> measure (\<lambda>(m, c, h, t). t - h)" using \<open>h < t \<and> 0 < c\<close> by auto
qed (auto simp: REC_HDR_def)

declare walk.simps [simp del]

lemma walk_record:
  assumes "rec_at m c v k p" and "v < t" and "0 < c"
  shows "walk m c v t = (case walk m c (v + rec_size p) t of (names, files) \<Rightarrow>
      (if k = KIND_SPILL then spill_name p # names else names, if k = KIND_FILE then Suc files else files))"
proof -
  have "read_header m (v mod c) = (length p, k)" "read_bytes m (v mod c + REC_HDR) (length p) = p" "k \<noteq> KIND_PAD"
    using assms(1) by (auto simp: rec_at_def)
  then show ?thesis
    using assms(2,3) by (subst walk.simps) (auto simp: rec_size_def add.assoc kind_defs split: prod.splits)
qed

lemma walk_skip:
  assumes "skip_pad m c h < t" and "0 < c"
  shows "walk m c h t = walk m c (skip_pad m c h) t"
proof (cases "snd (read_header m (h mod c)) = KIND_PAD")
  case True
  then have "h < t" "skip_pad m c h = h + (c - h mod c)" using assms(1) by (auto simp: skip_pad_def)
  with True assms(2) show ?thesis by (subst walk.simps) (simp add: Let_def case_prod_beta)
qed (simp add: skip_pad_def)

lemma walk_records:
  "recs_at m c h t rs \<Longrightarrow> 0 < c \<Longrightarrow> walk m c h t = (names_of KIND_SPILL rs, length (names_of KIND_FILE rs))"
proof (induction rs arbitrary: h)
  case Nil
  then show ?case by (simp add: walk.simps)
next
  case (Cons x rs)
  obtain k p where x: "x = (k, p)" by (cases x)
  let ?v = "skip_pad m c h"
  have r: "rec_at m c ?v k p" "recs_at m c (?v + rec_size p) t rs" using Cons.prems(1) x by auto
  have "?v < t" using recs_at_Cons_le [of m c h t k p rs] Cons.prems(1) x rec_size_ge [of p] by simp
  then show ?case using Cons.IH [OF r(2) Cons.prems(2)] walk_record [OF r(1) _ Cons.prems(2)] walk_skip Cons.prems(2) x
    by (auto simp: kind_defs)
qed

section \<open>Unlinking\<close>

text \<open>
  \<open>unlink\<close>: \<open>linux\<close> chooses the sweep by prefix over the listing \<open>dir\<close> of the shared-memory directory.
  The result counts the messages removed.
\<close>

definition ring_unlink :: "bool \<Rightarrow> bytes \<Rightarrow> bytes list \<Rightarrow> ring_queue \<times> pending \<Rightarrow> (ring_queue \<times> pending) \<times> nat" where
  "ring_unlink linux pre dir = (\<lambda>(q, tbl).
     let r = q_ring q;
         (names, files) = walk (r_mem r) (r_cap r) (r_head r) (r_tail r);
         (tbl', waiting) = take_pending tbl;
         gone = names @ waiting;
         swept = (if linux then filter (\<lambda>n. prefix pre n \<and> n \<notin> set gone) dir else [])
     in ((q\<lparr>q_ring := r\<lparr>r_head := r_tail r, r_count := 0\<rparr>, q_shm := q_shm q |` (- set (gone @ swept)), q_files := Map.empty\<rparr>, tbl'),
         length gone + files + length swept))"

lemma unlink_shm:
  assumes "ring_unlink linux pre dir (q, tbl) = ((q', tbl'), n)"
  shows "dom (q_shm q') = (let gone = set (fst (walk (r_mem (q_ring q)) (r_cap (q_ring q)) (r_head (q_ring q)) (r_tail (q_ring q))))
                               \<union> set (snd (take_pending tbl))
     in dom (q_shm q) - gone - (if linux then {x \<in> set dir. prefix pre x} else {}))"
  using assms by (auto simp: ring_unlink_def Let_def restrict_map_def split: prod.splits if_splits)



section \<open>No object without a record\<close>

text \<open>The spilled messages in shared memory and on disk are those the unread records name.\<close>

definition tight :: "ring_queue \<Rightarrow> bool" where
  "tight q \<longleftrightarrow> dom (q_shm q) = set (names_of KIND_SPILL (ring_records (q_ring q)))
     \<and> dom (q_files q) = set (names_of KIND_FILE (ring_records (q_ring q)))"

lemma commit_records:
  assumes "queue_inv q" and "commit_locked (q_ring q) k p = Some r" and "k \<noteq> KIND_PAD" and "k < 2 ^ 32"
  shows "ring_records r = ring_records (q_ring q) @ [(k, p)]"
  using ring_records_eq [OF commit_locked_inv [OF queue_invD(1) [OF assms(1)] assms(3,4,2)]] .

lemma put_spilled_tight:
  assumes "queue_inv q" and "fresh_name env q" and "tight q" and "put_spilled env disk data q = (q', Inr True)"
  shows "tight q'"
proof -
  obtain k rec q1 r where sp: "spill env disk data q = Spilled k rec q1"
    and cm: "commit_locked (q_ring q1) k rec = Some r" and q': "q' = q1\<lparr>q_ring := r\<rparr>"
    using assms(4) by (auto simp: put_spilled_def split: spill_result.splits option.splits)
  note S = spill_Spilled [OF sp assms(2)]
  have "k \<noteq> KIND_PAD" "k < 2 ^ 32" using S(3) by (auto simp: kind_defs)
  with cm S(2) have "ring_records r = ring_records (q_ring q) @ [(k, rec)]" using commit_records [OF assms(1)] by simp
  then show ?thesis using S(3) assms(3) q' by (elim disjE conjE) (simp_all add: S(1) tight_def kind_defs)
qed

lemma ring_put_tight:
  assumes "queue_inv q" and "fresh_name env q" and "tight q" and "ring_put env disk data q = (q', Inr True)"
  shows "tight q'"
proof -
  have "tight (q\<lparr>q_ring := r\<rparr>)" if "commit_locked (q_ring q) KIND_DATA data = Some r" for r
    using commit_records [OF assms(1) that] assms(3) by (simp add: tight_def kind_defs)
  then show ?thesis using assms(4) put_spilled_tight [OF assms(1-3)]
    by (auto simp: ring_put_def split: if_splits option.splits)
qed

lemma ring_get_tight:
  assumes "queue_inv q" and "tight q" and "queue_contents q = data # ds" and "ring_get q = (q', Inr (Some data))"
  shows "tight q'"
proof -
  define rs where "rs = ring_records (q_ring q)"
  note rs = queue_invD [OF assms(1), folded rs_def]
  obtain k b rs' where cons: "rs = (k, b) # rs'" using rs(5) assms(3) by (cases rs) auto
  obtain r where pop: "pop_locked (q_ring q) = (r, Some (k, b))" "ring_inv r rs'"
    using pop_locked_inv [of "q_ring q" k b rs'] rs(1) cons by (cases "pop_locked (q_ring q)") auto
  have q': "q' = fst (materialize k b (q\<lparr>q_ring := r\<rparr>))"
    using assms(4) pop(1) by (auto simp: ring_get_def split: if_splits prod.splits sum.splits)
  have d: "dom (q_shm q) = set (names_of KIND_SPILL rs)" "dom (q_files q) = set (names_of KIND_FILE rs)"
    using assms(2) by (simp_all add: tight_def rs_def)
  consider "k = KIND_DATA" | x where "k = KIND_SPILL" "q_shm q (spill_name b) = Some x"
    | x where "k = KIND_FILE" "q_files q (spill_name b) = Some x"
    using rs(2) [of "(k, b)"] cons by (auto simp: rec_ok_def)
  then show ?thesis
    by cases (use rs(3,4) cons d in \<open>simp_all add: q' ring_records_eq [OF pop(2)] tight_def materialize_def kind_defs\<close>)
qed

interpretation tq: fifo_queue "\<lambda>q. queue_inv q \<and> tight q" queue_contents ring_admissible ring_put_op ring_get
proof unfold_locales
  fix q e m q' assume "queue_inv q \<and> tight q" "ring_admissible e m q" "ring_put_op e m q = (q', Inr True)"
  then show "(queue_inv q' \<and> tight q') \<and> queue_contents q' = queue_contents q @ [m]"
    using rq.put_ok [of q e m q'] ring_put_tight [of q "fst e" "snd e" m q']
    by (auto simp: ring_admissible_def ring_put_op_def split: prod.splits)
next
  fix q m ms assume q: "queue_inv q \<and> tight q" "queue_contents q = m # ms"
  then obtain q' where "ring_get q = (q', Inr (Some m))" "queue_inv q'" "queue_contents q' = ms" using rq.get_Cons by blast
  with q show "\<exists>q'. ring_get q = (q', Inr (Some m)) \<and> (queue_inv q' \<and> tight q') \<and> queue_contents q' = ms"
    using ring_get_tight by blast
qed (blast intro: rq.put_fail rq.get_Nil)+

lemma new_queue_tight: "ring_bytes \<le> 2 ^ 32 - 8 \<Longrightarrow> tight (new_queue maxsize ring_bytes sp)"
  using new_queue_inv [of ring_bytes maxsize sp] by (simp add: tight_def queue_contents_def) (simp add: new_queue_def)

text \<open>
  C16: spilled messages are never orphaned. After every history of puts and gets, successful or refused,
  the objects in shared memory and the files are exactly those the unread records name: a refused put
  leaves nothing behind, a get removes what it read, and once every accepted message is delivered
  nothing is left. Unlinking then removes the rest on every platform.
\<close>

theorem ring_no_orphans:
  assumes "ring_bytes \<le> 2 ^ 32 - 8"
    and "ops_admissible ring_admissible ring_put_op ring_get ops (new_queue maxsize ring_bytes sp)"
    and "queue_run ring_put_op ring_get ops (new_queue maxsize ring_bytes sp) = (q, accepted, delivered)"
  shows "tight q \<and> (accepted = delivered \<longrightarrow> q_shm q = Map.empty \<and> q_files q = Map.empty)
    \<and> (let q' = fst (fst (ring_unlink linux pre dir (q, no_pending))) in q_shm q' = Map.empty \<and> q_files q' = Map.empty)"
proof -
  have H: "queue_inv q" "tight q" "accepted = delivered @ queue_contents q"
    using tq.run_history [OF _ assms(2,3)] new_queue_inv [OF assms(1)] new_queue_tight [OF assms(1)] by auto
  have "q_shm q = Map.empty \<and> q_files q = Map.empty" if "accepted = delivered"
    using H that by (auto simp: tight_def queue_contents_def)
  moreover obtain q' tbl' n where u: "ring_unlink linux pre dir (q, no_pending) = ((q', tbl'), n)"
    by (cases "ring_unlink linux pre dir (q, no_pending)") auto
  have "ring_live (q_ring q) (ring_records (q_ring q))" using ring_inv_live queue_invD(1) [OF H(1)] .
  then have w: "fst (walk (r_mem (q_ring q)) (r_cap (q_ring q)) (r_head (q_ring q)) (r_tail (q_ring q)))
      = names_of KIND_SPILL (ring_records (q_ring q))"
    by (subst walk_records) (auto simp: ring_live_def)
  have "dom (q_shm q') = {}" "q_files q' = Map.empty"
    using unlink_shm [OF u] H(2) u w by (auto simp: tight_def Let_def ring_unlink_def split: prod.splits)
  ultimately show ?thesis using H(2) u by (simp add: Let_def)
qed

theorem ring_no_orphans_witness:
  "\<exists>q accepted delivered.
     queue_run ring_put_op ring_get
       [PutOp (\<lparr>e_name = [1], e_shm = Room, e_disk = Room\<rparr>, False) (replicate 20000 5), GetOp] (new_queue 4 65536 None)
       = (q, accepted, delivered) \<and> tight q"
proof -
  let ?ops = "[PutOp (\<lparr>e_name = [1], e_shm = Room, e_disk = Room\<rparr>, False) (replicate 20000 (5 :: byte)), GetOp]"
  let ?q = "new_queue 4 65536 None"
  obtain q a d where r: "queue_run ring_put_op ring_get ?ops ?q = (q, a, d)"
    by (cases "queue_run ring_put_op ring_get ?ops ?q") auto
  have "ops_admissible ring_admissible ring_put_op ring_get ?ops ?q"
    by (simp add: ring_admissible_def fresh_name_def new_queue_def)
  from ring_no_orphans [OF _ this r] r show ?thesis by simp
qed

end
