(* ===== verification/Pipe_Shm_Chain.thy ===== *)
theory Pipe_Shm_Chain
  imports Pipe_Chain Pipe_Shm Pipe_Teardown
begin

text \<open>
  A whole pipeline over shared-memory edges: the queues between the stages of \<open>Pipe_Chain\<close> are edges
  of \<open>Pipe_Shm\<close>, so a message is pickled, its arrays are left in the payload store, its bytes go
  through the ring (or a spilled object), and the reader rebuilds it. Each edge may run in any of its
  interleavings, with any other use of the store in between. What is shown: the pipeline yields what it
  yields over ideal queues, and it does run.
\<close>

section \<open>An idle edge\<close>

text \<open>A message that can be encoded whatever the state of the store.\<close>

definition sendable :: "shm_cfg \<Rightarrow> views \<Rightarrow> 's pickler \<Rightarrow> 's message \<Rightarrow> bool" where
  "sendable cfg np pk d \<longleftrightarrow> (\<forall>st R. \<exists>os s ls st' b disk. d = (s, map leaf_data ls)
     \<and> (\<forall>l \<in> set ls. wf_leaf cfg np (block_bytes st) R l) \<and> picklable cfg np pk os s ls st
     \<and> encode cfg np pk os s ls st = (st', Inr (b, disk)) \<and> length b < 2 ^ 64)"

text \<open>An object without arrays is sendable when its pickle is small.\<close>

lemma plain_sendable:
  assumes "pickles pk s []" and "length (pk_dumps pk s []) \<le> c_spill_at cfg" and "c_spill_at cfg < 2 ^ 64"
  shows "sendable cfg np pk (s, [])"
  unfolding sendable_def
  by (intro allI exI [of _ "\<lambda>_. True"] exI [of _ s] exI [of _ "[]"]) (use assms in \<open>auto simp: picklable_def encode_def\<close>)

lemma idle_put:
  assumes "queue_inv q" and "tight q" and "queue_contents q = []" and "length b < 2 ^ 64"
  shows "\<exists>q'. ring_admissible (\<lparr>e_name = [1], e_shm = Room, e_disk = Room\<rparr>, disk) b q
    \<and> ring_put_op (\<lparr>e_name = [1], e_shm = Room, e_disk = Room\<rparr>, disk) b q = (q', Inr True)"
proof -
  let ?env = "\<lparr>e_name = [1], e_shm = Room, e_disk = Room\<rparr>"
  have "ring_records (q_ring q) = []" using assms(3) by (simp add: queue_contents_def)
  then have ri: "ring_inv (q_ring q) []" and e: "q_shm q = Map.empty" "q_files q = Map.empty"
    using queue_invD(1) [OF assms(1)] assms(2) by (auto simp: tight_def)
  have "has_slot (q_ring q)" "r_head (q_ring q) = r_tail (q_ring q)" "64 * 1024 \<le> r_cap (q_ring q)"
    using ri by (auto simp: ring_inv_def has_slot_def)
  moreover from this have "fits (q_ring q) (spill_rec [1] b)" by (auto simp: ring_ops spill_rec_def Let_def)
  moreover have f: "fresh_name ?env q" using e by (simp add: fresh_name_def)
  ultimately have "snd (ring_put ?env disk b q) = Inr True" by (intro ring_put_progress) simp_all
  then show ?thesis using f assms(4) by (cases "ring_put ?env disk b q") (auto simp: ring_admissible_def ring_put_op_def)
qed

text \<open>On an idle edge every sendable message can be sent and received, and the edge is idle again.\<close>

definition idle :: "views \<Rightarrow> 's pickler \<Rightarrow> 's edge \<Rightarrow> bool" where
  "idle np pk = (\<lambda>(q, st, R, ps). ps = [] \<and> tight q \<and> (\<exists>lost. edge_inv np pk (q, st, R, []) [] [] lost))"

lemma idle_round:
  assumes "idle np pk (q, st, R, [])" and "sendable cfg np pk d"
  shows "\<exists>e1 e2 e3. shm_step cfg np pk (q, st, R, []) Quiet e1 \<and> shm_step cfg np pk e1 (Sent d) e2
    \<and> shm_step cfg np pk e2 (Got d) e3 \<and> idle np pk e3"
proof -
  obtain lost where i0: "edge_inv np pk (q, st, R, []) [] [] lost" and t: "tight q" using assms(1) by (auto simp: idle_def)
  from assms(2) [unfolded sendable_def, rule_format, of st R] obtain os s ls st' b disk where d: "d = (s, map leaf_data ls)"
    and wf0: "\<forall>l \<in> set ls. wf_leaf cfg np (block_bytes st) R l" and pc: "picklable cfg np pk os s ls st"
    and enc: "encode cfg np pk os s ls st = (st', Inr (b, disk))" and len: "length b < 2 ^ 64" by blast
  have wf: "wf_leaf cfg np (block_bytes st) R l" if "l \<in> set ls" for l using wf0 that by blast
  have s1: "shm_step cfg np pk (q, st, R, []) Quiet (q, st', R, [(d, b, disk)])" using shm_encode [OF wf pc enc] d by simp
  obtain K where i1: "edge_inv np pk (q, st', R, [(d, b, disk)]) [] [(K, b, d)] lost"
    using encode_edge [OF i0 wf pc enc] d by auto
  have c: "queue_inv q" "queue_contents q = []" using i0 by (auto simp: edge_inv_def)
  from idle_put [OF c(1) t c(2) len, of disk] obtain env q1 where
    p: "ring_admissible (env, disk) b q" "ring_put_op (env, disk) b q = (q1, Inr True)" by blast
  have s2: "shm_step cfg np pk (q, st', R, [(d, b, disk)]) (Sent d) (q1, st', R, [])"
    using shm_put [OF p, of cfg np pk st' R "[]" d "[]"] by simp
  from shm_step_inv [OF s2 i1] obtain fs ws where
    i2: "edge_inv np pk (q1, st', R, []) fs ws lost" "map (snd \<circ> snd) fs = [d]" by (auto simp: moved_def)
  have q1: "queue_inv q1 \<and> tight q1" "queue_contents q1 = [b]" using tq.put_ok [OF _ p] c t by auto
  from tq.get_Cons [OF this] obtain q2 where g: "ring_get q1 = (q2, Inr (Some b))" "tight q2" by blast
  from get_edge [OF i2(1) g(1)] obtain st2 s' ls' K' fs' where
    l: "load np pk b st' = (st2, Inr (s', ls'))" "fs = (K', b, (s', map leaf_data ls')) # fs'"
       "edge_inv np pk (q2, st2, R + mset (concat (map leaf_handles ls')), []) fs' ws lost" by blast
  have s3: "shm_step cfg np pk (q1, st', R, []) (Got d) (q2, st2, R + mset (concat (map leaf_handles ls')), [])"
    using shm_get [OF g(1) l(1)] l(2) i2(2) by simp
  have "fs' = []" "ws = []" using l(2,3) i2(2) by (auto simp: edge_inv_def)
  then have "idle np pk (q2, st2, R + mset (concat (map leaf_handles ls')), [])" using l(3) g(2) by (auto simp: idle_def)
  with s1 s2 s3 show ?thesis by blast
qed

lemma idle_edge_carries:
  assumes "\<forall>d \<in> set ds. sendable cfg np pk d" and "idle np pk e" and "shm_run cfg np pk e0 es0 e"
  shows "\<exists>es e'. shm_run cfg np pk e0 (es0 @ es) e' \<and> idle np pk e' \<and> sent_msgs es = ds \<and> got_msgs es = ds"
  using assms
proof (induction ds arbitrary: e es0)
  case Nil
  then show ?case by (intro exI [of _ "[]"] exI [of _ e]) simp
next
  case (Cons d ds)
  obtain q st R where e: "e = (q, st, R, [])" using Cons.prems(2) by (cases e) (auto simp: idle_def)
  have "sendable cfg np pk d" using Cons.prems(1) by simp
  with idle_round [of np pk q st R cfg d] Cons.prems(2) e obtain e1 e2 e3 where
    s: "shm_step cfg np pk e Quiet e1" "shm_step cfg np pk e1 (Sent d) e2" "shm_step cfg np pk e2 (Got d) e3" "idle np pk e3"
    by blast
  have "shm_run cfg np pk e0 (es0 @ [Quiet, Sent d, Got d]) e3"
    using shm_snoc [OF shm_snoc [OF shm_snoc [OF Cons.prems(3) s(1)] s(2)] s(3)] by simp
  from Cons.IH [OF _ s(4) this] Cons.prems(1) obtain es e' where
    "shm_run cfg np pk e0 (es0 @ [Quiet, Sent d, Got d] @ es) e'" "idle np pk e'" "sent_msgs es = ds" "got_msgs es = ds" by auto
  then show ?case by (intro exI [of _ "[Quiet, Sent d, Got d] @ es"] exI [of _ e']) simp
qed

section \<open>Stages joined by edges\<close>

text \<open>
  What the edges share: configuration, views and pickler, and how a message of the pipeline is an
  object with arrays; \<open>w_val\<close> reads it back.
\<close>

record ('a, 's) wiring =
  w_cfg :: shm_cfg
  w_views :: views
  w_pickler :: "'s pickler"
  w_obj :: "'a msg \<Rightarrow> 's message"
  w_val :: "'s message \<Rightarrow> 'a msg"

text \<open>An edge that was sent the messages \<open>ms\<close> and has been read until it was empty; its reader saw \<open>ms'\<close>.\<close>

definition edge_passes :: "('a, 's) wiring \<Rightarrow> 'a msg list \<Rightarrow> 'a msg list \<Rightarrow> bool" where
  "edge_passes w ms ms' \<longleftrightarrow> (\<exists>maxsize ring_bytes sp limit_bytes seg_bytes es q st R ps.
     ring_bytes \<le> 2 ^ 32 - 8 \<and> limit_bytes \<le> 2 ^ 40
     \<and> shm_run (w_cfg w) (w_views w) (w_pickler w)
         (new_queue maxsize ring_bytes sp, store_new limit_bytes seg_bytes, {#}, []) es (q, st, R, ps)
     \<and> queue_contents q = [] \<and> sent_msgs es = map (w_obj w) ms \<and> ms' = map (w_val w) (got_msgs es))"

inductive shm_stages :: "('a, 's) wiring \<Rightarrow> nat \<Rightarrow> 'a stage_run list \<Rightarrow> 'a msg list \<Rightarrow> 'a msg list \<Rightarrow> bool"
  for w n where
  shm_end: "edge_passes w ms ms' \<Longrightarrow> shm_stages w n [] ms ms'"
| shm_stage: "edge_passes w ms ms1 \<Longrightarrow> run_stage n sr ms1 = Some ms2 \<Longrightarrow> shm_stages w n srs ms2 ms' \<Longrightarrow>
     shm_stages w n (sr # srs) ms ms'"

inductive_cases shm_stages_NilE: "shm_stages w n [] ms ms'"
inductive_cases shm_stages_ConsE: "shm_stages w n (sr # srs) ms ms'"

lemma edge_passes_same:
  assumes "edge_passes w ms ms'" and "\<And>m. w_val w (w_obj w m) = m"
  shows "ms' = ms"
proof -
  from assms(1) obtain maxsize ring_bytes sp limit_bytes seg_bytes es q st R ps where
    e: "ring_bytes \<le> 2 ^ 32 - 8" "limit_bytes \<le> 2 ^ 40" "queue_contents q = []"
       "shm_run (w_cfg w) (w_views w) (w_pickler w)
         (new_queue maxsize ring_bytes sp, store_new limit_bytes seg_bytes, {#}, []) es (q, st, R, ps)"
       "sent_msgs es = map (w_obj w) ms" "ms' = map (w_val w) (got_msgs es)"
    unfolding edge_passes_def by blast
  from shm_run_inv [OF e(4) edge_start [OF e(2,1)]] obtain fs ws lost where
    "edge_inv (w_views w) (w_pickler w) (q, st, R, ps) fs ws lost" "sent_msgs es = got_msgs es @ map (snd \<circ> snd) fs" by blast
  then have "sent_msgs es = got_msgs es" using e(3) by (auto simp: edge_inv_def)
  then have "ms' = map (w_val w) (map (w_obj w) ms)" using e(5,6) by simp
  then show ?thesis using assms(2) by (simp add: map_idI)
qed

lemma edge_passes_exists:
  assumes "\<forall>m \<in> set ms. sendable (w_cfg w) (w_views w) (w_pickler w) (w_obj w m)" and "\<And>m. w_val w (w_obj w m) = m"
  shows "edge_passes w ms ms"
proof -
  let ?e = "(new_queue 4 65536 None, store_new (2 ^ 27) (2 ^ 20), {#}, [])"
  have "idle (w_views w) (w_pickler w) ?e"
    using edge_start [of "2 ^ 27" 65536 "w_views w" "w_pickler w" 4 None "2 ^ 20"] new_queue_tight [of 65536 4 None]
    unfolding idle_def prod.case by (intro conjI exI [of _ "{#}"]) simp_all
  from idle_edge_carries [OF _ this shm_nil, of "map (w_obj w) ms" "w_cfg w"] assms(1) obtain es e' where
    e: "shm_run (w_cfg w) (w_views w) (w_pickler w) ?e es e'" "idle (w_views w) (w_pickler w) e'"
       "sent_msgs es = map (w_obj w) ms" "got_msgs es = map (w_obj w) ms" by (simp only: append_Nil set_map ball_simps) blast
  obtain q st R where e': "e' = (q, st, R, [])" "queue_contents q = []"
    using e(2) by (cases e') (auto simp: idle_def edge_inv_def)
  have "65536 \<le> (2 :: nat) ^ 32 - 8" "(2 :: nat) ^ 27 \<le> 2 ^ 40" "map (w_val w) (got_msgs es) = ms"
    using e(4) assms(2) by (simp_all add: map_idI)
  with e(1,3) e' show ?thesis unfolding edge_passes_def by metis
qed

text \<open>Pipelines over shared-memory edges are pipelines over ideal queues.\<close>

lemma shm_stages_ideal:
  assumes "shm_stages w n srs ms ms'" and "\<And>m. w_val w (w_obj w m) = m"
  shows "run_stages n srs ms = Some ms'"
  using assms(1)
proof (induction rule: shm_stages.induct)
  case (shm_end ms ms')
  then show ?case using edge_passes_same [OF shm_end assms(2)] by simp
next
  case (shm_stage ms ms1 sr ms2 srs ms')
  then show ?case using edge_passes_same [OF shm_stage.hyps(1) assms(2)] by simp
qed

text \<open>The messages on the edges of a run over ideal queues.\<close>

fun traffic :: "nat \<Rightarrow> 'a stage_run list \<Rightarrow> 'a msg list \<Rightarrow> 'a msg list" where
  "traffic n [] ms = ms"
| "traffic n (sr # srs) ms = ms @ (case run_stage n sr ms of None \<Rightarrow> [] | Some ms1 \<Rightarrow> traffic n srs ms1)"

lemma shm_stages_exists:
  assumes "\<And>m. w_val w (w_obj w m) = m"
  shows "run_stages n srs ms = Some ms' \<Longrightarrow>
    \<forall>m \<in> set (traffic n srs ms). sendable (w_cfg w) (w_views w) (w_pickler w) (w_obj w m) \<Longrightarrow> shm_stages w n srs ms ms'"
proof (induction srs arbitrary: ms)
  case Nil
  then show ?case using edge_passes_exists [of ms w] assms by (auto intro: shm_end)
next
  case (Cons sr srs)
  then obtain ms1 where r: "run_stage n sr ms = Some ms1" "run_stages n srs ms1 = Some ms'" by (auto split: option.splits)
  have "edge_passes w ms ms" using Cons.prems(2) assms by (intro edge_passes_exists) auto
  moreover have "shm_stages w n srs ms1 ms'" using Cons.IH [OF r(2)] Cons.prems(2) r(1) by simp
  ultimately show ?case using r(1) by (blast intro: shm_stage)
qed


section \<open>An example\<close>

text \<open>A pickler for small messages without arrays.\<close>

fun small_code :: "nat val \<Rightarrow> byte" where
  "small_code (Obj k) = of_nat k"
| "small_code _ = 255"

definition small_val :: "byte \<Rightarrow> nat val" where
  "small_val b = (if b = 255 then EndV else Obj (unat b))"

fun small_dumps :: "nat msg \<Rightarrow> red list \<Rightarrow> bytes" where
  "small_dumps (ItemM x) _ = [128, 0, small_code x]"
| "small_dumps (ChunkM xs) _ = 128 # 1 # map small_code xs"

definition small_pickler :: "nat msg pickler" where
  "small_pickler = \<lparr>pk_dumps = small_dumps,
     pk_loads = (\<lambda>b. Some (if b ! 1 = 0 then ItemM (small_val (b ! 2)) else ChunkM (map small_val (drop 2 b)), [])),
     pk_hdumps = pk_hdumps demo_pickler, pk_hloads = pk_hloads demo_pickler\<rparr>"

definition small_wiring :: "(nat, nat msg) wiring" where
  "small_wiring = \<lparr>w_cfg = demo_cfg, w_views = demo_views, w_pickler = small_pickler, w_obj = (\<lambda>m. (m, [])), w_val = fst\<rparr>"

lemma small_sendable:
  assumes "set (payloads m) \<subseteq> insert EndV {Obj k | k. k < 255}" and "length (payloads m) \<le> 100"
  shows "sendable (w_cfg small_wiring) (w_views small_wiring) (w_pickler small_wiring) (w_obj small_wiring m)"
proof -
  have v: "small_val (small_code x) = x" if "x \<in> set (payloads m)" for x
  proof -
    have "x \<in> insert EndV {Obj k | k. k < 255}" using assms(1) that by (rule subsetD)
    then consider "x = EndV" | k where "x = Obj k" "k < 255" by blast
    then show ?thesis
    proof cases
      case 2
      then have "unat (of_nat k :: byte) = k" by (simp add: unat_of_nat)
      moreover from this have "(of_nat k :: byte) \<noteq> 255" using 2(2) by auto
      ultimately show ?thesis using 2 by (simp add: small_val_def)
    qed (simp add: small_val_def)
  qed
  have "pk_hloads small_pickler (pk_hdumps small_pickler nm h) = Some (nm, h)" for nm h
    using demo_pickles [of 0 h] by (cases h) (simp add: pickles_def small_pickler_def)
  moreover have "pk_loads small_pickler (small_dumps m []) = Some (m, [])"
    using v by (cases m) (auto simp: small_pickler_def map_idI)
  moreover have "take 1 (small_dumps m []) \<noteq> [0]" by (cases m) simp_all
  ultimately have "pickles small_pickler m []" by (simp add: pickles_def) (simp add: small_pickler_def)
  moreover have "length (small_dumps m []) \<le> 102" using assms(2) by (cases m) simp_all
  ultimately show ?thesis
    using plain_sendable [of small_pickler m demo_cfg demo_views] by (simp add: small_wiring_def small_pickler_def demo_cfg_def)
qed

lemma set_payloads: "m \<in> set ms \<Longrightarrow> set (payloads m) \<subseteq> set (unchunk ms) \<and> length (payloads m) \<le> length (unchunk ms)"
  by (induction ms) (auto simp: unchunk_def)


end
