(* ===== verification/Pipe_Threads.thy ===== *)
theory Pipe_Threads
  imports Pipe_Loop
begin

text \<open>
  The threaded worker, \<open>_threaded_worker_run\<close> of \<^verbatim>\<open>src/pipe/workers.py\<close>: one process whose threads
  each run \<open>_thread_loop\<close> with channels of their own, and whose main thread waits for them. The
  thread loop is modelled like the process loop; in a calm run of a middle stage the two are shown to
  do the same, so that what was shown of the process loop holds of a thread. The coordination of the
  main thread with its threads is a step relation, which shows where \<open>End\<close> can overtake items.
\<close>

section \<open>The loop of a thread\<close>

text \<open>
  What an iteration of a thread reads besides what a process reads: \<open>should_stop\<close> right after the
  get, and whether the put that returns the item to the queue finds it full.
\<close>

record 'a thread_obs =
  th_iter :: "'a iter_obs"
  th_thread_stop :: bool
  th_stop_after_get :: int
  th_requeue_full :: bool

text \<open>How a thread's iteration ends, and whether it sets \<open>thread_stop\<close>.\<close>

definition thread_exception :: "'a wcfg \<Rightarrow> exn \<Rightarrow> 'a wstate \<Rightarrow> 'a turn" where
  "thread_exception cfg e s =
     (if is_connection_error e then Return (s\<lparr>ws_stop_write := Some 2\<rparr>)
      else if c_raise_errors cfg then Crash e s
      else Next s)"

definition thread_continue :: "'a wcfg \<Rightarrow> 'a wstate \<times> exn option \<Rightarrow> 'a turn" where
  "thread_continue cfg r = (case r of (s, None) \<Rightarrow> Next s | (s, Some e) \<Rightarrow> thread_exception cfg e s)"

definition requeue :: "'a wstate \<Rightarrow> 'a wstate" where
  "requeue s = (case ic_requeue_buffered (ws_in s) of (ch, ms) \<Rightarrow> s\<lparr>ws_in := ch, ws_back := ws_back s @ ms\<rparr>)"

definition call_thread :: "'a wcfg \<Rightarrow> 'a iter_obs \<Rightarrow> 'a val \<Rightarrow> nat \<Rightarrow> 'a wstate \<Rightarrow> 'a wstate \<times> exn option" where
  "call_thread cfg ob arg n_items s =
     handle_result cfg ob n_items (extract_audio_duration (c_dict cfg) arg) (io_call ob arg) s"

definition thread_middle_turn :: "'a wcfg \<Rightarrow> 'a thread_obs \<Rightarrow> 'a wstate \<Rightarrow> 'a turn" where
  "thread_middle_turn cfg tob s =
     (let ob = th_iter tob in
      case take_input s of
        (s1, Inl e) \<Rightarrow>
          (if e = EmptyE then
             let s2 = s1\<lparr>ws_empty := Suc (ws_empty s1)\<rparr> in
             if io_upstream ob \<and> c_threshold cfg \<le> ws_empty s2 then Return s2 else Next s2
           else if is_os_error e \<or> e = EOFE then Return s1
           else thread_exception cfg e s1)
      | (s1, Inr item) \<Rightarrow>
          let s2 = s1\<lparr>ws_empty := 0\<rparr> in
          if th_stop_after_get tob \<noteq> 0 then
            Return (requeue (if th_requeue_full tob then s2 else s2\<lparr>ws_back := ws_back s2 @ [ItemM item]\<rparr>))
          else if is_worker_stop item then Return (requeue s2)
          else if is_end item then Next s2
          else if 0 < c_batch_size cfg then
            (case gather (c_batch_size cfg) (io_deadline ob) (io_clocks ob) [item] s2 of
               (s3, Inl e) \<Rightarrow> thread_exception cfg e s3
             | (s3, Inr batch) \<Rightarrow> thread_continue cfg (call_thread cfg ob (ListV batch) (length batch) s3))
          else thread_continue cfg (call_thread cfg ob item 1 s2))"

text \<open>
  The root branch of a thread: as in a process, except that results that are not generators are
  counted but not published, and that the end of the source sets \<open>thread_stop\<close> (the second result).
\<close>

definition count_thread :: "'a wcfg \<Rightarrow> nat \<Rightarrow> real \<Rightarrow> real \<Rightarrow> 'a wstate \<Rightarrow> 'a wstate" where
  "count_thread cfg n dt audio s =
     (if c_timing cfg then s\<lparr>ws_timing := add_timing n dt audio (ws_timing s)\<rparr> else s)"

definition thread_root_turn :: "'a wcfg \<Rightarrow> 'a thread_obs \<Rightarrow> 'a wstate \<Rightarrow> 'a turn \<times> bool" where
  "thread_root_turn cfg tob s =
     (let ob = th_iter tob in
      case io_call ob NoneV of
        Raise e \<Rightarrow> (thread_exception cfg e s, False)
      | Gen xs fin \<Rightarrow>
          (let stops = zip (map (io_gen_stop ob) [0..<length xs]) xs;
               count = (\<lambda>x s. (count_thread cfg 1 0 (extract_audio_duration (c_dict cfg) x) s, None));
               em = (if ws_port s = None then None else Some (emit_one cfg ob))
           in case drain_source_generator (c_raise_errors cfg) em count stops fin 0 s of
                (s1, Inl e) \<Rightarrow> (thread_exception cfg e s1, False)
              | (s1, Inr (raised, n)) \<Rightarrow>
                  if raised then
                    (case backoff_wait (0 < n) (io_retry_now ob) (io_retry ob) (ws_backoff s1) of
                       (b, Inl e) \<Rightarrow> (thread_exception cfg e (s1\<lparr>ws_backoff := b\<rparr>), False)
                     | (b, Inr _) \<Rightarrow> (Next (s1\<lparr>ws_backoff := b\<rparr>), False))
                  else (Return (record_root cfg 0 (io_elapsed ob) 0 s1), True))
      | Ret r \<Rightarrow>
          if r = NoneV then (Next s, False)
          else if is_end r then (Return s, True)
          else
            let result = result_list r;
                has_end = list_ex is_end result;
                valid = valid_items result;
                s1 = (if valid = [] then s
                      else count_thread cfg (length valid) (io_elapsed ob)
                             (sum_list (map (extract_audio_duration (c_dict cfg)) valid)) s)
            in case emit_many cfg ob valid s1 of
                 (s2, Some e) \<Rightarrow> (thread_exception cfg e s2, False)
               | (s2, None) \<Rightarrow> if has_end then (Return s2, True) else (Next s2, False))"

definition thread_iteration :: "'a wcfg \<Rightarrow> 'a thread_obs \<Rightarrow> 'a wstate \<Rightarrow> 'a turn \<times> bool" where
  "thread_iteration cfg tob s =
     (let ob = th_iter tob;
          flushed = (case ws_port s of
              None \<Rightarrow> (s, None)
            | Some p \<Rightarrow> (case port_maybe_flush (io_now ob) (io_flush_exn ob) p of (p', r) \<Rightarrow> (s\<lparr>ws_port := Some p'\<rparr>, r)))
      in case flushed of
        (s1, Some e) \<Rightarrow> (Crash e s1, False)
      | (s1, None) \<Rightarrow>
          if \<not> c_drain cfg \<and> io_drain_set ob then (Return s1, False)
          else if c_root cfg then thread_root_turn cfg tob s1
          else (thread_middle_turn cfg tob s1, False))"

text \<open>The loop, and \<open>thread_fn\<close>, whose \<open>finally\<close> flushes the thread's output channel.\<close>

fun thread_loop :: "'a wcfg \<Rightarrow> 'a thread_obs list \<Rightarrow> 'a wstate \<Rightarrow> 'a turn \<times> bool" where
  "thread_loop cfg [] s = (Next s, False)"
| "thread_loop cfg (tob # tobs) s =
     (if io_stop (th_iter tob) \<noteq> 0 \<or> th_thread_stop tob then (Return s, False)
      else case thread_iteration cfg tob s of
        (Next s1, _) \<Rightarrow> thread_loop cfg tobs s1
      | t \<Rightarrow> t)"

definition thread_fn :: "'a wcfg \<Rightarrow> 'a thread_obs list \<Rightarrow> exn option \<Rightarrow> 'a wstate \<Rightarrow> 'a turn \<times> bool" where
  "thread_fn cfg tobs flush_exn s =
     (case thread_loop cfg tobs s of
        (Return s1, stop) \<Rightarrow>
          (case flush_opt flush_exn (ws_port s1) of
             (port, None) \<Rightarrow> (Return (s1\<lparr>ws_port := port\<rparr>), stop)
           | (port, Some e) \<Rightarrow> (Crash e (s1\<lparr>ws_port := port\<rparr>), stop))
      | (Crash e s1, stop) \<Rightarrow>
          (case flush_opt flush_exn (ws_port s1) of
             (port, None) \<Rightarrow> (Crash e (s1\<lparr>ws_port := port\<rparr>), stop)
           | (port, Some e') \<Rightarrow> (Crash e' (s1\<lparr>ws_port := port\<rparr>), stop))
      | t \<Rightarrow> t)"

section \<open>Threads do what processes do\<close>

fun as_thread :: "'a turn \<Rightarrow> 'a turn" where
  "as_thread (Leave s) = Return s"
| "as_thread t = t"

lemma as_thread_simps:
  "as_thread (on_exception cfg e s) = thread_exception cfg e s"
  "as_thread (continue_or cfg r) = thread_continue cfg r"
  by (auto simp: on_exception_def thread_exception_def continue_or_def thread_continue_def split: prod.splits option.splits)

lemma call_thread_process: "\<not> c_busy cfg \<Longrightarrow> call_and_handle cfg ob arg n s = call_thread cfg ob arg n s"
  by (simp add: call_and_handle_def call_thread_def timed_call_def)

lemma thread_middle_process:
  assumes "\<not> c_busy cfg" and "th_stop_after_get tob = 0" and "input_ok s"
  shows "thread_middle_turn cfg tob s = as_thread (middle_turn cfg (th_iter tob) s)"
proof -
  obtain s1 r where t: "take_input s = (s1, r)" by force
  note T = take_input_ok [OF assms(3) t]
  show ?thesis
  proof (cases r)
    case (Inl e)
    with t show ?thesis by (simp add: thread_middle_turn_def middle_turn_def Let_def as_thread_simps)
  next
    case (Inr item)
    with T have "\<not> is_worker_stop item" by auto
    with t Inr assms(1,2) show ?thesis
      by (auto simp: thread_middle_turn_def middle_turn_def Let_def as_thread_simps call_thread_process split: prod.splits sum.splits)
  qed
qed

lemma thread_iteration_process:
  assumes "\<not> c_busy cfg" and "\<not> c_root cfg" and "th_stop_after_get tob = 0" and "calm f (th_iter tob)" and "input_ok s" and "has_port s"
  shows "thread_iteration cfg tob s = (as_thread (iteration cfg (th_iter tob) s), False)"
proof -
  from assms(6) obtain p where p: "ws_port s = Some p" "port_ok p" by (auto simp: has_port_def)
  obtain p' r where m: "port_maybe_flush (io_now (th_iter tob)) (io_flush_exn (th_iter tob)) p = (p', r)" by force
  have r: "r = None" using port_maybe_flush_correct(3) [OF p(2) m] assms(4) by (simp add: calm_def)
  let ?s2 = "s\<lparr>ws_port := Some p'\<rparr>"
  have same: "?s2\<lparr>ws_park_write := ws_park_write s\<rparr> = ?s2" by simp
  have "input_ok ?s2" using assms(5) by (simp add: input_ok_def pending_in_def)
  from thread_middle_process [OF assms(1,3) this] show ?thesis
    using assms(2,4) p m r by (simp add: thread_iteration_def iteration_def calm_def maybe_park_def Let_def same)
qed

text \<open>
  C28: in a calm run a thread of a middle stage behaves exactly as a worker process: same input taken,
  same output, same decision to leave, whatever the batch size; so the guarantees of the process loop
  (order, no loss, no duplication, termination) hold of every thread.
\<close>

theorem thread_loop_is_process_loop:
  assumes "\<forall>tob \<in> set tobs. calm f (th_iter tob) \<and> \<not> th_thread_stop tob \<and> th_stop_after_get tob = 0"
    and "mild f" and "\<not> c_raise_errors cfg" and "\<not> c_root cfg" and "\<not> c_busy cfg" and "has_port s" and "input_ok s"
  shows "thread_loop cfg tobs s = (as_thread (worker_loop cfg (map th_iter tobs) s), False)"
  using assms(1,6,7)
proof (induction tobs arbitrary: s)
  case (Cons tob tobs)
  have c: "calm f (th_iter tob)" "th_stop_after_get tob = 0" "\<not> th_thread_stop tob" using Cons.prems(1) by auto
  note it = thread_iteration_process [OF assms(5,4) c(2,1) Cons.prems(3,2)]
  from iteration_good [OF Cons.prems(2) c(1) assms(2-4) Cons.prems(3)] obtain s1 where
    I: "iteration cfg (th_iter tob) s = Next s1 \<or> iteration cfg (th_iter tob) s = Leave s1" "has_port s1" "input_ok s1"
    unfolding good_turn_def by blast
  show ?case
  proof (cases "iteration cfg (th_iter tob) s = Next s1")
    case True
    with Cons.IH [OF _ I(2,3)] Cons.prems(1) it c show ?thesis by (simp add: calm_def)
  next
    case False
    with I(1) it c show ?thesis by (simp add: calm_def)
  qed
qed simp

theorem thread_loop_is_process_loop_witness:
  "\<exists>s'. thread_loop (sample_cfg\<lparr>c_busy := False\<rparr>)
      (replicate 12 \<lparr>th_iter = sample_obs, th_thread_stop = False, th_stop_after_get = 0, th_requeue_full = False\<rparr>) sample_state
      = (Return s', False) \<and> out s' = [Obj 1, Obj 2, Obj 3, Obj 4]"
proof -
  let ?cfg = "sample_cfg\<lparr>c_busy := False\<rparr>"
  let ?tob = "\<lparr>th_iter = sample_obs, th_thread_stop = False, th_stop_after_get = 0, th_requeue_full = False\<rparr>"
  have cfg: "\<not> c_raise_errors ?cfg" "\<not> c_root ?cfg" "\<not> c_busy ?cfg" "c_threshold ?cfg = 3"
    using sample_run_ok by simp_all
  have "\<forall>tob \<in> set (replicate 12 ?tob). calm Ret (th_iter tob) \<and> \<not> th_thread_stop tob \<and> th_stop_after_get tob = 0"
    by (simp add: sample_run_ok)
  from thread_loop_is_process_loop [OF this sample_run_ok(3) cfg(1-3) sample_run_ok(6,7)]
  have eq: "thread_loop ?cfg (replicate 12 ?tob) sample_state = (as_thread (worker_loop ?cfg (replicate 12 sample_obs) sample_state), False)"
    by simp
  have "\<forall>ob \<in> set (replicate 12 sample_obs). calm Ret ob \<and> io_upstream ob" by (simp add: sample_run_ok)
  from worker_loop_drains [OF this sample_run_ok(3) cfg(1,2) sample_run_ok(6,7)] obtain s' where
    R: "worker_loop ?cfg (replicate 12 sample_obs) sample_state = Leave s'" "pending_in s' = []" "progress ?cfg Ret sample_state s'"
    using cfg(4) sample_run_ok(8-10) by auto
  then obtain calls where c: "concat calls = [Obj 1, Obj 2, Obj 3, Obj 4]"
     "out s' = concat (map (\<lambda>c. outputs Ret (call_arg ?cfg c)) calls)"
    unfolding progress_def by (auto simp: sample_run_ok)
  have "concat (map (\<lambda>c. outputs Ret (call_arg ?cfg c)) calls) = concat calls"
    using sample_outputs [of calls] c(1) by (simp add: call_arg_def)
  with c R eq show ?thesis by simp
qed

section \<open>The main thread and its threads\<close>

text \<open>
  The end of a root stage with one thread. The thread, done with its source, sets \<open>thread_stop\<close> and
  returns; its \<open>finally\<close> then flushes its output channel. The main thread waits until \<open>thread_stop\<close>
  is set (or the thread is done), does not wait for the thread (\<open>shutdown(wait=False)\<close>), and finishes
  the stage by putting \<open>End\<close>.
\<close>

record 'a thread_conf =
  tc_pending :: "'a val list"
  tc_stop :: bool
  tc_thread_done :: bool
  tc_main_done :: bool
  tc_log :: "'a msg list"

inductive thread_step :: "'a thread_conf \<Rightarrow> 'a thread_conf \<Rightarrow> bool" where
  source_ends: "\<not> tc_stop c \<Longrightarrow> thread_step c (c\<lparr>tc_stop := True\<rparr>)"
| thread_flush: "tc_stop c \<Longrightarrow> \<not> tc_thread_done c \<Longrightarrow>
     thread_step c (c\<lparr>tc_thread_done := True, tc_pending := [],
       tc_log := tc_log c @ (if tc_pending c = [] then [] else [ChunkM (tc_pending c)])\<rparr>)"
| main_finishes: "tc_stop c \<or> tc_thread_done c \<Longrightarrow> \<not> tc_main_done c \<Longrightarrow>
     thread_step c (c\<lparr>tc_main_done := True, tc_log := tc_log c @ [ItemM EndV]\<rparr>)"

text \<open>
  C40: in a threaded root stage \<open>End\<close> can overtake the last items: whatever a thread still holds in its
  output channel when its source ends, there is an interleaving in which the main thread puts \<open>End\<close>
  before the thread's final flush, and a reader that stops at its \<open>End\<close> never sees those items.
\<close>

theorem threaded_end_overtakes:
  assumes "pending \<noteq> []"
  shows "\<exists>c. thread_step\<^sup>*\<^sup>* \<lparr>tc_pending = pending, tc_stop = False, tc_thread_done = False, tc_main_done = False, tc_log = []\<rparr> c
     \<and> tc_thread_done c \<and> tc_main_done c \<and> tc_log c = [ItemM EndV, ChunkM pending]
     \<and> pi_poll bq_get ic_new \<lparr>bq_maxsize = 0, bq_items = tc_log c\<rparr>
         = (ic_new, \<lparr>bq_maxsize = 0, bq_items = [ChunkM pending]\<rparr>, StopIteration)"
proof -
  define a where "a = \<lparr>tc_pending = pending, tc_stop = False, tc_thread_done = False, tc_main_done = False, tc_log = []\<rparr>"
  define b where "b = a\<lparr>tc_stop := True\<rparr>"
  define c where "c = b\<lparr>tc_main_done := True, tc_log := tc_log b @ [ItemM EndV]\<rparr>"
  define d where "d = c\<lparr>tc_thread_done := True, tc_pending := [],
       tc_log := tc_log c @ (if tc_pending c = [] then [] else [ChunkM (tc_pending c)])\<rparr>"
  have "thread_step a b" unfolding b_def by (rule thread_step.source_ends) (simp add: a_def)
  moreover have "thread_step b c" unfolding c_def by (rule thread_step.main_finishes) (simp_all add: b_def a_def)
  moreover have "thread_step c d" unfolding d_def by (rule thread_step.thread_flush) (simp_all add: c_def b_def a_def)
  ultimately have "thread_step\<^sup>*\<^sup>* a d" by (meson converse_rtranclp_into_rtranclp r_into_rtranclp)
  moreover have "tc_log d = [ItemM EndV, ChunkM pending]" "tc_thread_done d" "tc_main_done d"
    using assms by (simp_all add: d_def c_def b_def a_def)
  ultimately show ?thesis
    unfolding a_def by (auto simp: pi_poll_def ic_get_def bq_get_def ic_new_def)
qed

theorem threaded_end_overtakes_witness:
  "\<exists>c. thread_step\<^sup>*\<^sup>* \<lparr>tc_pending = [Obj (3::nat)], tc_stop = False, tc_thread_done = False, tc_main_done = False, tc_log = []\<rparr> c
     \<and> tc_log c = [ItemM EndV, ChunkM [Obj 3]]"
  using threaded_end_overtakes [of "[Obj (3::nat)]"] by auto

end
