(* ===== verification/Pipe_Placement.thy ===== *)
theory Pipe_Placement
  imports Pipe_Prelude
begin

text \<open>
  Where a worker runs: the helpers of \<^verbatim>\<open>src/pipe/workers.py\<close> that turn the parent's logical
  placement into the child's environment. \<open>_resolve_physical_gpu\<close> composes a logical GPU index
  with an inherited \<open>CUDA_VISIBLE_DEVICES\<close>, \<open>_cpu_chunk\<close> splits a stage's core pool among its
  workers, \<open>_setup_cpu\<close> pins the process and sizes its thread pools. The strings are Latin-1
  character lists.
\<close>

section \<open>Python string operations\<close>

text \<open>\<open>str.isspace\<close> on Latin-1 characters.\<close>

definition py_space :: "char \<Rightarrow> bool" where
  "py_space c \<longleftrightarrow> (let n = (of_char c :: nat) in 9 \<le> n \<and> n \<le> 13 \<or> 28 \<le> n \<and> n \<le> 32 \<or> n = 133 \<or> n = 160)"

definition rstrip :: "string \<Rightarrow> string" where
  "rstrip s = rev (dropWhile py_space (rev s))"

definition strip :: "string \<Rightarrow> string" where
  "strip s = rstrip (dropWhile py_space s)"

text \<open>\<open>s.split(sep)\<close> for a one-character separator: never the empty list.\<close>

fun split_on :: "char \<Rightarrow> string \<Rightarrow> string list" where
  "split_on sep [] = [[]]"
| "split_on sep (c # cs) =
     (if c = sep then [] # split_on sep cs
      else (case split_on sep cs of [] \<Rightarrow> [[c]] | t # ts \<Rightarrow> (c # t) # ts))"

text \<open>\<open>str(n)\<close> of an integer.\<close>

fun nat_str :: "nat \<Rightarrow> string" where
  "nat_str n = (if n < 10 then [char_of (48 + n)] else nat_str (n div 10) @ [char_of (48 + n mod 10)])"

declare nat_str.simps [simp del]

definition int_str :: "int \<Rightarrow> string" where
  "int_str i = (if i < 0 then CHR ''-'' # nat_str (nat (- i)) else nat_str (nat i))"

fun join_with :: "string \<Rightarrow> string list \<Rightarrow> string" where
  "join_with sep [] = []"
| "join_with sep [t] = t"
| "join_with sep (t # ts) = t @ sep @ join_with sep ts"

lemma comma_not_space [simp]: "\<not> py_space CHR '',''"
  by (simp add: py_space_def)

lemma split_on_not_Nil [simp]: "split_on sep s \<noteq> []"
  by (induction s) (auto split: list.splits)

lemma split_on_free: "sep \<notin> set s \<Longrightarrow> split_on sep s = [s]"
  by (induction s) auto

lemma split_on_append:
  "sep \<notin> set t \<Longrightarrow> split_on sep (t @ sep # s) = t # split_on sep s"
  by (induction t) auto

lemma split_on_join:
  "ts \<noteq> [] \<Longrightarrow> \<forall>t \<in> set ts. sep \<notin> set t \<Longrightarrow> split_on sep (join_with [sep] ts) = ts"
  by (induction "[sep]" ts rule: join_with.induct) (auto simp: split_on_free split_on_append)

lemma split_on_snoc:
  "split_on sep (s @ [c]) =
   (if c = sep then split_on sep s @ [[]]
    else butlast (split_on sep s) @ [last (split_on sep s) @ [c]])"
  by (induction s) (auto split: list.splits)

lemma strip_dropWhile [simp]: "strip (dropWhile py_space t) = strip t"
  by (simp add: strip_def)

lemma rstrip_snoc: "rstrip (s @ [c]) = (if py_space c then rstrip s else s @ [c])"
  by (simp add: rstrip_def)

lemma rstrip_Nil [simp]: "rstrip [] = []"
  by (simp add: rstrip_def)

lemma strip_snoc_space: "py_space c \<Longrightarrow> strip (s @ [c]) = strip s"
  by (cases "\<forall>x \<in> set s. py_space x")
     (auto simp: strip_def dropWhile_append rstrip_snoc dropWhile_eq_Nil_conv [THEN iffD2])

text \<open>Stripping the whole string changes no token once the tokens are stripped themselves.\<close>

lemma tokens_lstrip:
  assumes "\<not> py_space sep"
  shows "map strip (split_on sep (dropWhile py_space s)) = map strip (split_on sep s)"
proof (induction s)
  case (Cons c s)
  then show ?case
    using assms by (auto split: list.splits simp: strip_def)
qed simp

lemma tokens_rstrip:
  assumes "\<not> py_space sep"
  shows "map strip (split_on sep (rstrip s)) = map strip (split_on sep s)"
proof (induction s rule: rev_induct)
  case (snoc c s)
  have "map strip (split_on sep (s @ [c])) = map strip (split_on sep s)" if "py_space c"
  proof -
    have "split_on sep s = butlast (split_on sep s) @ [last (split_on sep s)]" by simp
    then have "map strip (split_on sep s) = map strip (butlast (split_on sep s)) @ [strip (last (split_on sep s))]"
      by (metis list.simps(8,9) map_append)
    moreover have "c \<noteq> sep" using assms that by auto
    ultimately show ?thesis using that by (simp add: split_on_snoc strip_snoc_space)
  qed
  with snoc show ?case by (simp add: rstrip_snoc)
qed simp

lemma tokens_strip:
  "\<not> py_space sep \<Longrightarrow> map strip (split_on sep (strip s)) = map strip (split_on sep s)"
  by (metis strip_def tokens_lstrip tokens_rstrip)

section \<open>Logical to physical GPU\<close>

text \<open>\<open>_resolve_physical_gpu\<close>; \<open>None\<close> is an unset variable.\<close>

definition resolve_physical_gpu :: "int \<Rightarrow> string option \<Rightarrow> string" where
  "resolve_physical_gpu gpu_id inherited_cvd =
     (let inherited = strip (case inherited_cvd of None \<Rightarrow> [] | Some s \<Rightarrow> s) in
      if inherited = [] then int_str gpu_id
      else
        let visible = filter (\<lambda>d. d \<noteq> []) (map strip (split_on CHR '','' inherited)) in
        if 0 \<le> gpu_id \<and> gpu_id < int (length visible) then visible ! nat gpu_id
        else int_str gpu_id)"

lemma strip_nonempty_iff: "strip s = [] \<longleftrightarrow> (\<forall>c \<in> set s. py_space c)"
proof -
  have "rstrip t = [] \<longleftrightarrow> (\<forall>c \<in> set t. py_space c)" for t
    by (simp add: rstrip_def dropWhile_eq_Nil_conv)
  moreover have "(\<forall>c \<in> set (dropWhile py_space s). py_space c) \<longleftrightarrow> (\<forall>c \<in> set s. py_space c)"
    by (metis dropWhile_eq_Nil_conv hd_dropWhile list.set_sel(1) set_dropWhileD)
  ultimately show ?thesis by (simp add: strip_def)
qed

lemma set_join: "t \<in> set ts \<Longrightarrow> set t \<subseteq> set (join_with sep ts)"
  by (induction sep ts rule: join_with.induct) auto

lemma visible_tokens:
  assumes "ts \<noteq> []" and "\<forall>t \<in> set ts. CHR '','' \<notin> set t \<and> strip t \<noteq> []"
  shows "strip (join_with '','' ts) \<noteq> []"
    and "filter (\<lambda>d. d \<noteq> []) (map strip (split_on CHR '','' (strip (join_with '','' ts)))) = map strip ts"
proof -
  from assms(1) have "hd ts \<in> set ts" by simp
  with assms(2) obtain c where "c \<in> set (hd ts)" "\<not> py_space c"
    by (auto simp: strip_nonempty_iff)
  then show "strip (join_with '','' ts) \<noteq> []"
    using set_join [OF \<open>hd ts \<in> set ts\<close>] by (auto simp: strip_nonempty_iff)
  have "map strip (split_on CHR '','' (strip (join_with '','' ts))) = map strip ts"
    using assms by (simp add: tokens_strip split_on_join)
  then show "filter (\<lambda>d. d \<noteq> []) (map strip (split_on CHR '','' (strip (join_with '','' ts)))) = map strip ts"
    using assms(2) by (auto simp: filter_id_conv)
qed

text \<open>
  Under an inherited \<open>CUDA_VISIBLE_DEVICES\<close> that lists the devices \<open>ts\<close> (with any white
  space around the entries), logical GPU \<open>i\<close> resolves to the \<open>i\<close>-th listed device, so the
  logical pool \<open>0 .. length ts - 1\<close> is mapped onto exactly the inherited devices, in order; with
  no restriction, or an index outside the list, the logical index itself is used.
\<close>

theorem resolve_respects_visible:
  assumes "\<forall>t \<in> set ts. CHR '','' \<notin> set t \<and> strip t \<noteq> []"
  shows "map (\<lambda>i. resolve_physical_gpu (int i) (Some (join_with '','' ts))) [0..<length ts] = map strip ts
    \<and> (0 \<le> g \<and> g < int (length ts) \<or> resolve_physical_gpu g (Some (join_with '','' ts)) = int_str g)
    \<and> resolve_physical_gpu g None = int_str g"
proof (cases "ts = []")
  case True
  then show ?thesis by (simp add: resolve_physical_gpu_def strip_def)
next
  case False
  note vt = visible_tokens [OF this assms]
  have "resolve_physical_gpu (int i) (Some (join_with '','' ts)) = map strip ts ! i" if "i < length ts" for i
    using that vt by (simp add: resolve_physical_gpu_def)
  then have "map (\<lambda>i. resolve_physical_gpu (int i) (Some (join_with '','' ts))) [0..<length ts] = map strip ts"
    by (auto intro: nth_equalityI)
  moreover have "0 \<le> g \<and> g < int (length ts) \<or> resolve_physical_gpu g (Some (join_with '','' ts)) = int_str g"
    using vt by (auto simp: resolve_physical_gpu_def)
  moreover have "resolve_physical_gpu g None = int_str g"
    by (simp add: resolve_physical_gpu_def strip_def)
  ultimately show ?thesis by blast
qed

theorem resolve_respects_visible_witness:
  "map (\<lambda>i. resolve_physical_gpu (int i) (Some (join_with '','' [''4'', '' 5'', ''6 '']))) [0..<3] = [''4'', ''5'', ''6'']"
  using resolve_respects_visible [of "[''4'', '' 5'', ''6 '']" 7]
  by (simp add: strip_def rstrip_def py_space_def upt_rec)

section \<open>Splitting the core pool\<close>

text \<open>
  \<open>_cpu_chunk\<close>. \<open>Inr None\<close> is Python's \<open>None\<close>; the \<open>divmod\<close> by a zero worker count raises.
\<close>

definition cpu_chunk :: "'c list option \<Rightarrow> nat \<Rightarrow> nat \<Rightarrow> exn + 'c list option" where
  "cpu_chunk cpu_pool worker_idx num_workers =
     (case cpu_pool of
        None \<Rightarrow> Inr None
      | Some [] \<Rightarrow> Inr None
      | Some pool \<Rightarrow>
          let n = length pool in
          if num_workers \<ge> n then Inr (Some [pool ! (worker_idx mod n)])
          else if num_workers = 0 then Inl OtherExn
          else
            let base = n div num_workers;
                rem = n mod num_workers;
                start = worker_idx * base + min worker_idx rem;
                size = base + (if worker_idx < rem then 1 else 0)
            in Inr (Some (take size (drop start pool))))"

definition chunk_start :: "nat \<Rightarrow> nat \<Rightarrow> nat \<Rightarrow> nat" where
  "chunk_start n m w = w * (n div m) + min w (n mod m)"

lemma chunk_start_0 [simp]: "chunk_start n m 0 = 0"
  by (simp add: chunk_start_def)

lemma chunk_start_Suc:
  "chunk_start n m (Suc w) = chunk_start n m w + (n div m + (if w < n mod m then 1 else 0))"
  by (simp add: chunk_start_def)

lemma chunk_start_end: "0 < m \<Longrightarrow> chunk_start n m m = n"
  using mod_less_divisor [of m n] by (simp add: chunk_start_def min_def del: mod_less_divisor)

lemma cpu_chunk_slice:
  assumes "0 < m" and "m < length pool"
  shows "cpu_chunk (Some pool) w m =
    Inr (Some (take (chunk_start (length pool) m (Suc w) - chunk_start (length pool) m w)
                 (drop (chunk_start (length pool) m w) pool)))"
  using assms by (cases pool) (auto simp: cpu_chunk_def chunk_start_def Let_def)

definition chunk_of :: "'c list option \<Rightarrow> nat \<Rightarrow> nat \<Rightarrow> 'c list" where
  "chunk_of pool m w = (case cpu_chunk pool w m of Inr (Some c) \<Rightarrow> c | _ \<Rightarrow> [])"

lemma chunks_prefix:
  assumes "0 < m" and "m < length pool" and "k \<le> m"
  shows "concat (map (chunk_of (Some pool) m) [0..<k]) = take (chunk_start (length pool) m k) pool"
  using \<open>k \<le> m\<close>
proof (induction k)
  case (Suc k)
  have "chunk_start (length pool) m k \<le> chunk_start (length pool) m (Suc k)"
    by (simp add: chunk_start_Suc)
  then show ?case
    using Suc assms by (simp add: chunk_of_def cpu_chunk_slice take_add [symmetric])
qed simp

lemma chunk_start_le:
  assumes "0 < m" and "w \<le> m"
  shows "chunk_start n m w \<le> n"
proof -
  have "w * (n div m) + min w (n mod m) \<le> m * (n div m) + n mod m"
    using assms by (intro add_mono mult_le_mono) auto
  then show ?thesis by (simp add: chunk_start_def)
qed

text \<open>
  With fewer workers than cores, the slices of a stage's \<open>cpus=\<close> pool are a partition of the
  pool in order (every core belongs to exactly one worker's slice), and two slices differ in size
  by at most one.
\<close>

theorem cpu_chunk_partition:
  assumes "0 < m" and "m < length pool"
  shows "concat (map (chunk_of (Some pool) m) [0..<m]) = pool
    \<and> (\<forall>v w. v < m \<longrightarrow> w < m \<longrightarrow>
         length (chunk_of (Some pool) m v) \<le> length (chunk_of (Some pool) m w) + 1
         \<and> 0 < length (chunk_of (Some pool) m v))"
proof -
  have len: "length (chunk_of (Some pool) m w) = length pool div m + (if w < length pool mod m then 1 else 0)"
    if "w < m" for w
    using assms chunk_start_le [of m "Suc w" "length pool"] that
    by (simp add: chunk_of_def cpu_chunk_slice chunk_start_Suc)
  have "0 < length pool div m"
    using assms by (simp add: div_greater_zero_iff)
  moreover have "concat (map (chunk_of (Some pool) m) [0..<m]) = pool"
    using assms by (simp add: chunks_prefix chunk_start_end)
  ultimately show ?thesis by (simp add: len)
qed

theorem cpu_chunk_partition_witness:
  "concat (map (chunk_of (Some [0, 1, 2, 3, 4, 5, 6 :: nat]) 3) [0..<3]) = [0, 1, 2, 3, 4, 5, 6]"
  using cpu_chunk_partition [of 3 "[0, 1, 2, 3, 4, 5, 6 :: nat]"] by simp

section \<open>Pinning and thread counts\<close>

text \<open>
  What \<open>_setup_cpu\<close> sets in the process. \<open>setaff\<close> is the platform's \<open>sched_setaffinity\<close>:
  absent, or a function whose result says whether the call succeeded.
\<close>

record cpu_env =
  affinity :: "nat set option"
  torch_threads :: "int option"
  OMP_NUM_THREADS :: string
  MKL_NUM_THREADS :: string
  OPENBLAS_NUM_THREADS :: string

definition cpu_thread_count :: "nat list option \<Rightarrow> int option \<Rightarrow> int" where
  "cpu_thread_count cpu_affinity cpu_threads =
     (case cpu_threads of
        Some n \<Rightarrow> if n \<noteq> 0 then n
                  else (case cpu_affinity of Some (c # cs) \<Rightarrow> int (length (c # cs)) | _ \<Rightarrow> 2)
      | None \<Rightarrow> (case cpu_affinity of Some (c # cs) \<Rightarrow> int (length (c # cs)) | _ \<Rightarrow> 2))"

definition setup_cpu ::
  "(nat set \<Rightarrow> bool) option \<Rightarrow> bool \<Rightarrow> nat list option \<Rightarrow> int option \<Rightarrow> cpu_env \<Rightarrow> cpu_env" where
  "setup_cpu setaff torch_loaded cpu_affinity cpu_threads env =
     (let env1 =
        (case cpu_affinity of
           Some (c # cs) \<Rightarrow>
             (case setaff of
                Some f \<Rightarrow> if f (set (c # cs)) then env\<lparr>affinity := Some (set (c # cs))\<rparr> else env
              | None \<Rightarrow> env)
         | _ \<Rightarrow> env);
        n = cpu_thread_count cpu_affinity cpu_threads;
        env2 = (if torch_loaded then env1\<lparr>torch_threads := Some n\<rparr> else env1);
        s = int_str n
      in env2\<lparr>OMP_NUM_THREADS := s, MKL_NUM_THREADS := s, OPENBLAS_NUM_THREADS := s\<rparr>)"

text \<open>
  A worker that gets its slice of the pool from \<open>_cpu_chunk\<close> and no explicit thread count is
  pinned to exactly that slice and sizes its BLAS and torch pools to the slice's length, when the
  platform supports pinning; an explicit non-zero \<open>cpu_threads\<close> wins over the slice; a worker with
  neither gets two threads and no pinning.
\<close>

theorem setup_cpu_threads:
  assumes "pool \<noteq> []" and "0 < m" and "w < m"
  shows "let c = chunk_of (Some pool) m w in
      c \<noteq> [] \<and> set c \<subseteq> set pool
    \<and> affinity (setup_cpu (Some (\<lambda>_. True)) torch (Some c) thr env) = Some (set c)
    \<and> OMP_NUM_THREADS (setup_cpu (Some f) torch (Some c) None env) = int_str (int (length c))
    \<and> torch_threads (setup_cpu (Some f) True (Some c) None env) = Some (int (length c))
    \<and> (n \<noteq> 0 \<longrightarrow> torch_threads (setup_cpu sa True ca (Some n) env) = Some n)
    \<and> setup_cpu sa True None None env
        = env\<lparr>torch_threads := Some 2, OMP_NUM_THREADS := ''2'', MKL_NUM_THREADS := ''2'', OPENBLAS_NUM_THREADS := ''2''\<rparr>"
proof -
  have two: "int_str 2 = ''2''" by code_simp
  have "chunk_of (Some pool) m w \<noteq> [] \<and> set (chunk_of (Some pool) m w) \<subseteq> set pool"
  proof (cases "m < length pool")
    case True
    have "0 < length (chunk_of (Some pool) m w)"
      using assms True chunk_start_le [of m "Suc w" "length pool"]
      by (simp add: chunk_of_def cpu_chunk_slice chunk_start_Suc div_greater_zero_iff)
    moreover have "set (chunk_of (Some pool) m w) \<subseteq> set pool"
      using assms True by (auto simp: chunk_of_def cpu_chunk_slice dest: in_set_takeD in_set_dropD)
    ultimately show ?thesis by auto
  next
    case False
    have "pool ! (w mod length pool) \<in> set pool"
      using assms(1) by (intro nth_mem) simp
    moreover have "chunk_of (Some pool) m w = [pool ! (w mod length pool)]"
      using False assms(1) by (cases pool) (simp_all add: chunk_of_def cpu_chunk_def)
    ultimately show ?thesis by simp
  qed
  then show ?thesis
    by (cases "chunk_of (Some pool) m w") (simp_all add: setup_cpu_def cpu_thread_count_def Let_def two split: option.splits list.splits)
qed

theorem setup_cpu_threads_witness:
  "chunk_of (Some [0, 1, 2, 3, 4 :: nat]) 2 1 = [3, 4] \<and>
   affinity (setup_cpu (Some (\<lambda>_. True)) True (Some [3, 4]) None
     \<lparr>affinity = None, torch_threads = None, OMP_NUM_THREADS = [], MKL_NUM_THREADS = [], OPENBLAS_NUM_THREADS = []\<rparr>)
   = Some {3, 4}"
  using setup_cpu_threads [of "[0, 1, 2, 3, 4 :: nat]" 2 1 True None
    "\<lparr>affinity = None, torch_threads = None, OMP_NUM_THREADS = [], MKL_NUM_THREADS = [], OPENBLAS_NUM_THREADS = []\<rparr>"]
  by (simp add: chunk_of_def cpu_chunk_def Let_def)

end
