(* ===== verification/Pipe_Scavenge.thy ===== *)
theory Pipe_Scavenge
  imports Pipe_Placement
begin

text \<open>
  The scavenger, \<^verbatim>\<open>src/pipe/scavenge.py\<close>: a thread of the parent that gives GPUs back to foreign
  processes and takes them again. Per poll and per slot (one worker of a scavenge stage) it asks
  the worker to park, or checkpoints it, or holds it, and undoes this when the GPU has been free
  long enough. What the driver tools and \<open>nvidia-smi\<close> answer is an argument. What is shown: a
  restore is only attempted with enough free memory and every failed checkpoint is unlocked;
  parked and frozen exclude each other; and a worker that waits for its GPU is always tracked, so
  that it is resumed when the GPU is free, unless an acknowledgement came after the timeout.
\<close>

section \<open>GPU occupancy\<close>

text \<open>\<open>nvidia-smi\<close> rows: physical GPU, process, MiB.\<close>

type_synonym apps = "(int \<times> int \<times> int) list"

text \<open>
  \<open>_gpu_compute_apps\<close> on the parsed rows: those too short, of an unknown GPU or with a number that
  does not parse are skipped; the parser of numbers is an argument.
\<close>

definition gpu_compute_apps ::
  "(string \<Rightarrow> int option) \<Rightarrow> (string \<rightharpoonup> int) option \<Rightarrow> string list list option \<Rightarrow> apps option" where
  "gpu_compute_apps to_int uuid_map rows =
     (case (uuid_map, rows) of
        (Some um, Some rs) \<Rightarrow>
          Some (List.map_filter (\<lambda>row.
            case row of
              uuid # pid # mem # _ \<Rightarrow>
                (case (um uuid, to_int pid, to_int mem) of
                   (Some idx, Some p, Some mm) \<Rightarrow> Some (idx, p, mm)
                 | _ \<Rightarrow> None)
            | _ \<Rightarrow> None) rs)
      | _ \<Rightarrow> None)"

text \<open>\<open>_nvidia_smi_csv\<close>: one row per line, cells stripped, rows without a first cell dropped.\<close>

definition csv_rows :: "string list \<Rightarrow> string list list" where
  "csv_rows lines = filter (\<lambda>r. r \<noteq> [] \<and> hd r \<noteq> []) (map (\<lambda>l. map strip (split_on CHR '','' l)) lines)"

definition busy_physical_gpus :: "apps option \<Rightarrow> int set \<Rightarrow> int set" where
  "busy_physical_gpus apps our_pids =
     (case apps of None \<Rightarrow> {} | Some as \<Rightarrow> {g. \<exists>p m. (g, p, m) \<in> set as \<and> p \<notin> our_pids})"

text \<open>
  \<open>physical_gpu\<close>: an entry of \<open>CUDA_VISIBLE_DEVICES\<close> is an index, or a (prefix of a) uuid; the
  first match in the table's order counts.
\<close>

definition is_prefix :: "string \<Rightarrow> string \<Rightarrow> bool" where
  "is_prefix p s \<longleftrightarrow> take (length p) s = p"

definition physical_gpu :: "(string \<Rightarrow> int option) \<Rightarrow> (string \<times> int) list \<Rightarrow> string option \<Rightarrow> int \<Rightarrow> int" where
  "physical_gpu to_int uuids cvd logical_id =
     (case cvd of
        None \<Rightarrow> logical_id
      | Some s \<Rightarrow>
          if s = [] then logical_id
          else
            let visible = filter (\<lambda>v. v \<noteq> []) (map strip (split_on CHR '','' s)) in
            if \<not> (0 \<le> logical_id \<and> logical_id < int (length visible)) then logical_id
            else
              let entry = visible ! nat logical_id in
              case to_int entry of
                Some i \<Rightarrow> i
              | None \<Rightarrow>
                  (case find (\<lambda>(u, i). is_prefix entry u \<or> is_prefix u entry) uuids of
                     Some (u, i) \<Rightarrow> i
                   | None \<Rightarrow> logical_id))"

definition pid_gpu_mib :: "apps option \<Rightarrow> int \<Rightarrow> int option" where
  "pid_gpu_mib apps pid =
     map_option (\<lambda>as. sum_list (map (\<lambda>(g, p, m). m) (filter (\<lambda>(g, p, m). p = pid) as))) apps"

section \<open>Slots\<close>

record slot =
  sl_worker :: nat
  sl_physical :: int
  sl_hold :: bool
  sl_park :: "int option"
  sl_supports_park :: bool
  sl_ipc :: bool
  sl_parked :: bool
  sl_frozen :: bool
  sl_frozen_mib :: int
  sl_hazard_logged :: bool

datatype ckpt_action = LockA | CheckpointA | RestoreA | UnlockA

datatype park_ack = Acked | Refused | TimedOut

text \<open>What one poll observes about one slot, in the order the code may ask for it.\<close>

record slot_obs =
  so_pid :: "int option"
  so_ack :: park_ack
  so_still :: "int option"
  so_fresh :: "int option"
  so_job_file :: bool
  so_avail :: "int option"
  so_lock_ok :: bool
  so_checkpoint_ok :: bool
  so_free :: "int option"
  so_restore_ok :: bool
  so_unlock_ok :: bool

definition PARK_RESIDUAL_MIB :: int where "PARK_RESIDUAL_MIB = 600"
definition RESTORE_MARGIN_MIB :: int where "RESTORE_MARGIN_MIB = 256"

section \<open>Actions\<close>

datatype hazard = HazardIpc | HazardPeers "int list"

definition checkpoint_hazard :: "bool \<Rightarrow> slot \<Rightarrow> int \<Rightarrow> apps \<Rightarrow> int set \<Rightarrow> hazard option" where
  "checkpoint_hazard job_file slot pid apps our_pids =
     (if job_file then None
      else if sl_ipc slot then Some HazardIpc
      else
        let peers = sort (map (\<lambda>(g, p, m). p) (filter (\<lambda>(g, p, m). g = sl_physical slot \<and> p \<in> our_pids \<and> p \<noteq> pid) apps))
        in if peers \<noteq> [] then Some (HazardPeers peers) else None)"

definition park_worker :: "slot_obs \<Rightarrow> slot \<Rightarrow> slot \<times> bool" where
  "park_worker ob slot =
     (case so_ack ob of
        Refused \<Rightarrow> (slot\<lparr>sl_park := Some 0\<rparr>, False)
      | TimedOut \<Rightarrow> (slot\<lparr>sl_park := Some 0\<rparr>, False)
      | Acked \<Rightarrow>
          (slot\<lparr>sl_park := Some 2\<rparr>,
           \<not> (PARK_RESIDUAL_MIB < (case so_still ob of None \<Rightarrow> 0 | Some m \<Rightarrow> m))))"

definition freeze_worker :: "slot_obs \<Rightarrow> int \<Rightarrow> ckpt_action list \<times> bool" where
  "freeze_worker ob used_mib =
     (if (case so_avail ob of Some a \<Rightarrow> used_mib \<noteq> 0 \<and> a < used_mib | None \<Rightarrow> False) then ([], False)
      else if \<not> so_lock_ok ob then ([LockA, UnlockA], False)
      else if \<not> so_checkpoint_ok ob then ([LockA, CheckpointA, UnlockA], False)
      else ([LockA, CheckpointA], True))"

definition thaw_worker :: "slot_obs \<Rightarrow> int \<Rightarrow> ckpt_action list \<times> bool" where
  "thaw_worker ob frozen_mib =
     (if frozen_mib \<noteq> 0 \<and> (case so_free ob of Some f \<Rightarrow> f < frozen_mib + RESTORE_MARGIN_MIB | None \<Rightarrow> False) then ([], False)
      else if \<not> so_restore_ok ob then ([RestoreA], False)
      else if \<not> so_unlock_ok ob then ([RestoreA, UnlockA], False)
      else ([RestoreA, UnlockA], True))"

definition keep_acked_park :: "slot \<Rightarrow> slot" where
  "keep_acked_park slot = (if sl_park slot = Some 2 then slot\<lparr>sl_parked := True\<rparr> else slot)"

section \<open>One poll\<close>

text \<open>
  What a poll knows of the machine: the processes on the GPUs, our own processes, whether there is
  a checkpoint binary, how long each GPU has been free.
\<close>

record poll_env =
  pe_apps :: apps
  pe_ours :: "int set"
  pe_ckpt_bin :: bool
  pe_streak :: "int \<Rightarrow> nat"
  pe_need :: nat

definition is_foreign :: "poll_env \<Rightarrow> int \<Rightarrow> bool" where
  "is_foreign env g = list_ex (\<lambda>(idx, pid, mib). idx = g \<and> pid \<notin> pe_ours env) (pe_apps env)"

definition used_by_pid :: "apps \<Rightarrow> int \<Rightarrow> int option" where
  "used_by_pid apps pid =
     (case filter (\<lambda>(g, p, m). p = pid) apps of
        [] \<Rightarrow> None
      | rs \<Rightarrow> Some (sum_list (map (\<lambda>(g, p, m). m) rs)))"

text \<open>The checkpoint path, once parking did not settle the slot.\<close>

definition checkpoint_slot :: "poll_env \<Rightarrow> slot_obs \<Rightarrow> int \<Rightarrow> int option \<Rightarrow> slot \<Rightarrow> slot \<times> ckpt_action list" where
  "checkpoint_slot env ob pid used slot =
     (case checkpoint_hazard (so_job_file ob) slot pid (pe_apps env) (pe_ours env) of
        Some h \<Rightarrow> (keep_acked_park (slot\<lparr>sl_hazard_logged := True\<rparr>), [])
      | None \<Rightarrow>
          let slot1 = slot\<lparr>sl_hold := True\<rparr> in
          (case used of
             None \<Rightarrow> (slot1, [])
           | Some mib \<Rightarrow>
               if \<not> pe_ckpt_bin env then (keep_acked_park slot1, [])
               else
                 (case freeze_worker ob mib of
                    (acts, True) \<Rightarrow> (slot1\<lparr>sl_frozen := True, sl_frozen_mib := mib\<rparr>, acts)
                  | (acts, False) \<Rightarrow> (keep_acked_park slot1, acts))))"

definition asks_to_park :: "poll_env \<Rightarrow> slot_obs \<Rightarrow> slot \<Rightarrow> bool" where
  "asks_to_park env ob slot \<longleftrightarrow>
     (\<exists>pid. so_pid ob = Some pid \<and> is_foreign env (sl_physical slot) \<and> \<not> sl_frozen slot \<and> \<not> sl_parked slot
        \<and> sl_supports_park slot \<and> used_by_pid (pe_apps env) pid \<noteq> None)"

definition claim_slot :: "poll_env \<Rightarrow> slot_obs \<Rightarrow> int \<Rightarrow> slot \<Rightarrow> slot \<times> ckpt_action list" where
  "claim_slot env ob pid slot =
     (if sl_frozen slot \<or> sl_parked slot then (slot, [])
      else
        let used = used_by_pid (pe_apps env) pid in
        if sl_supports_park slot \<and> used \<noteq> None then
          (case park_worker ob (slot\<lparr>sl_hold := True\<rparr>) of
             (slot1, True) \<Rightarrow> (slot1\<lparr>sl_parked := True\<rparr>, [])
           | (slot1, False) \<Rightarrow>
               checkpoint_slot env ob pid (case so_fresh ob of None \<Rightarrow> used | Some f \<Rightarrow> Some f) slot1)
        else checkpoint_slot env ob pid used slot)"

definition release_slot :: "slot_obs \<Rightarrow> slot \<Rightarrow> slot \<times> ckpt_action list" where
  "release_slot ob slot =
     (if sl_parked slot then (slot\<lparr>sl_park := Some 0, sl_parked := False, sl_hold := False\<rparr>, [])
      else if sl_frozen slot then
        (case thaw_worker ob (sl_frozen_mib slot) of
           (acts, True) \<Rightarrow>
             (slot\<lparr>sl_frozen := False, sl_park := (if sl_park slot = Some 2 then Some 0 else sl_park slot), sl_hold := False\<rparr>, acts)
         | (acts, False) \<Rightarrow> (slot, acts))
      else (slot\<lparr>sl_hold := False\<rparr>, []))"

definition poll_slot :: "poll_env \<Rightarrow> slot_obs \<Rightarrow> slot \<Rightarrow> slot \<times> ckpt_action list" where
  "poll_slot env ob slot =
     (case so_pid ob of
        None \<Rightarrow> (slot\<lparr>sl_frozen := False\<rparr>, [])
      | Some pid \<Rightarrow>
          if is_foreign env (sl_physical slot) then claim_slot env ob pid slot
          else if pe_need env \<le> pe_streak env (sl_physical slot) then release_slot ob slot
          else (slot, []))"

text \<open>The poll over all slots; the streak of every slot's GPU is brought up to date first.
  Python's \<open>round\<close> sends halves to the even neighbour.\<close>

definition py_round :: "real \<Rightarrow> int" where
  "py_round x =
     (let f = \<lfloor>x\<rfloor>; d = x - of_int f in
      if d < 1 / 2 then f else if 1 / 2 < d then f + 1 else if even f then f else f + 1)"

definition need_free_polls :: "real \<Rightarrow> real \<Rightarrow> nat" where
  "need_free_polls free_secs poll = max 1 (nat (py_round (free_secs / poll)))"

definition next_streak :: "apps \<Rightarrow> int set \<Rightarrow> slot list \<Rightarrow> (int \<Rightarrow> nat) \<Rightarrow> (int \<Rightarrow> nat)" where
  "next_streak apps ours slots streak =
     (\<lambda>g. if g \<in> sl_physical ` set slots
          then if list_ex (\<lambda>(idx, pid, mib). idx = g \<and> pid \<notin> ours) apps then 0 else Suc (streak g)
          else streak g)"

definition scavenger_poll ::
  "apps option \<Rightarrow> int set \<Rightarrow> bool \<Rightarrow> nat \<Rightarrow> (nat \<Rightarrow> slot_obs) \<Rightarrow> slot list \<times> (int \<Rightarrow> nat) \<Rightarrow>
   (slot list \<times> (int \<Rightarrow> nat)) \<times> ckpt_action list list" where
  "scavenger_poll apps ours ckpt need obs st =
     (case apps of
        None \<Rightarrow> (st, [])
      | Some as \<Rightarrow>
          (case st of (slots, streak) \<Rightarrow>
             let streak1 = next_streak as ours slots streak;
                 env = \<lparr>pe_apps = as, pe_ours = ours, pe_ckpt_bin = ckpt, pe_streak = streak1, pe_need = need\<rparr>;
                 rs = map (\<lambda>s. poll_slot env (obs (sl_worker s)) s) slots
             in ((map fst rs, streak1), map snd rs)))"

section \<open>Driver commands\<close>



section \<open>Scavenger and worker together\<close>

text \<open>
  Where the worker of a slot is with respect to the park word (\<open>workers._maybe_park\<close>): between
  items, inside \<open>on_park\<close>, or waiting for the word to leave 2. A poll in which the worker is asked
  includes what the worker does meanwhile: it acknowledges, it refuses, or the parent's patience
  ends with the worker not having noticed or still inside \<open>on_park\<close>; in the last case its answer
  comes later. A worker that is seen dead, or respawned, starts between items.
\<close>

datatype wmode = Idle | InHook | Waiting

inductive scav_step :: "bool \<Rightarrow> slot \<times> wmode \<Rightarrow> slot \<times> wmode \<Rightarrow> bool" for timeouts where
  poll_quiet: "\<not> asks_to_park env ob s \<Longrightarrow> so_pid ob \<noteq> None \<Longrightarrow>
     scav_step timeouts (s, w) (fst (poll_slot env ob s), w)"
| poll_dead: "so_pid ob = None \<Longrightarrow> scav_step timeouts (s, w) (fst (poll_slot env ob s), Idle)"
| poll_ack: "asks_to_park env ob s \<Longrightarrow> so_ack ob = Acked \<Longrightarrow>
     scav_step timeouts (s, w) (fst (poll_slot env ob s), Waiting)"
| poll_refuse: "asks_to_park env ob s \<Longrightarrow> so_ack ob = Refused \<Longrightarrow>
     scav_step timeouts (s, w) (fst (poll_slot env ob s), Idle)"
| poll_timeout: "timeouts \<Longrightarrow> asks_to_park env ob s \<Longrightarrow> so_ack ob = TimedOut \<Longrightarrow> w' \<in> {Idle, InHook} \<Longrightarrow>
     scav_step timeouts (s, w) (fst (poll_slot env ob s), w')"
| late_ack: "scav_step timeouts (s, InHook) (s\<lparr>sl_park := Some 2\<rparr>, Waiting)"
| late_refuse: "scav_step timeouts (s, InHook) (s\<lparr>sl_park := Some 3\<rparr>, Idle)"
| resume: "sl_park s \<noteq> Some 2 \<Longrightarrow> scav_step timeouts (s, Waiting) (s, Idle)"
| respawn: "scav_step timeouts (s, w) (s, Idle)"

inductive scav_reach :: "bool \<Rightarrow> slot \<times> wmode \<Rightarrow> bool" for timeouts where
  init: "\<not> sl_parked s \<Longrightarrow> \<not> sl_frozen s \<Longrightarrow> sl_park s \<in> {None, Some 0} \<Longrightarrow> scav_reach timeouts (s, Idle)"
| step: "scav_reach timeouts c \<Longrightarrow> scav_step timeouts c c' \<Longrightarrow> scav_reach timeouts c'"

definition scav_inv :: "slot \<times> wmode \<Rightarrow> bool" where
  "scav_inv c = (case c of (s, w) \<Rightarrow>
     w \<noteq> InHook \<and> \<not> (sl_parked s \<and> sl_frozen s) \<and> (sl_parked s \<longrightarrow> sl_park s = Some 2)
     \<and> (w = Waiting \<longrightarrow> sl_park s = Some 2 \<longrightarrow> sl_parked s \<or> sl_frozen s))"

lemmas poll_defs = poll_slot_def claim_slot_def release_slot_def checkpoint_slot_def keep_acked_park_def park_worker_def

text \<open>The checkpoint path leaves a slot whose park word is 2 tracked, if there is memory to account for.\<close>

lemma checkpoint_slot_tracks:
  assumes "\<not> sl_parked s" and "\<not> sl_frozen s"
  shows "let s' = fst (checkpoint_slot env ob pid used s) in
    sl_park s' = sl_park s \<and> \<not> (sl_parked s' \<and> sl_frozen s') \<and> (sl_parked s' \<longrightarrow> sl_park s' = Some 2)
    \<and> (used \<noteq> None \<longrightarrow> sl_park s = Some 2 \<longrightarrow> sl_parked s' \<or> sl_frozen s')"
  using assms
  by (auto simp: checkpoint_slot_def keep_acked_park_def Let_def freeze_worker_def split: option.splits prod.splits bool.splits if_splits)

lemma asked_slot_tracks:
  assumes "asks_to_park env ob s"
  shows "let s' = fst (poll_slot env ob s) in
    sl_park s' = (if so_ack ob = Acked then Some 2 else Some 0) \<and> \<not> (sl_parked s' \<and> sl_frozen s')
    \<and> (sl_parked s' \<longrightarrow> sl_park s' = Some 2) \<and> (sl_park s' = Some 2 \<longrightarrow> sl_parked s' \<or> sl_frozen s')"
proof -
  from assms obtain pid where a: "so_pid ob = Some pid" "is_foreign env (sl_physical s)" "\<not> sl_frozen s" "\<not> sl_parked s"
     "sl_supports_park s" "used_by_pid (pe_apps env) pid \<noteq> None" by (auto simp: asks_to_park_def)
  obtain s1 ok where p: "park_worker ob (s\<lparr>sl_hold := True\<rparr>) = (s1, ok)" by force
  then have s1: "\<not> sl_parked s1" "\<not> sl_frozen s1" "sl_park s1 = (if so_ack ob = Acked then Some 2 else Some 0)"
      "ok \<Longrightarrow> so_ack ob = Acked"
    using a by (auto simp: park_worker_def split: park_ack.splits)
  let ?used = "case so_fresh ob of None \<Rightarrow> used_by_pid (pe_apps env) pid | Some f \<Rightarrow> Some f"
  have "?used \<noteq> None" using a by (auto split: option.splits)
  with checkpoint_slot_tracks [OF s1(1,2), of env ob pid ?used] show ?thesis
    using a p s1 by (cases ok) (auto simp: poll_slot_def claim_slot_def Let_def)
qed

lemma unasked_slot_tracks:
  assumes "\<not> asks_to_park env ob s" and "so_pid ob = Some pid"
    and "\<not> (sl_parked s \<and> sl_frozen s)" and "sl_parked s \<longrightarrow> sl_park s = Some 2"
    and "w = Waiting \<longrightarrow> sl_park s = Some 2 \<longrightarrow> sl_parked s \<or> sl_frozen s"
  shows "let s' = fst (poll_slot env ob s) in
    \<not> (sl_parked s' \<and> sl_frozen s') \<and> (sl_parked s' \<longrightarrow> sl_park s' = Some 2)
    \<and> (w = Waiting \<longrightarrow> sl_park s' = Some 2 \<longrightarrow> sl_parked s' \<or> sl_frozen s')"
proof (cases "is_foreign env (sl_physical s)")
  case False
  with assms show ?thesis
    by (auto simp: poll_slot_def release_slot_def Let_def split: prod.splits bool.splits)
next
  case True
  show ?thesis
  proof (cases "sl_frozen s \<or> sl_parked s")
    case True
    with assms \<open>is_foreign env (sl_physical s)\<close> show ?thesis by (simp add: poll_slot_def claim_slot_def)
  next
    case False
    then have "poll_slot env ob s = checkpoint_slot env ob pid (used_by_pid (pe_apps env) pid) s"
      using assms(1,2) \<open>is_foreign env (sl_physical s)\<close>
      by (auto simp: poll_slot_def claim_slot_def asks_to_park_def Let_def)
    with checkpoint_slot_tracks [of s env ob pid "used_by_pid (pe_apps env) pid"] False assms(5) show ?thesis
      by (auto simp: Let_def)
  qed
qed

lemma scav_inv_step: "scav_step False c c' \<Longrightarrow> scav_inv c \<Longrightarrow> scav_inv c'"
proof (induction rule: scav_step.induct)
  case (poll_quiet env ob s w)
  then obtain pid where "so_pid ob = Some pid" by blast
  with unasked_slot_tracks [OF poll_quiet(1), of pid w] poll_quiet(3) show ?case
    by (auto simp: scav_inv_def Let_def)
next
  case (poll_dead ob s w env)
  then show ?case by (simp add: scav_inv_def poll_slot_def)
next
  case (poll_ack env ob s w)
  with asked_slot_tracks [OF poll_ack(1)] show ?case by (auto simp: scav_inv_def Let_def)
next
  case (poll_refuse env ob s w)
  with asked_slot_tracks [OF poll_refuse(1)] show ?case by (auto simp: scav_inv_def Let_def)
qed (auto simp: scav_inv_def)

lemma scav_reach_inv: "scav_reach False c \<Longrightarrow> scav_inv c"
proof (induction rule: scav_reach.induct)
  case (init s)
  then show ?case by (simp add: scav_inv_def)
next
  case (step c c')
  then show ?case using scav_inv_step by blast
qed

text \<open>
  C22: the scavenger never loses a waiting worker. In every run in which no park request times out,
  a slot is never both parked and frozen, and a worker that waits for its GPU with the park word at
  2 is tracked as one of the two; when the GPU has been free long enough, the next poll of a parked
  slot, and of a frozen one whose restore succeeds, clears the park word and the hold, so the worker
  resumes.
\<close>

theorem scavenger_no_stranding:
  assumes "scav_reach False (s, w)" and "so_pid ob = Some pid" and "\<not> is_foreign env (sl_physical s)"
    and "pe_need env \<le> pe_streak env (sl_physical s)"
  shows "\<not> (sl_parked s \<and> sl_frozen s)
    \<and> (w = Waiting \<and> sl_park s = Some 2 \<longrightarrow> sl_parked s \<or> sl_frozen s)
    \<and> (sl_parked s \<or> sl_frozen s \<and> snd (thaw_worker ob (sl_frozen_mib s)) \<longrightarrow>
         sl_park (fst (poll_slot env ob s)) \<noteq> Some 2 \<and> \<not> sl_hold (fst (poll_slot env ob s))
         \<and> \<not> sl_parked (fst (poll_slot env ob s)) \<and> \<not> sl_frozen (fst (poll_slot env ob s)))"
proof -
  have "scav_inv (s, w)" using scav_reach_inv [OF assms(1)] .
  then show ?thesis
    using assms(2-4) by (auto simp: scav_inv_def poll_slot_def release_slot_def split: prod.splits bool.splits)
qed

definition sample_slot :: slot where
  "sample_slot = \<lparr>sl_worker = 0, sl_physical = 3, sl_hold = False, sl_park = Some 0, sl_supports_park = True, sl_ipc = False,
     sl_parked = False, sl_frozen = False, sl_frozen_mib = 0, sl_hazard_logged = False\<rparr>"

definition sample_sobs :: slot_obs where
  "sample_sobs = \<lparr>so_pid = Some 7, so_ack = Acked, so_still = Some 100, so_fresh = None, so_job_file = False, so_avail = None,
     so_lock_ok = True, so_checkpoint_ok = True, so_free = None, so_restore_ok = True, so_unlock_ok = True\<rparr>"

definition claimed_env :: poll_env where
  "claimed_env = \<lparr>pe_apps = [(3, 7, 900), (3, 99, 500)], pe_ours = {1, 7}, pe_ckpt_bin = False, pe_streak = (\<lambda>_. 0), pe_need = 2\<rparr>"

definition free_env :: poll_env where
  "free_env = \<lparr>pe_apps = [], pe_ours = {1, 7}, pe_ckpt_bin = False, pe_streak = (\<lambda>_. 2), pe_need = 2\<rparr>"

lemmas sample_scav = sample_slot_def sample_sobs_def claimed_env_def free_env_def is_foreign_def used_by_pid_def
  asks_to_park_def PARK_RESIDUAL_MIB_def

theorem scavenger_no_stranding_witness:
  "scav_reach False (fst (poll_slot claimed_env sample_sobs sample_slot), Waiting)
   \<and> sl_parked (fst (poll_slot claimed_env sample_sobs sample_slot))
   \<and> sl_park (fst (poll_slot free_env sample_sobs (fst (poll_slot claimed_env sample_sobs sample_slot)))) \<noteq> Some 2"
proof -
  have "scav_reach False (sample_slot, Idle)" by (rule scav_reach.init) (simp_all add: sample_slot_def)
  moreover have "scav_step False (sample_slot, Idle) (fst (poll_slot claimed_env sample_sobs sample_slot), Waiting)"
    by (rule scav_step.poll_ack) (simp_all add: sample_scav)
  ultimately have r: "scav_reach False (fst (poll_slot claimed_env sample_sobs sample_slot), Waiting)"
    by (rule scav_reach.step)
  have p: "sl_parked (fst (poll_slot claimed_env sample_sobs sample_slot))"
    and g: "\<not> is_foreign free_env (sl_physical (fst (poll_slot claimed_env sample_sobs sample_slot)))"
      "pe_need free_env \<le> pe_streak free_env (sl_physical (fst (poll_slot claimed_env sample_sobs sample_slot)))"
      "so_pid sample_sobs = Some 7"
    by (simp_all add: poll_slot_def claim_slot_def park_worker_def sample_scav)
  from scavenger_no_stranding [OF r g(3) g(1,2)] r p show ?thesis by blast
qed

section \<open>An acknowledgement after the timeout\<close>

text \<open>
  An acknowledgement that comes after the parent gave up strands the worker. There is a run
  (the request times out while the worker is inside \<open>on_park\<close>, no checkpoint is possible, the
  worker then acknowledges) to a state in which the worker waits with the park word at 2 and the slot
  is neither parked nor frozen; and from then on no poll that finds the GPU free clears the park word,
  so the worker stays parked although its GPU is free.
\<close>

theorem late_ack_strands:
  "\<exists>s. scav_reach True (s, Waiting) \<and> sl_park s = Some 2 \<and> \<not> sl_parked s \<and> \<not> sl_frozen s
     \<and> (\<forall>polls. (\<forall>(env, ob) \<in> set polls. \<not> is_foreign env (sl_physical s)) \<longrightarrow>
          (let s' = fold (\<lambda>(env, ob) t. fst (poll_slot env ob t)) polls s
           in sl_park s' = Some 2 \<and> \<not> sl_parked s' \<and> \<not> sl_frozen s'))"
proof -
  let ?ob = "sample_sobs\<lparr>so_ack := TimedOut\<rparr>"
  define s where "s = fst (poll_slot claimed_env ?ob sample_slot)\<lparr>sl_park := Some 2\<rparr>"
  have "scav_reach True (sample_slot, Idle)" by (rule scav_reach.init) (simp_all add: sample_slot_def)
  moreover have "scav_step True (sample_slot, Idle) (fst (poll_slot claimed_env ?ob sample_slot), InHook)"
    by (rule scav_step.poll_timeout) (simp_all add: sample_scav)
  ultimately have "scav_reach True (fst (poll_slot claimed_env ?ob sample_slot), InHook)" by (rule scav_reach.step)
  then have r: "scav_reach True (s, Waiting)" unfolding s_def by (rule scav_reach.step) (rule scav_step.late_ack)
  have s: "sl_park s = Some 2" "\<not> sl_parked s" "\<not> sl_frozen s"
    by (simp_all add: s_def poll_defs checkpoint_hazard_def sample_scav)
  have one: "let s' = fst (poll_slot env ob t) in
      sl_park s' = Some 2 \<and> \<not> sl_parked s' \<and> \<not> sl_frozen s' \<and> sl_physical s' = sl_physical t"
    if "sl_park t = Some 2" "\<not> sl_parked t" "\<not> sl_frozen t" "\<not> is_foreign env (sl_physical t)" for t env ob
    using that by (auto simp: poll_slot_def release_slot_def Let_def split: option.splits)
  have "sl_park t = Some 2 \<Longrightarrow> \<not> sl_parked t \<Longrightarrow> \<not> sl_frozen t \<Longrightarrow> sl_physical t = sl_physical s \<Longrightarrow>
      \<forall>(env, ob) \<in> set polls. \<not> is_foreign env (sl_physical s) \<Longrightarrow>
      (let s' = fold (\<lambda>(env, ob) t. fst (poll_slot env ob t)) polls t
       in sl_park s' = Some 2 \<and> \<not> sl_parked s' \<and> \<not> sl_frozen s')" for polls t
  proof (induction polls arbitrary: t)
    case (Cons a polls)
    obtain env ob where a: "a = (env, ob)" by force
    from one [of t env ob] Cons.prems a Cons.IH [of "fst (poll_slot env ob t)"] show ?case
      by (auto simp: Let_def)
  qed simp
  with r s show ?thesis by blast
qed

theorem late_ack_strands_witness:
  "\<exists>s. \<not> is_foreign free_env (sl_physical s) \<and> scav_reach True (s, Waiting)
     \<and> sl_park (fst (poll_slot free_env sample_sobs s)) = Some 2"
proof -
  obtain s where s: "scav_reach True (s, Waiting)"
    "\<forall>polls. (\<forall>(env, ob) \<in> set polls. \<not> is_foreign env (sl_physical s)) \<longrightarrow>
          (let s' = fold (\<lambda>(env, ob) t. fst (poll_slot env ob t)) polls s
           in sl_park s' = Some 2 \<and> \<not> sl_parked s' \<and> \<not> sl_frozen s')"
    using late_ack_strands by blast
  have f: "\<not> is_foreign free_env (sl_physical s)" by (simp add: free_env_def is_foreign_def)
  from s(2) [rule_format, of "[(free_env, sample_sobs)]"] f s(1) show ?thesis by (auto simp: Let_def)
qed

end
