(* ===== verification/Pipe_Probe.thy ===== *)
theory Pipe_Probe
  imports Pipe_Scavenge
begin

text \<open>
  What the scavenger asks the machine (\<^verbatim>\<open>src/pipe/scavenge.py\<close>): the checkpoint program, the commands it
  runs, the GPU table, free device memory, free host memory, the environment of a process. Commands,
  files, the splitting of texts and the parser of numbers are arguments. \<open>None\<close> means unknown. Nothing
  in the scavenger's thread catches an exception, so a probe that raises ends it.
\<close>

section \<open>Commands\<close>

text \<open>\<open>_run\<close> never raises: a timeout or any other failure is the status -1 with a message.\<close>

datatype command = Completed int string string | Expired string | Failed_to_run string

definition run_command :: "command \<Rightarrow> int \<times> string" where
  "run_command c =
     (case c of
        Completed rc out err \<Rightarrow> (rc, strip (out @ err))
      | Expired msg \<Rightarrow> (-1, msg)
      | Failed_to_run msg \<Rightarrow> (-1, msg))"

definition nvidia_smi_csv :: "(string \<Rightarrow> string list) \<Rightarrow> command \<Rightarrow> string list list option" where
  "nvidia_smi_csv splitlines c = (case run_command c of (rc, out) \<Rightarrow> if rc \<noteq> 0 then None else Some (csv_rows (splitlines out)))"

text \<open>\<open>_find_cuda_checkpoint\<close>: the program the user names, two fixed places, the search path.\<close>

definition find_cuda_checkpoint :: "string option \<Rightarrow> (string \<Rightarrow> bool) \<Rightarrow> string \<Rightarrow> string option \<Rightarrow> string option" where
  "find_cuda_checkpoint env executable home which =
     (if (case env of Some p \<Rightarrow> p \<noteq> [] \<and> executable p | None \<Rightarrow> False) then env
      else case find executable [''/usr/local/bin/cuda-checkpoint'', home @ ''/.local/bin/cuda-checkpoint''] of
        Some cand \<Rightarrow> Some cand
      | None \<Rightarrow> which)"

section \<open>GPUs\<close>

text \<open>
  \<open>_uuid_to_index\<close>: the table is built once and kept; a query that fails is asked again next time. A row of
  another length or an index that is no number raises. Python's dictionary keeps the last of equal keys.
\<close>

fun index_rows :: "(string \<Rightarrow> int option) \<Rightarrow> string list list \<Rightarrow> (string \<rightharpoonup> int) \<Rightarrow> exn + (string \<rightharpoonup> int)" where
  "index_rows to_int [] m = Inr m"
| "index_rows to_int (row # rows) m =
     (case row of
        [idx, uuid] \<Rightarrow> (case to_int idx of Some i \<Rightarrow> index_rows to_int rows (m(uuid \<mapsto> i)) | None \<Rightarrow> Inl ValueE)
      | _ \<Rightarrow> Inl ValueE)"

definition uuid_to_index ::
  "(string \<Rightarrow> int option) \<Rightarrow> string list list option \<Rightarrow> (string \<rightharpoonup> int) option \<Rightarrow> (string \<rightharpoonup> int) option \<times> (exn + (string \<rightharpoonup> int) option)" where
  "uuid_to_index to_int rows cache =
     (case cache of
        Some m \<Rightarrow> (cache, Inr (Some m))
      | None \<Rightarrow>
          (case rows of
             None \<Rightarrow> (None, Inr None)
           | Some rs \<Rightarrow> (case index_rows to_int rs Map.empty of Inl e \<Rightarrow> (None, Inl e) | Inr m \<Rightarrow> (Some m, Inr (Some m)))))"

text \<open>\<open>_gpu_free_mib\<close>: the row of the GPU, in MiB.\<close>

fun free_row :: "(string \<Rightarrow> int option) \<Rightarrow> int \<Rightarrow> string list list \<Rightarrow> exn + int option" where
  "free_row to_int g [] = Inr None"
| "free_row to_int g (row # rows) =
     (case row of
        [idx, free] \<Rightarrow>
          (case to_int idx of
             None \<Rightarrow> Inl ValueE
           | Some i \<Rightarrow>
               if i = g then (case to_int free of Some f \<Rightarrow> Inr (Some f) | None \<Rightarrow> Inl ValueE) else free_row to_int g rows)
      | _ \<Rightarrow> Inl ValueE)"

definition gpu_free_mib :: "(string \<Rightarrow> int option) \<Rightarrow> string list list option \<Rightarrow> int \<Rightarrow> exn + int option" where
  "gpu_free_mib to_int rows g = (case rows of None \<Rightarrow> Inr None | Some rs \<Rightarrow> free_row to_int g rs)"

section \<open>The host\<close>

text \<open>\<open>_host_available_mib\<close>: the second word of the line \<open>MemAvailable:\<close>, from KiB; only an \<open>OSError\<close> is caught.\<close>

fun available_line :: "(string \<Rightarrow> int option) \<Rightarrow> (string \<Rightarrow> string list) \<Rightarrow> string list \<Rightarrow> exn + int option" where
  "available_line to_int words [] = Inr None"
| "available_line to_int words (l # ls) =
     (if take 13 l = ''MemAvailable:'' then
        (if length (words l) < 2 then Inl IndexE
         else case to_int (words l ! 1) of Some k \<Rightarrow> Inr (Some (k div 1024)) | None \<Rightarrow> Inl ValueE)
      else available_line to_int words ls)"

definition host_available_mib :: "(string \<Rightarrow> int option) \<Rightarrow> (string \<Rightarrow> string list) \<Rightarrow> string list option \<Rightarrow> exn + int option" where
  "host_available_mib to_int words meminfo = (case meminfo of None \<Rightarrow> Inr None | Some ls \<Rightarrow> available_line to_int words ls)"

text \<open>\<open>_has_checkpoint_job_file\<close>: the variable is searched in the environment as one text.\<close>

fun occurs_in :: "string \<Rightarrow> string \<Rightarrow> bool" where
  "occurs_in p [] = (p = [])"
| "occurs_in p (c # cs) = (is_prefix p (c # cs) \<or> occurs_in p cs)"

definition has_checkpoint_job_file :: "string option \<Rightarrow> bool" where
  "has_checkpoint_job_file environ = (case environ of None \<Rightarrow> False | Some s \<Rightarrow> occurs_in ''CUDA_CHECKPOINT_JOB_FILE='' s)"

section \<open>What the answers mean\<close>

lemma occurs_in_iff: "occurs_in p s \<longleftrightarrow> (\<exists>u v. s = u @ p @ v)"
proof (induction s)
  case (Cons c cs)
  have "is_prefix p (c # cs) \<longleftrightarrow> (\<exists>v. c # cs = p @ v)"
    unfolding is_prefix_def by (metis append_eq_conv_conj append_take_drop_id)
  moreover have "(\<exists>u v. c # cs = u @ p @ v) \<longleftrightarrow> (\<exists>v. c # cs = p @ v) \<or> (\<exists>u v. cs = u @ p @ v)"
    by (metis append_Cons append_Nil list.exhaust list.inject)
  ultimately show ?case using Cons by simp
qed auto

text \<open>The table, once known, is never asked for again.\<close>

lemma uuid_to_index_cached: "uuid_to_index to_int rows cache = (cache1, Inr (Some m)) \<Longrightarrow> uuid_to_index to_int rows1 cache1 = (cache1, Inr (Some m))"
  by (auto simp: uuid_to_index_def split: option.splits sum.splits)

lemma find_cuda_checkpoint_runs:
  "find_cuda_checkpoint env executable home which = Some p \<Longrightarrow> executable p \<or> which = Some p"
  by (auto simp: find_cuda_checkpoint_def find_Some_iff split: option.splits if_splits)

section \<open>Thawing with the probe\<close>

text \<open>\<open>_thaw_worker\<close> asks for the free memory only if it knows what the worker needs.\<close>

definition thaw_probed ::
  "(string \<Rightarrow> int option) \<Rightarrow> string list list option \<Rightarrow> slot_obs \<Rightarrow> slot \<Rightarrow> exn + ckpt_action list \<times> bool" where
  "thaw_probed to_int rows ob slot =
     (if sl_frozen_mib slot = 0 then Inr (thaw_worker (ob\<lparr>so_free := None\<rparr>) 0)
      else case gpu_free_mib to_int rows (sl_physical slot) of
        Inl e \<Rightarrow> Inl e
      | Inr free \<Rightarrow> Inr (thaw_worker (ob\<lparr>so_free := free\<rparr>) (sl_frozen_mib slot)))"

definition well_formed_rows :: "(string \<Rightarrow> int option) \<Rightarrow> string list list \<Rightarrow> bool" where
  "well_formed_rows to_int rows \<longleftrightarrow> (\<forall>row \<in> set rows. length row = 2 \<and> (\<forall>c \<in> set row. to_int c \<noteq> None))"

lemma free_row_well_formed:
  "well_formed_rows to_int rows \<Longrightarrow>
   free_row to_int g rows = Inr (map_option (\<lambda>row. the (to_int (row ! 1))) (find (\<lambda>row. to_int (row ! 0) = Some g) rows))"
proof (induction rows)
  case (Cons row rows)
  then obtain a b where "row = [a, b]" by (auto simp: well_formed_rows_def numeral_2_eq_2 length_Suc_conv)
  with Cons show ?case by (auto simp: well_formed_rows_def split: option.splits)
qed simp

text \<open>
  A restore is tried only with room for it, and a strange answer ends the scavenger: when \<open>nvidia-smi\<close>
  lists numbers, a frozen worker of known size is restored only if its GPU has the memory it needs and
  the margin; but when the GPU's row says something else (\<open>[N/A]\<close>, for one), the probe raises where the
  listing of processes skips such a row, and nothing in the thread catches it.
\<close>

theorem thaw_probe:
  assumes "sl_frozen_mib slot \<noteq> 0"
  shows "(well_formed_rows to_int rows \<longrightarrow> (\<exists>acts ok. thaw_probed to_int (Some rows) ob slot = Inr (acts, ok)
        \<and> (RestoreA \<in> set acts \<longrightarrow> (\<forall>row. find (\<lambda>row. to_int (row ! 0) = Some (sl_physical slot)) rows = Some row \<longrightarrow>
              sl_frozen_mib slot + RESTORE_MARGIN_MIB \<le> the (to_int (row ! 1))))))
    \<and> (to_int i = Some (sl_physical slot) \<and> to_int f = None \<longrightarrow>
         thaw_probed to_int (Some ([i, f] # rows)) ob slot = Inl ValueE
         \<and> gpu_compute_apps to_int (Some um) (Some ([u, p, f] # apps)) = gpu_compute_apps to_int (Some um) (Some apps))"
proof (intro conjI impI)
  assume w: "well_formed_rows to_int rows"
  let ?free = "map_option (\<lambda>row. the (to_int (row ! 1))) (find (\<lambda>row. to_int (row ! 0) = Some (sl_physical slot)) rows)"
  have t: "thaw_probed to_int (Some rows) ob slot = Inr (thaw_worker (ob\<lparr>so_free := ?free\<rparr>) (sl_frozen_mib slot))"
    using assms free_row_well_formed [OF w] by (simp add: thaw_probed_def gpu_free_mib_def)
  obtain acts ok where a: "thaw_worker (ob\<lparr>so_free := ?free\<rparr>) (sl_frozen_mib slot) = (acts, ok)" by fastforce
  have "sl_frozen_mib slot + RESTORE_MARGIN_MIB \<le> the (to_int (row ! 1))"
    if "RestoreA \<in> set acts" "find (\<lambda>row. to_int (row ! 0) = Some (sl_physical slot)) rows = Some row" for row
    using a that assms by (auto simp: thaw_worker_def split: if_splits)
  with t a show "\<exists>acts ok. thaw_probed to_int (Some rows) ob slot = Inr (acts, ok)
        \<and> (RestoreA \<in> set acts \<longrightarrow> (\<forall>row. find (\<lambda>row. to_int (row ! 0) = Some (sl_physical slot)) rows = Some row \<longrightarrow>
              sl_frozen_mib slot + RESTORE_MARGIN_MIB \<le> the (to_int (row ! 1))))" by (intro exI [of _ acts] exI [of _ ok]) simp
next
  assume "to_int i = Some (sl_physical slot) \<and> to_int f = None"
  then show "thaw_probed to_int (Some ([i, f] # rows)) ob slot = Inl ValueE"
    and "gpu_compute_apps to_int (Some um) (Some ([u, p, f] # apps)) = gpu_compute_apps to_int (Some um) (Some apps)"
    using assms by (simp_all add: thaw_probed_def gpu_free_mib_def gpu_compute_apps_def List.map_filter_simps split: option.splits)
qed

theorem thaw_probe_witness:
  "thaw_probed (\<lambda>s. if s = ''0'' then Some 0 else if s = ''9000'' then Some 9000 else None) (Some [[''0'', ''9000'']])
      \<lparr>so_pid = Some 7, so_ack = Acked, so_still = None, so_fresh = None, so_job_file = False, so_avail = None, so_lock_ok = True,
       so_checkpoint_ok = True, so_free = None, so_restore_ok = True, so_unlock_ok = True\<rparr>
      \<lparr>sl_worker = 1, sl_physical = 0, sl_hold = False, sl_park = None, sl_supports_park = False, sl_ipc = False, sl_parked = False,
       sl_frozen = True, sl_frozen_mib = 8000, sl_hazard_logged = False\<rparr> = Inr ([RestoreA, UnlockA], True)
   \<and> thaw_probed (\<lambda>s. if s = ''0'' then Some 0 else if s = ''9000'' then Some 9000 else None) (Some [[''0'', ''[N/A]'']])
      \<lparr>so_pid = Some 7, so_ack = Acked, so_still = None, so_fresh = None, so_job_file = False, so_avail = None, so_lock_ok = True,
       so_checkpoint_ok = True, so_free = None, so_restore_ok = True, so_unlock_ok = True\<rparr>
      \<lparr>sl_worker = 1, sl_physical = 0, sl_hold = False, sl_park = None, sl_supports_park = False, sl_ipc = False, sl_parked = False,
       sl_frozen = True, sl_frozen_mib = 8000, sl_hazard_logged = False\<rparr> = Inl ValueE"
proof -
  let ?n = "\<lambda>s. if s = ''0'' then Some 0 else if s = ''9000'' then Some (9000 :: int) else None"
  let ?ob = "\<lparr>so_pid = Some 7, so_ack = Acked, so_still = None, so_fresh = None, so_job_file = False, so_avail = None, so_lock_ok = True,
       so_checkpoint_ok = True, so_free = None, so_restore_ok = True, so_unlock_ok = True\<rparr>"
  let ?s = "\<lparr>sl_worker = 1, sl_physical = 0, sl_hold = False, sl_park = None, sl_supports_park = False, sl_ipc = False, sl_parked = False,
       sl_frozen = True, sl_frozen_mib = 8000, sl_hazard_logged = False\<rparr>"
  have z: "sl_frozen_mib ?s \<noteq> 0" by simp
  have "thaw_probed ?n (Some [[''0'', ''[N/A]'']]) ?ob ?s = Inl ValueE"
    using thaw_probe [OF z, of ?n "[]" ?ob "''0''" "''[N/A]''"] by simp
  then show ?thesis by (simp add: thaw_probed_def gpu_free_mib_def thaw_worker_def RESTORE_MARGIN_MIB_def)
qed

end
