(* ===== verification/Pipe_Pool.thy ===== *)
theory Pipe_Pool
  imports Pipe_Loop
begin

text \<open>
  Stages with a \<open>run()\<close> of their own: the \<open>pull\<close> that \<open>_worker_run\<close> (\<^verbatim>\<open>src/pipe/workers.py\<close>)
  gives them, and \<open>AsyncPoolWorker\<close> of \<^verbatim>\<open>src/pipe/utils.py\<close>, which keeps a bounded number of tasks
  in flight. What is shown: \<open>pull\<close> hands over the input in order, ends once upstream is done, and
  returns nothing only when told to stop or when upstream is done; the pool never exceeds its bound,
  processes each pulled item once, and has put all results when it ends.
\<close>

section \<open>Pulling items\<close>

text \<open>
  A round of the loop sees \<open>should_stop\<close> and \<open>upstream_done\<close>. The result is \<open>None\<close> while the loop
  goes on. Before an empty result after the loop, an old partial chunk of the output is flushed.
\<close>

definition pull_end :: "real \<Rightarrow> exn option \<Rightarrow> 'a val list \<Rightarrow> 'a wstate \<Rightarrow> 'a wstate \<times> (exn + 'a val list) option" where
  "pull_end now flush_exn items s =
     (case ws_port s of
        Some p \<Rightarrow>
          if items = [] then
            (case port_maybe_flush now flush_exn p of
               (p', None) \<Rightarrow> (s\<lparr>ws_port := Some p'\<rparr>, Some (Inr items))
             | (p', Some e) \<Rightarrow> (s\<lparr>ws_port := Some p'\<rparr>, Some (Inl e)))
          else (s, Some (Inr items))
      | None \<Rightarrow> (s, Some (Inr items)))"

fun pull ::
  "real \<Rightarrow> exn option \<Rightarrow> int \<Rightarrow> (bool \<times> bool) list \<Rightarrow> 'a val list \<Rightarrow> 'a wstate \<Rightarrow> 'a wstate \<times> (exn + 'a val list) option" where
  "pull now fx n [] items s = (s, None)"
| "pull now fx n ((stop, upstream) # obs) items s =
     (if n \<le> int (length items) \<or> stop then pull_end now fx items s
      else case take_input s of
        (s1, Inl e) \<Rightarrow>
          (if e = EmptyE then
             if items \<noteq> [] then pull_end now fx items s1
             else if upstream then (s1, Some (Inr []))
             else pull now fx n obs items s1
           else (s1, Some (Inl e)))
      | (s1, Inr raw) \<Rightarrow>
          (if is_worker_stop raw then pull_end now fx items (s1\<lparr>ws_back := ws_back s1 @ [ItemM WorkerStopV]\<rparr>)
           else if is_end raw then pull now fx n obs items s1
           else pull now fx n obs (items @ [raw]) s1))"

lemma pull_end_ok:
  assumes "pull_end now None items s = (s', r)" and "has_port s"
  shows "r = Some (Inr items) \<and> pending_in s' = pending_in s \<and> (input_ok s \<longrightarrow> input_ok s') \<and> has_port s' \<and> out s' = out s"
proof -
  obtain p where p: "ws_port s = Some p" "port_ok p" using assms(2) by (auto simp: has_port_def)
  obtain p' e where m: "port_maybe_flush now None p = (p', e)" by force
  note M = port_maybe_flush_correct [OF p(2) m]
  from assms(1) p m M show ?thesis
    by (auto simp: pull_end_def has_port_def out_def input_ok_def pending_in_def split: if_splits)
qed

text \<open>What a pull has consumed when it returns, or when it is still polling.\<close>

definition pulled_ok :: "int \<Rightarrow> (bool \<times> bool) list \<Rightarrow> 'a val list \<Rightarrow> 'a wstate \<Rightarrow> 'a wstate \<Rightarrow> (exn + 'a val list) option \<Rightarrow> bool" where
  "pulled_ok n obs items s s' r \<longleftrightarrow> (\<exists>xs. pending_in s = xs @ pending_in s' \<and> input_ok s' \<and> has_port s' \<and> out s' = out s
     \<and> (case r of
          None \<Rightarrow> True
        | Some (Inl e) \<Rightarrow> False
        | Some (Inr ys) \<Rightarrow> ys = items @ filter (\<lambda>x. \<not> is_end x) xs \<and> int (length ys) \<le> max n (int (length items))
            \<and> (ys = [] \<and> 0 < n \<longrightarrow> (\<exists>ob \<in> set obs. fst ob \<or> snd ob))))"

lemma pulled_okI:
  assumes "pulled_ok n obs items' s1 s' r" and "pending_in s = ys @ pending_in s1" and "items' = items @ filter (\<lambda>x. \<not> is_end x) ys"
    and "out s1 = out s" and "int (length items') \<le> max n (int (length items))"
  shows "pulled_ok n (ob # obs) items s s' r"
proof -
  from assms(1) obtain xs where X: "pending_in s1 = xs @ pending_in s'" "input_ok s'" "has_port s'" "out s' = out s1"
    "case r of None \<Rightarrow> True | Some (Inl e) \<Rightarrow> False
     | Some (Inr ys) \<Rightarrow> ys = items' @ filter (\<lambda>x. \<not> is_end x) xs \<and> int (length ys) \<le> max n (int (length items'))
        \<and> (ys = [] \<and> 0 < n \<longrightarrow> (\<exists>ob \<in> set obs. fst ob \<or> snd ob))"
    unfolding pulled_ok_def by blast
  then show ?thesis
    unfolding pulled_ok_def using assms(2-5)
    by (intro exI [of _ "ys @ xs"]) (auto split: option.splits sum.splits)
qed

lemma take_input_same:
  assumes "take_input s = (s1, r)"
  shows "ws_port s1 = ws_port s"
  using assms by (auto simp: take_input_def split: prod.splits)

lemma pull_ok:
  assumes "input_ok s" and "has_port s" and "pull now None n obs items s = (s', r)"
  shows "pulled_ok n obs items s s' r"
  using assms
proof (induction obs arbitrary: items s)
  case Nil
  then show ?case by (auto simp: pulled_ok_def)
next
  case (Cons ob obs)
  obtain stop upstream where ob: "ob = (stop, upstream)" by force
  show ?case
  proof (cases "n \<le> int (length items) \<or> stop")
    case True
    with Cons.prems ob have "pull_end now None items s = (s', r)" by simp
    from pull_end_ok [OF this Cons.prems(2)] True ob Cons.prems show ?thesis by (auto simp: pulled_ok_def)
  next
    case False
    obtain s1 r1 where t: "take_input s = (s1, r1)" by force
    note T = take_input_ok [OF Cons.prems(1) t]
    then have s1: "input_ok s1" "has_port s1" "out s1 = out s" using Cons.prems(2) by (auto simp: has_port_def out_def)
    show ?thesis
    proof (cases r1)
      case (Inl e)
      with T have e: "e = EmptyE" "pending_in s1 = pending_in s" by auto
      consider "items \<noteq> []" | "items = []" upstream | "items = []" "\<not> upstream" by blast
      then show ?thesis
      proof cases
        case 1
        with Cons.prems ob False t Inl e have "pull_end now None items s1 = (s', r)" by simp
        from pull_end_ok [OF this s1(2)] 1 e s1 show ?thesis by (auto simp: pulled_ok_def)
      next
        case 2
        with Cons.prems ob False t Inl e have "s' = s1" "r = Some (Inr [])" by auto
        with 2 e s1 ob show ?thesis by (auto simp: pulled_ok_def)
      next
        case 3
        with Cons.prems ob False t Inl e have "pull now None n obs items s1 = (s', r)" by simp
        note IH = Cons.IH [OF s1(1,2) this]
        show ?thesis by (rule pulled_okI [OF IH, where ys = "[]"]) (use e s1(3) in auto)
      qed
    next
      case (Inr x)
      with T have x: "pending_in s = x # pending_in s1" "\<not> is_worker_stop x" by auto
      show ?thesis
      proof (cases "is_end x")
        case True
        with Cons.prems ob False t Inr x have "pull now None n obs items s1 = (s', r)" by simp
        note IH = Cons.IH [OF s1(1,2) this]
        show ?thesis by (rule pulled_okI [OF IH, where ys = "[x]"]) (use x True s1(3) in auto)
      next
        case ne: False
        with Cons.prems ob False t Inr x have "pull now None n obs (items @ [x]) s1 = (s', r)" by simp
        note IH = Cons.IH [OF s1(1,2) this]
        show ?thesis by (rule pulled_okI [OF IH, where ys = "[x]"]) (use x ne False s1(3) in auto)
      qed
    qed
  qed
qed

lemma take_input_shrinks:
  assumes "input_ok s" and "take_input s = (s1, Inr x)"
  shows "ahead s1 < ahead s"
  using take_input_ok [OF assms] take_input_ahead [OF assms] by (auto simp: ahead_def)

lemma pull_ends:
  assumes "input_ok s" and "has_port s" and "\<forall>ob \<in> set obs. snd ob" and "ahead s < length obs"
  shows "\<exists>s' ys. pull now None n obs items s = (s', Some (Inr ys))"
  using assms
proof (induction obs arbitrary: items s)
  case (Cons ob obs)
  obtain stop upstream where ob: "ob = (stop, upstream)" by force
  then have up: upstream using Cons.prems(3) by simp
  have e: "\<exists>s'. pull_end now None is t = (s', Some (Inr is))" if "has_port t" for "is" and t :: "'a wstate"
    using pull_end_ok [OF surjective_pairing that] by (metis surjective_pairing)
  obtain s1 r1 where t: "take_input s = (s1, r1)" by force
  note T = take_input_ok [OF Cons.prems(1) t]
  then have s1: "input_ok s1" "has_port s1" using Cons.prems(2) by (auto simp: has_port_def)
  show ?case
  proof (cases r1)
    case (Inl ex)
    with T have "ex = EmptyE" by auto
    then show ?thesis using ob up t Inl e [OF Cons.prems(2), of items] e [OF s1(2), of items] by auto
  next
    case (Inr x)
    with T have x: "\<not> is_worker_stop x" by auto
    have "ahead s1 < length obs" using take_input_shrinks [OF Cons.prems(1)] t Inr Cons.prems(4) by auto
    then have IH: "\<exists>s' ys. pull now None n obs is s1 = (s', Some (Inr ys))" for "is"
      using Cons.IH [OF s1] Cons.prems(3) by simp
    show ?thesis using ob t Inr x e [OF Cons.prems(2), of items] IH [of items] IH [of "items @ [x]"] by auto
  qed
qed simp

text \<open>
  \<open>pull(n)\<close> hands a stage its input in order: on a regular input it returns the next payloads, at
  most \<open>n\<close> of them, without the \<open>End\<close> sentinels, losing and repeating nothing and leaving the output
  untouched; it returns an empty list only when the worker is told to stop or upstream is done; and
  once upstream is done it returns after at most as many rounds as there is input ahead, plus one.
\<close>

theorem pull_stream:
  assumes "input_ok s" and "has_port s" and "0 < n"
  shows "(\<forall>s' ys. pull now None n obs [] s = (s', Some (Inr ys)) \<longrightarrow>
      (\<exists>xs. pending_in s = xs @ pending_in s' \<and> ys = filter (\<lambda>x. \<not> is_end x) xs) \<and> int (length ys) \<le> n \<and> out s' = out s
      \<and> (ys = [] \<longrightarrow> (\<exists>ob \<in> set obs. fst ob \<or> snd ob)))
    \<and> ((\<forall>ob \<in> set obs. snd ob) \<and> ahead s < length obs \<longrightarrow> (\<exists>s' ys. pull now None n obs [] s = (s', Some (Inr ys))))"
proof (intro conjI allI impI)
  fix s' ys assume "pull now None n obs [] s = (s', Some (Inr ys))"
  from pull_ok [OF assms(1,2) this] assms(3) show "\<exists>xs. pending_in s = xs @ pending_in s' \<and> ys = filter (\<lambda>x. \<not> is_end x) xs"
    "int (length ys) \<le> n" "out s' = out s" "ys = [] \<Longrightarrow> \<exists>ob \<in> set obs. fst ob \<or> snd ob"
    by (auto simp: pulled_ok_def)
next
  assume "(\<forall>ob \<in> set obs. snd ob) \<and> ahead s < length obs"
  then show "\<exists>s' ys. pull now None n obs [] s = (s', Some (Inr ys))" using pull_ends [OF assms(1,2)] by blast
qed

theorem pull_stream_witness:
  "\<exists>s' ys xs. pull 0 None 3 (replicate 10 (False, True)) [] sample_state = (s', Some (Inr ys))
     \<and> [Obj 1, Obj 2, Obj 3, EndV, Obj 4] = xs @ pending_in s' \<and> ys = filter (\<lambda>x. \<not> is_end x) xs \<and> length ys \<le> 3"
proof -
  have n: "0 < (3 :: int)" by simp
  note P = pull_stream [OF sample_run_ok(7,6) n, of 0 "replicate 10 (False, True)"]
  then obtain s' ys where "pull 0 None 3 (replicate 10 (False, True)) [] sample_state = (s', Some (Inr ys))"
    by (auto simp: sample_run_ok)
  with P show ?thesis by (auto simp: sample_run_ok)
qed

section \<open>The asynchronous pool\<close>

text \<open>
  \<open>_run_async\<close>: the items in flight, the size of the pull under way, whether a pull came back empty,
  and for the statements what was pulled, processed and put. \<open>pool_head\<close> is the head of the loop
  (starting a pull if there is room), a round then handles the tasks that are done: the pull, with
  the items it returned, or the task at a position of the list.
\<close>

record 'a pool =
  pl_in_flight :: "'a val list"
  pl_pull :: "nat option"
  pl_upstream_done :: bool
  pl_pulled :: "'a val list"
  pl_processed :: "'a val list"
  pl_put :: "'a val list"

definition pool_new :: "'a pool" where
  "pool_new = \<lparr>pl_in_flight = [], pl_pull = None, pl_upstream_done = False, pl_pulled = [], pl_processed = [], pl_put = []\<rparr>"

definition pool_head :: "nat \<Rightarrow> 'a pool \<Rightarrow> 'a pool" where
  "pool_head max_concurrent st =
     (let need = max_concurrent - length (pl_in_flight st) in
      if pl_pull st = None \<and> \<not> pl_upstream_done st \<and> 0 < need then st\<lparr>pl_pull := Some need\<rparr> else st)"

text \<open>What is put for the result of \<open>process()\<close>; an exception counts as \<open>None\<close>.\<close>

definition pool_results :: "exn + 'a val \<Rightarrow> 'a val list" where
  "pool_results res =
     (case res of
        Inl e \<Rightarrow> []
      | Inr (ListV rs) \<Rightarrow> filter (\<lambda>r. r \<noteq> NoneV) rs
      | Inr r \<Rightarrow> if r = NoneV then [] else [r])"

datatype 'a pool_event = PullDone "'a val list" | TaskDone nat

definition pool_handle :: "('a val \<Rightarrow> exn + 'a val) \<Rightarrow> 'a pool_event \<Rightarrow> 'a pool \<Rightarrow> 'a pool option" where
  "pool_handle process ev st =
     (case ev of
        PullDone items \<Rightarrow>
          (case pl_pull st of
             None \<Rightarrow> None
           | Some need \<Rightarrow>
               if need < length items then None
               else if items = [] then Some (st\<lparr>pl_pull := None, pl_upstream_done := True\<rparr>)
               else Some (st\<lparr>pl_pull := None, pl_in_flight := pl_in_flight st @ items, pl_pulled := pl_pulled st @ items\<rparr>))
      | TaskDone i \<Rightarrow>
          if length (pl_in_flight st) \<le> i then None
          else let item = pl_in_flight st ! i in
            Some (st\<lparr>pl_in_flight := take i (pl_in_flight st) @ drop (Suc i) (pl_in_flight st),
                     pl_processed := pl_processed st @ [item], pl_put := pl_put st @ pool_results (process item)\<rparr>))"

fun pool_round :: "('a val \<Rightarrow> exn + 'a val) \<Rightarrow> 'a pool_event list \<Rightarrow> 'a pool \<Rightarrow> 'a pool option" where
  "pool_round process [] st = Some st"
| "pool_round process (ev # evs) st =
     (case pool_handle process ev st of None \<Rightarrow> None | Some st1 \<Rightarrow> pool_round process evs st1)"

text \<open>
  The loop over the rounds; each one handles at least one task. The flag says whether the loop has
  ended (nothing to wait for); \<open>None\<close> means that the events are not possible ones.
\<close>

fun pool_run :: "nat \<Rightarrow> ('a val \<Rightarrow> exn + 'a val) \<Rightarrow> 'a pool_event list list \<Rightarrow> 'a pool \<Rightarrow> ('a pool \<times> bool) option" where
  "pool_run m process [] st = (let st1 = pool_head m st in Some (st1, pl_in_flight st1 = [] \<and> pl_pull st1 = None))"
| "pool_run m process (evs # rounds) st =
     (let st1 = pool_head m st in
      if pl_in_flight st1 = [] \<and> pl_pull st1 = None then Some (st1, True)
      else if evs = [] then None
      else case pool_round process evs st1 of None \<Rightarrow> None | Some st2 \<Rightarrow> pool_run m process rounds st2)"

definition pool_inv :: "nat \<Rightarrow> ('a val \<Rightarrow> exn + 'a val) \<Rightarrow> 'a pool \<Rightarrow> bool" where
  "pool_inv m process st \<longleftrightarrow>
     length (pl_in_flight st) + (case pl_pull st of None \<Rightarrow> 0 | Some need \<Rightarrow> need) \<le> m
     \<and> mset (pl_pulled st) = mset (pl_in_flight st) + mset (pl_processed st)
     \<and> pl_put st = concat (map (\<lambda>x. pool_results (process x)) (pl_processed st))"

lemma pool_new_inv: "pool_inv m process pool_new"
  by (simp add: pool_inv_def pool_new_def)

lemma pool_head_inv: "pool_inv m process st \<Longrightarrow> pool_inv m process (pool_head m st)"
  by (auto simp: pool_inv_def pool_head_def Let_def)

lemma mset_take_drop:
  "i < length xs \<Longrightarrow> mset xs = add_mset (xs ! i) (mset (take i xs) + mset (drop (Suc i) xs))"
  by (metis id_take_nth_drop mset.simps(2) mset_append union_mset_add_mset_right)

lemma pool_handle_inv:
  assumes "pool_inv m process st" and "pool_handle process ev st = Some st1"
  shows "pool_inv m process st1"
proof (cases ev)
  case (PullDone items)
  with assms show ?thesis
    by (auto simp: pool_inv_def pool_handle_def split: option.splits if_splits)
next
  case (TaskDone i)
  with assms have i: "i < length (pl_in_flight st)" by (auto simp: pool_handle_def split: if_splits)
  show ?thesis
    using assms TaskDone mset_take_drop [OF i] i
    by (auto simp: pool_inv_def pool_handle_def Let_def split: if_splits)
qed

lemma pool_round_inv:
  "pool_inv m process st \<Longrightarrow> pool_round process evs st = Some st1 \<Longrightarrow> pool_inv m process st1"
  by (induction evs arbitrary: st) (auto split: option.splits dest: pool_handle_inv)

lemma pool_run_inv:
  assumes "pool_inv m process st" and "pool_run m process rounds st = Some (st1, fin)"
  shows "pool_inv m process st1 \<and> (fin \<longrightarrow> pl_in_flight st1 = [] \<and> (pl_upstream_done st1 \<or> m = 0))"
  using assms
proof (induction rounds arbitrary: st)
  case Nil
  then show ?case using pool_head_inv [OF Nil.prems(1)] by (auto simp: Let_def pool_head_def split: if_splits)
next
  case (Cons evs rounds)
  have h: "pool_inv m process (pool_head m st)" using Cons.prems(1) by (rule pool_head_inv)
  show ?case
  proof (cases "pl_in_flight (pool_head m st) = [] \<and> pl_pull (pool_head m st) = None")
    case True
    with Cons.prems h show ?thesis by (auto simp: Let_def pool_head_def split: if_splits)
  next
    case False
    with Cons.prems obtain st2 where "pool_round process evs (pool_head m st) = Some st2" "pool_run m process rounds st2 = Some (st1, fin)"
      by (auto simp: Let_def split: if_splits option.splits)
    with Cons.IH pool_round_inv [OF h] show ?thesis by blast
  qed
qed

text \<open>
  C29: the pool keeps its bound and loses nothing. In every run, however the tasks finish, at most
  \<open>max_concurrent\<close> items are in flight, every pulled item is in flight or was processed exactly once,
  and what was put is what the processed items gave, each as soon as it was done; when the loop ends,
  upstream was done and the results of everything pulled have been put.
\<close>

theorem pool_bounded_complete:
  assumes "pool_run m process rounds pool_new = Some (st, fin)"
  shows "length (pl_in_flight st) \<le> m
    \<and> mset (pl_pulled st) = mset (pl_in_flight st) + mset (pl_processed st)
    \<and> pl_put st = concat (map (\<lambda>x. pool_results (process x)) (pl_processed st))
    \<and> (fin \<and> 0 < m \<longrightarrow> pl_upstream_done st \<and> mset (pl_processed st) = mset (pl_pulled st))"
  using pool_run_inv [OF pool_new_inv assms] by (auto simp: pool_inv_def)

theorem pool_bounded_complete_witness:
  "\<exists>st. pool_run 2 (\<lambda>x. if x = Obj (2 :: nat) then Inl ValueE else Inr (ListV [x, NoneV]))
       [[PullDone [Obj 1, Obj 2]], [TaskDone 1], [PullDone [Obj 3], TaskDone 1], [TaskDone 0, PullDone []]] pool_new = Some (st, True)
     \<and> pl_put st = [Obj 3, Obj 1] \<and> mset (pl_processed st) = mset (pl_pulled st)"
proof -
  let ?p = "\<lambda>x. if x = Obj (2 :: nat) then Inl ValueE else Inr (ListV [x, NoneV])"
  let ?rounds = "[[PullDone [Obj 1, Obj 2]], [TaskDone 1], [PullDone [Obj 3], TaskDone 1], [TaskDone 0, PullDone []]]"
  have "\<exists>st. pool_run 2 ?p ?rounds pool_new = Some (st, True) \<and> pl_put st = [Obj 3, Obj 1]"
    by (simp add: pool_new_def pool_head_def pool_handle_def pool_results_def Let_def)
  with pool_bounded_complete [of 2 ?p ?rounds] show ?thesis by fastforce
qed

end
