(* ===== verification/Pipe_Shm_Setup.thy ===== *)
theory Pipe_Shm_Setup
  imports Pipe_Shm
begin

text \<open>
  Around the queue of an edge and the payload store: how large the rings and the store are made, the
  queue's surface (\<open>put_encoded\<close>, \<open>get\<close>, \<open>full\<close>), the warning of a full store, and the sweep that
  removes what pipelines of dead processes left behind (\<^verbatim>\<open>src/pipe/shmqueue.py\<close>,
  \<^verbatim>\<open>src/pipe/shmstore.py\<close>).
\<close>

section \<open>Sizes\<close>

text \<open>\<open>int(x)\<close> of a float truncates. The environment variables are given as numbers, if set.\<close>

definition py_int :: "real \<Rightarrow> int" where
  "py_int x = (if 0 \<le> x then \<lfloor>x\<rfloor> else \<lceil>x\<rceil>)"

definition ring_bytes :: "real option \<Rightarrow> int \<Rightarrow> int" where
  "ring_bytes mb maxsize =
     (case mb of
        Some m \<Rightarrow> py_int (m * 2 ^ 20)
      | None \<Rightarrow> if maxsize \<le> 0 then 2 ^ 23 else min (max (maxsize * 2 ^ 16) (2 ^ 20)) (2 ^ 24))"

definition edge_ring_bytes :: "real option \<Rightarrow> int option \<Rightarrow> int \<Rightarrow> int \<Rightarrow> int" where
  "edge_ring_bytes mb free maxsize n_edges =
     (let want = ring_bytes mb maxsize in
      case free of
        None \<Rightarrow> want
      | Some f \<Rightarrow> if mb \<noteq> None then want else max (2 ^ 16) (min want (f div 4 div max 1 n_edges)))"

definition default_limit :: "real option \<Rightarrow> int option \<Rightarrow> int" where
  "default_limit mb free =
     (case mb of
        Some m \<Rightarrow> py_int (m * 2 ^ 20)
      | None \<Rightarrow> (case free of None \<Rightarrow> 2 ^ 31 | Some f \<Rightarrow> min (f div 2) (2 ^ 34)))"

text \<open>\<open>PayloadStore\<close>: \<open>limit_bytes or _default_limit()\<close>, and segments an eighth of a small store.\<close>

definition payload_store_new :: "nat option \<Rightarrow> nat option \<Rightarrow> real option \<Rightarrow> int option \<Rightarrow> store" where
  "payload_store_new limit_bytes seg_bytes mb free =
     (let limit = (case limit_bytes of Some n \<Rightarrow> if n \<noteq> 0 then n else nat (default_limit mb free) | None \<Rightarrow> nat (default_limit mb free));
          seg = (case seg_bytes of Some n \<Rightarrow> if n \<noteq> 0 then n else min (2 ^ 26) (max (2 ^ 20) (limit div 8))
                 | None \<Rightarrow> min (2 ^ 26) (max (2 ^ 20) (limit div 8)))
      in store_new limit seg)"

text \<open>
  A ring has at least 64 KiB and, unless its size was set by hand, at most 16 MiB; with the free
  bytes of the shared memory known, the rings of all edges together take at most a quarter of them,
  as long as a quarter of them holds 64 KiB for every edge.
\<close>

theorem edge_rings_fit:
  assumes "edge_ring_bytes None (Some free) maxsize n = b" and "0 < n"
  shows "2 ^ 16 \<le> b \<and> b \<le> 2 ^ 24 \<and> (4 * (n * 2 ^ 16) \<le> free \<longrightarrow> n * b \<le> free div 4)"
proof -
  define share where "share = free div 4 div n"
  have b: "b = max (2 ^ 16) (min (ring_bytes None maxsize) share)"
    using assms by (simp add: edge_ring_bytes_def Let_def share_def)
  have want: "ring_bytes None maxsize \<le> 2 ^ 24" by (simp add: ring_bytes_def)
  have "n * b \<le> free div 4" if "4 * (n * 2 ^ 16) \<le> free"
  proof -
    have "n * 2 ^ 16 \<le> free div 4" using that by linarith
    then have "2 ^ 16 * n \<le> free div 4" by (simp only: mult.commute)
    then have "2 ^ 16 * n div n \<le> share" unfolding share_def using assms(2) by (rule zdiv_mono1)
    then have "2 ^ 16 \<le> share" using assms(2) by simp
    then have "b \<le> share" by (simp add: b)
    then have "n * b \<le> n * share" using assms(2) by (simp add: mult_left_mono)
    also have "\<dots> \<le> free div 4"
    proof -
      have "n * (free div 4 div n) + free div 4 mod n = free div 4" by simp
      moreover have "0 \<le> free div 4 mod n" using assms(2) by simp
      ultimately show ?thesis unfolding share_def by linarith
    qed
    finally show ?thesis .
  qed
  then show ?thesis using want by (simp add: b)
qed

theorem edge_rings_fit_witness: "3 * edge_ring_bytes None (Some (2 ^ 26)) 100 3 \<le> 2 ^ 24"
  using edge_rings_fit [of "2 ^ 26" 100 3] by simp


lemma round_up_less: "0 < a \<Longrightarrow> round_up n a < n + a"
proof -
  assume a: "0 < a"
  have "(n + a - 1) div a * a \<le> n + a - 1" by simp
  then show ?thesis unfolding round_up_def using a by linarith
qed

text \<open>
  A store of at least 1 MiB has room for a segment, so the first block of a size class is served;
  a smaller one never serves a block of a size class, whatever is freed.
\<close>

theorem small_store_serves:
  assumes "0 < limit" and "limit \<le> 2 ^ 40"
  shows "(2 ^ 20 \<le> limit \<longrightarrow> ps_seg_bytes (payload_store_new (Some limit) None mb free) \<le> limit \<and>
      (\<forall>n. BLK_HDR + n \<le> 2 ^ 18 \<longrightarrow> snd (alloc True n (payload_store_new (Some limit) None mb free)) \<noteq> None))
    \<and> (limit < 2 ^ 20 \<longrightarrow> (\<forall>n ok. BLK_HDR + n \<le> 2 ^ 18 \<longrightarrow>
          alloc ok n (payload_store_new (Some limit) None mb free) = (payload_store_new (Some limit) None mb free, None)))"
proof -
  define seg where "seg = round_up (min (2 ^ 26) (max (2 ^ 20) (limit div 8))) DEDICATED_ALIGN"
  define st where "st = payload_store_new (Some limit) None mb free"
  have "max (min (2 ^ 26) (max (2 ^ 20) (limit div 8))) (MIN_BLOCK * 16) = (min (2 ^ 26) (max (2 ^ 20) (limit div 8)) :: nat)"
    by (simp add: MIN_BLOCK_def)
  then have st: "ps_limit st = limit" "ps_seg_bytes st = seg" "ps_free st = (\<lambda>_. 0)" "ps_cur st = None" "ps_used st = 0"
    using assms(1) by (simp_all add: st_def payload_store_new_def Let_def store_new_def seg_def)
  have ge: "2 ^ 20 \<le> seg" using round_up_ge [of DEDICATED_ALIGN "min (2 ^ 26) (max (2 ^ 20) (limit div 8))"]
    by (simp add: seg_def DEDICATED_ALIGN_def)
  have fits: "seg \<le> limit" if "2 ^ 20 \<le> limit"
  proof (cases "limit div 8 \<le> 2 ^ 20")
    case True
    have "min (2 ^ 26) (max (2 ^ 20) (limit div 8)) = (2 ^ 20 :: nat)" using True by (simp add: max_absorb1)
    then have "seg = 2 ^ 20" by (simp add: seg_def round_up_def DEDICATED_ALIGN_def)
    then show ?thesis using that by simp
  next
    case False
    have "seg < limit div 8 + 2 ^ 16"
      using round_up_less [of DEDICATED_ALIGN "min (2 ^ 26) (max (2 ^ 20) (limit div 8))"] False
      by (simp add: seg_def DEDICATED_ALIGN_def)
    moreover have "8 * (limit div 8) \<le> limit" "(2 ^ 16 :: nat) \<le> 2 ^ 20" by simp_all
    ultimately show ?thesis using False by linarith
  qed
  have small: "\<not> max_class_block st < BLK_HDR + n" if "BLK_HDR + n \<le> 2 ^ 18" for n
    using that ge by (simp add: max_class_block_def st MAX_CLASS_BLOCK_def)
  have take: "take_block ok cls sz st = (if limit < seg then (st, None) else if \<not> ok then (st, None)
      else (st\<lparr>ps_nreg := Suc (ps_nreg st), ps_used := seg, ps_cur := Some (ps_nreg st), ps_bump := sz\<rparr>, Some (ps_nreg st, 0)))"
    for ok cls sz by (simp add: take_block_def st Let_def)
  have "snd (alloc True n st) \<noteq> None" if "2 ^ 20 \<le> limit" "BLK_HDR + n \<le> 2 ^ 18" for n
    using small [OF that(2)] fits [OF that(1)] by (cases "class_of (BLK_HDR + n)") (simp add: alloc_def take)
  moreover have "alloc ok n st = (st, None)" if "limit < 2 ^ 20" "BLK_HDR + n \<le> 2 ^ 18" for ok n
    using small [OF that(2)] that(1) ge by (cases "class_of (BLK_HDR + n)") (simp add: alloc_def take)
  ultimately show ?thesis using fits st(2) unfolding st_def by blast
qed

theorem small_store_serves_witness:
  "snd (alloc True 1000 (payload_store_new (Some (2 ^ 25)) None None None)) \<noteq> None"
proof -
  have "(0 :: nat) < 2 ^ 25" "(2 ^ 25 :: nat) \<le> 2 ^ 40" by simp_all
  from small_store_serves [OF this, of None None] show ?thesis by (simp add: BLK_HDR_def)
qed

section \<open>The queue's surface\<close>

text \<open>\<open>put_encoded\<close> raises \<open>Full\<close>, \<open>get\<close> raises \<open>Empty\<close>; an unbounded queue is never full.\<close>

definition put_encoded :: "spill_env \<Rightarrow> bytes \<times> bool \<Rightarrow> ring_queue \<Rightarrow> ring_queue \<times> (exn + unit)" where
  "put_encoded env encoded q =
     (case ring_put env (snd encoded) (fst encoded) q of
        (q', Inr True) \<Rightarrow> (q', Inr ())
      | (q', Inr False) \<Rightarrow> (q', Inl FullE)
      | (q', Inl e) \<Rightarrow> (q', Inl e))"

definition shm_put_obj :: "shm_cfg \<Rightarrow> views \<Rightarrow> 's pickler \<Rightarrow> (nat \<Rightarrow> bool) \<Rightarrow> spill_env \<Rightarrow> 's \<Rightarrow> leaf list \<Rightarrow>
    ring_queue \<times> store \<Rightarrow> (ring_queue \<times> store) \<times> (exn + unit)" where
  "shm_put_obj cfg np pk os env s ls = (\<lambda>(q, st).
     case encode cfg np pk os s ls st of
       (st1, Inl e) \<Rightarrow> ((q, st1), Inl e)
     | (st1, Inr encoded) \<Rightarrow> (case put_encoded env encoded q of (q1, res) \<Rightarrow> ((q1, st1), res)))"

definition shm_get_obj :: "views \<Rightarrow> 's pickler \<Rightarrow> ring_queue \<times> store \<Rightarrow> (ring_queue \<times> store) \<times> (exn + 's \<times> leaf list)" where
  "shm_get_obj np pk = (\<lambda>(q, st).
     case ring_get q of
       (q1, Inl e) \<Rightarrow> ((q1, st), Inl e)
     | (q1, Inr None) \<Rightarrow> ((q1, st), Inl EmptyE)
     | (q1, Inr (Some b)) \<Rightarrow> (case load np pk b st of (st1, res) \<Rightarrow> ((q1, st1), res)))"

fun get_many :: "views \<Rightarrow> 's pickler \<Rightarrow> bytes list \<Rightarrow> store \<Rightarrow> store \<times> (exn + ('s \<times> leaf list) list)" where
  "get_many np pk [] st = (st, Inr [])"
| "get_many np pk (b # bs) st =
     (case load np pk b st of
        (st1, Inl e) \<Rightarrow> (st1, Inl e)
      | (st1, Inr x) \<Rightarrow> (case get_many np pk bs st1 of (st2, Inl e) \<Rightarrow> (st2, Inl e) | (st2, Inr xs) \<Rightarrow> (st2, Inr (x # xs))))"

definition shm_empty :: "ring_queue \<Rightarrow> bool" where
  "shm_empty q \<longleftrightarrow> ring_qsize q = 0"

definition shm_full :: "ring_queue \<Rightarrow> bool" where
  "shm_full q \<longleftrightarrow> 0 < r_maxsize (q_ring q) \<and> r_maxsize (q_ring q) \<le> ring_qsize q"

text \<open>
  C21: an object put on an empty edge and taken off again is the object: with room in the ring, the
  round trip through encoding, ring, store and loading gives the same object with the same arrays,
  and leaves the edge empty and the store with exactly the references it had and those of the
  received arrays.
\<close>

theorem shm_roundtrip:
  assumes "queue_inv q" and "queue_contents q = []" and "store_inv st R"
    and "\<forall>l \<in> set ls. wf_leaf cfg np (block_bytes st) R l" and "picklable cfg np pk os s ls st"
    and "shm_put_obj cfg np pk os env s ls (q, st) = ((q1, st1), Inr ())"
    and "fresh_name env q" and "\<forall>b disk. encode cfg np pk os s ls st = (st1, Inr (b, disk)) \<longrightarrow> length b < 2 ^ 64"
  shows "\<exists>q2 st2 ls'. shm_get_obj np pk (q1, st1) = ((q2, st2), Inr (s, ls')) \<and> map leaf_data ls' = map leaf_data ls
    \<and> queue_contents q2 = [] \<and> store_inv st2 (R + mset (concat (map leaf_handles ls')))"
proof -
  obtain b disk where enc: "encode cfg np pk os s ls st = (st1, Inr (b, disk))" and put: "ring_put env disk b q = (q1, Inr True)"
    using assms(6) by (auto simp: shm_put_obj_def put_encoded_def split: prod.splits sum.splits bool.splits)
  have wf: "wf_leaf cfg np (block_bytes st) R l" if "l \<in> set ls" for l using assms(4) that by blast
  obtain K where K: "store_inv st1 (R + K)" "carries np pk (block_bytes st1) K b (s, map leaf_data ls)"
    using encode_law [OF assms(3) wf assms(5) enc] by auto
  have "ring_admissible (env, disk) b q" using assms(7,8) enc by (simp add: ring_admissible_def)
  then have q1: "queue_inv q1" "queue_contents q1 = [b]"
    using rq.put_ok [OF assms(1), of "(env, disk)" b q1] put assms(2) by (auto simp: ring_put_op_def)
  obtain q2 where q2: "ring_get q1 = (q2, Inr (Some b))" "queue_contents q2 = []"
    using rq.get_Cons [OF q1(1), of b "[]"] q1(2) by auto
  obtain st2 s' ls' where l: "load np pk b st1 = (st2, Inr (s', ls'))" "(s', map leaf_data ls') = (s, map leaf_data ls)"
    "store_inv st2 (R + mset (concat (map leaf_handles ls')))"
    using load_law [OF K] by blast
  then show ?thesis using q2 by (auto simp: shm_get_obj_def)
qed


theorem shm_roundtrip_witness:
  "\<exists>q1 st1 q2 st2 ls'.
     shm_put_obj demo_cfg demo_views demo_pickler (\<lambda>_. True) \<lparr>e_name = [1], e_shm = Room, e_disk = Room\<rparr> 5 [NdLeaf demo_array]
       (new_queue 4 65536 None, store_new (2 ^ 27) (2 ^ 20)) = ((q1, st1), Inr ()) \<and>
     shm_get_obj demo_views demo_pickler (q1, st1) = ((q2, st2), Inr (5, ls')) \<and> map leaf_data ls' = [leaf_data (NdLeaf demo_array)]"
proof -
  let ?q = "new_queue 4 65536 None" and ?st = "store_new (2 ^ 27) (2 ^ 20)" and ?ls = "[NdLeaf demo_array]"
  let ?env = "\<lparr>e_name = [1], e_shm = Room, e_disk = Room\<rparr>"
  obtain q1 where r: "ring_put ?env False demo_bytes ?q = (q1, Inr True)" using demo_put by blast
  have put: "shm_put_obj demo_cfg demo_views demo_pickler (\<lambda>_. True) ?env 5 ?ls (?q, ?st) = ((q1, demo_store), Inr ())"
    by (simp only: shm_put_obj_def prod.case demo_encodes sum.case put_encoded_def fst_conv snd_conv r bool.case)
  have "(2 ^ 27 :: nat) \<le> 2 ^ 40" by simp
  note st = store_new_inv [OF this, of "2 ^ 20"]
  have q: "queue_inv ?q" "queue_contents ?q = []" using new_queue_inv [of 65536 4 None] by simp_all
  have wf: "\<forall>l \<in> set ?ls. wf_leaf demo_cfg demo_views (block_bytes ?st) {#} l" using demo_wf by blast
  have fresh: "fresh_name ?env ?q" by (simp add: fresh_name_def new_queue_def)
  have "\<forall>b disk. encode demo_cfg demo_views demo_pickler (\<lambda>_. True) 5 ?ls ?st = (demo_store, Inr (b, disk)) \<longrightarrow> length b < 2 ^ 64"
    unfolding demo_encodes by (simp add: unary_def demo_bytes_def)
  from shm_roundtrip [OF q st wf demo_picklable put fresh this] put show ?thesis by auto
qed

section \<open>The warning of a full store\<close>

datatype why_full = ShmIsFull | AtItsCap

definition needs_dedicated :: "nat \<Rightarrow> store \<Rightarrow> bool" where
  "needs_dedicated nbytes st \<longleftrightarrow> min (2 ^ 26) (ps_seg_bytes st div 4) < nbytes + 64"

definition why_full :: "nat \<Rightarrow> int option \<Rightarrow> store \<Rightarrow> why_full" where
  "why_full nbytes free st =
     (let need = (if needs_dedicated nbytes st then nbytes else ps_seg_bytes st) in
      case free of
        Some f \<Rightarrow> if f < int need + 2 ^ 20 then ShmIsFull else AtItsCap
      | None \<Rightarrow> AtItsCap)"

text \<open>\<open>_alloc\<close>: the flag \<open>_full_warned\<close>, the store, the answer, and the warning printed.\<close>

definition alloc_warned :: "bool \<Rightarrow> int option \<Rightarrow> nat \<Rightarrow> bool \<times> store \<Rightarrow> (bool \<times> store) \<times> handle option \<times> why_full option" where
  "alloc_warned ok free nbytes = (\<lambda>(full_warned, st).
     case alloc ok nbytes st of
       (st1, Some h) \<Rightarrow> ((full_warned, st1), Some h, None)
     | (st1, None) \<Rightarrow>
         if full_warned then ((True, st1), None, None) else ((True, st1), None, Some (why_full nbytes free st1)))"

fun alloc_warnings :: "(bool \<times> int option \<times> nat) list \<Rightarrow> bool \<times> store \<Rightarrow> why_full list" where
  "alloc_warnings [] s = []"
| "alloc_warnings ((ok, free, nbytes) # rs) s =
     (case alloc_warned ok free nbytes s of (s1, _, w) \<Rightarrow> (case w of Some x \<Rightarrow> [x] | None \<Rightarrow> []) @ alloc_warnings rs s1)"

lemma alloc_warnings_warned: "alloc_warnings rs (True, st) = []"
proof (induction rs arbitrary: st)
  case (Cons r rs)
  then show ?case by (cases r) (auto simp: alloc_warned_def split: prod.splits option.splits)
qed simp

text \<open>
  A process warns of a full store at most once, and the cause it names rests on the test the
  store itself makes: the warning takes a block for a dedicated one exactly when the store does.
\<close>

theorem full_store_warning:
  "length (alloc_warnings rs s) \<le> 1 \<and> (needs_dedicated nbytes st \<longleftrightarrow> max_class_block st < BLK_HDR + nbytes)"
proof -
  have "length (alloc_warnings rs s) \<le> 1"
  proof (induction rs arbitrary: s)
    case (Cons r rs)
    then show ?case by (cases r; cases s) (auto simp: alloc_warned_def alloc_warnings_warned split: prod.splits option.splits)
  qed simp
  then show ?thesis by (simp add: needs_dedicated_def max_class_block_def MAX_CLASS_BLOCK_def BLK_HDR_def add.commute)
qed


section \<open>The sweep\<close>

text \<open>The names of shared objects and spill directories: \<open>owner_tag\<close> and \<open>unique_name\<close>, without the slash.\<close>

definition hex_digit :: "nat \<Rightarrow> char" where
  "hex_digit d = ''0123456789abcdef'' ! d"

fun hex :: "nat \<Rightarrow> string" where
  "hex n = (if n < 16 then [hex_digit n] else hex (n div 16) @ [hex_digit (n mod 16)])"

declare hex.simps [simp del]

definition owner_name :: "string \<Rightarrow> nat \<Rightarrow> nat \<Rightarrow> nat \<Rightarrow> nat \<Rightarrow> string" where
  "owner_name tag ns pid n t = tag @ hex ns @ ''.'' @ hex pid @ ''_'' @ hex n @ ''_'' @ hex (t mod 2 ^ 16)"

text \<open>\<open>_OWNED\<close>, and \<open>int(_, 16)\<close>.\<close>

definition is_hex :: "char \<Rightarrow> bool" where
  "is_hex c \<longleftrightarrow> c \<in> set ''0123456789abcdef''"

definition hex_val :: "char \<Rightarrow> nat" where
  "hex_val c = length (takeWhile (\<lambda>x. x \<noteq> c) ''0123456789abcdef'')"

definition parse_hex :: "string \<Rightarrow> nat" where
  "parse_hex s = foldl (\<lambda>a c. 16 * a + hex_val c) 0 s"

definition hex_then :: "char \<Rightarrow> string \<Rightarrow> (nat \<times> string) option" where
  "hex_then stop s =
     (let a = takeWhile is_hex s in
      case dropWhile is_hex s of
        [] \<Rightarrow> None
      | c # rest \<Rightarrow> if a \<noteq> [] \<and> c = stop then Some (parse_hex a, rest) else None)"

definition owned :: "string \<Rightarrow> (nat \<times> nat) option" where
  "owned name =
     (if take 3 name \<in> {''gpq'', ''gps''} then
        (case hex_then (CHR ''.'') (drop 3 name) of
           None \<Rightarrow> None
         | Some (ns, rest) \<Rightarrow> map_option (\<lambda>(pid, _). (ns, pid)) (hex_then (CHR ''_'') rest))
      else None)"

text \<open>\<open>os.kill(pid, 0)\<close> tells whether a process exists.\<close>

datatype kill_result = KillOk | NoSuchProcess | NotPermitted

definition alive :: "(nat \<Rightarrow> kill_result) \<Rightarrow> nat \<Rightarrow> bool" where
  "alive kill pid = (case kill pid of NoSuchProcess \<Rightarrow> False | _ \<Rightarrow> True)"

definition sweepable :: "nat \<Rightarrow> (nat \<Rightarrow> kill_result) \<Rightarrow> bool \<Rightarrow> string \<Rightarrow> bool" where
  "sweepable ns kill is_dir name =
     (case owned name of
        None \<Rightarrow> False
      | Some (n, pid) \<Rightarrow> n = ns \<and> (is_dir \<longrightarrow> suffix ''.spill'' name) \<and> \<not> alive kill pid)"

text \<open>One directory: what is left in it and how many entries went; \<open>rm\<close> says which removals succeed.\<close>

fun sweep_dir :: "nat \<Rightarrow> (nat \<Rightarrow> kill_result) \<Rightarrow> (string \<Rightarrow> bool) \<Rightarrow> bool \<Rightarrow> string list \<Rightarrow> string list \<times> nat" where
  "sweep_dir ns kill rm is_dir [] = ([], 0)"
| "sweep_dir ns kill rm is_dir (name # names) =
     (case sweep_dir ns kill rm is_dir names of (left, n) \<Rightarrow>
        if sweepable ns kill is_dir name \<and> rm name then (left, Suc n) else (name # left, n))"

text \<open>
  \<open>sweep_dead_owners\<close>: no \<^verbatim>\<open>/dev/shm\<close> or no pid namespace, nothing; a directory that cannot be listed
  is skipped.
\<close>

definition sweep_dead_owners ::
    "nat option \<Rightarrow> (nat \<Rightarrow> kill_result) \<Rightarrow> (string \<Rightarrow> bool) \<Rightarrow> bool \<Rightarrow> string list option \<Rightarrow> string list option \<Rightarrow>
     string list option \<times> string list option \<times> nat" where
  "sweep_dead_owners ns kill rm has_shm shm tmp =
     (case ns of
        None \<Rightarrow> (shm, tmp, 0)
      | Some k \<Rightarrow>
          if \<not> has_shm then (shm, tmp, 0)
          else
            let s = map_option (sweep_dir k kill rm False) shm; t = map_option (sweep_dir k kill rm True) tmp
            in (map_option fst s, map_option fst t,
                (case s of None \<Rightarrow> 0 | Some (_, n) \<Rightarrow> n) + (case t of None \<Rightarrow> 0 | Some (_, n) \<Rightarrow> n)))"

lemma hex_digit_props: "d < 16 \<Longrightarrow> is_hex (hex_digit d) \<and> hex_val (hex_digit d) = d"
proof -
  assume d: "d < 16"
  have "\<forall>d \<in> set [0..<16]. is_hex (hex_digit d) \<and> hex_val (hex_digit d) = d" by code_simp
  then show ?thesis using d by auto
qed

lemma hex_props: "list_all is_hex (hex n) \<and> hex n \<noteq> [] \<and> parse_hex (hex n) = n"
proof (induction n rule: hex.induct)
  case (1 n)
  show ?case
  proof (cases "n < 16")
    case True
    then show ?thesis using hex_digit_props [of n] by (simp add: hex.simps [of n] parse_hex_def)
  next
    case False
    then show ?thesis using 1 hex_digit_props [of "n mod 16"] by (simp add: hex.simps [of n] parse_hex_def)
  qed
qed

lemma hex_then_hex: "\<not> is_hex stop \<Longrightarrow> hex_then stop (hex n @ stop # rest) = Some (n, rest)"
proof -
  assume s: "\<not> is_hex stop"
  have h: "\<forall>c \<in> set (hex n). is_hex c" "hex n \<noteq> []" "parse_hex (hex n) = n" using hex_props [of n] by (auto simp: list_all_iff)
  have "takeWhile is_hex (hex n @ stop # rest) = hex n" "dropWhile is_hex (hex n @ stop # rest) = stop # rest"
    using h(1) s by (simp_all add: takeWhile_append2 dropWhile_append2)
  then show ?thesis using h by (simp add: hex_then_def Let_def)
qed

lemma sweep_dir_eq:
  "sweep_dir ns kill rm is_dir names =
   (filter (\<lambda>x. \<not> (sweepable ns kill is_dir x \<and> rm x)) names, length (filter (\<lambda>x. sweepable ns kill is_dir x \<and> rm x) names))"
  by (induction names) auto

lemma owned_owner_name:
  assumes "tag \<in> {''gpq'', ''gps''}"
  shows "owned (owner_name tag ns pid n t @ rest) = Some (ns, pid)"
proof -
  have dots: "\<not> is_hex (CHR ''.'')" "\<not> is_hex (CHR ''_'')" by (simp_all add: is_hex_def)
  let ?tail = "hex pid @ CHR ''_'' # hex n @ ''_'' @ hex (t mod 2 ^ 16) @ rest"
  have "drop 3 (owner_name tag ns pid n t @ rest) = hex ns @ CHR ''.'' # ?tail" "take 3 (owner_name tag ns pid n t @ rest) = tag"
    using assms by (auto simp: owner_name_def)
  then show ?thesis using assms hex_then_hex [OF dots(1), of ns] hex_then_hex [OF dots(2), of pid] by (simp add: owned_def)
qed

lemma sweepable_owner_name:
  "tag \<in> {''gpq'', ''gps''} \<Longrightarrow> sweepable k kill False (owner_name tag ns pid n t @ rest) \<longleftrightarrow> ns = k \<and> kill pid = NoSuchProcess"
  by (auto simp: sweepable_def owned_owner_name alive_def split: kill_result.splits)

text \<open>
  The sweep knows its own names: the name a process gives its rings and stores parses back to the
  process's namespace and pid, so a living owner's objects are never swept, those of a dead owner
  are, and nothing else is touched: a name that is not the pipeline's, is another namespace's, or
  (in the temp directory) is no spill directory stays, and the count is the number of names removed.
\<close>

theorem sweep_spares_the_living:
  assumes "tag \<in> {''gpq'', ''gps''}"
  shows "owned (owner_name tag ns pid n t @ rest) = Some (ns, pid)
    \<and> (sweepable k kill False (owner_name tag ns pid n t @ rest) \<longleftrightarrow> ns = k \<and> kill pid = NoSuchProcess)
    \<and> sweep_dead_owners (Some k) kill rm True (Some shm) (Some tmp) =
        (Some (filter (\<lambda>x. \<not> (sweepable k kill False x \<and> rm x)) shm), Some (filter (\<lambda>x. \<not> (sweepable k kill True x \<and> rm x)) tmp),
         length (filter (\<lambda>x. sweepable k kill False x \<and> rm x) shm) + length (filter (\<lambda>x. sweepable k kill True x \<and> rm x) tmp))"
  using owned_owner_name [OF assms] sweepable_owner_name [OF assms] by (simp add: sweep_dead_owners_def sweep_dir_eq)

theorem sweep_spares_the_living_witness: "owned (owner_name ''gpq'' 4026531836 4711 0 255 @ ''r0'') = Some (4026531836, 4711)"
  using sweep_spares_the_living [of "''gpq''"] by simp


section \<open>Making the store and the queues\<close>

definition warn_if_small_shm :: "int option \<Rightarrow> bool \<Rightarrow> bool \<times> bool" where
  "warn_if_small_shm free warned =
     (case free of Some f \<Rightarrow> if f < 2 ^ 30 \<and> \<not> warned then (True, True) else (warned, False) | None \<Rightarrow> (warned, False))"

text \<open>\<open>queues.make_store\<close>: the names left in the two directories, and the store if it could be made.\<close>

definition make_store ::
    "bool \<Rightarrow> nat option \<Rightarrow> (nat \<Rightarrow> kill_result) \<Rightarrow> (string \<Rightarrow> bool) \<Rightarrow> bool \<Rightarrow> bool \<Rightarrow> real option \<Rightarrow> int option \<Rightarrow>
     string list option \<Rightarrow> string list option \<Rightarrow> (string list option \<times> string list option) \<times> store option" where
  "make_store store_off ns kill rm has_shm create_ok mb free shm tmp =
     (if store_off then ((shm, tmp), None)
      else
        case sweep_dead_owners ns kill rm has_shm shm tmp of (shm1, tmp1, n) \<Rightarrow>
          ((shm1, tmp1), if create_ok then Some (payload_store_new None None mb free) else None))"

definition make_queue :: "real option \<Rightarrow> int option \<Rightarrow> int \<Rightarrow> int \<Rightarrow> ring_queue" where
  "make_queue mb free maxsize n_edges = new_queue (nat maxsize) (nat (edge_ring_bytes mb free maxsize n_edges)) None"

text \<open>Without a size set by hand, every queue starts as a valid, empty ring and every store as a valid, empty store.\<close>

lemma make_queue_inv:
  "queue_inv (make_queue None free maxsize n_edges)" "queue_contents (make_queue None free maxsize n_edges) = []"
proof -
  have "ring_bytes None maxsize \<le> 2 ^ 24" by (simp add: ring_bytes_def)
  then have "edge_ring_bytes None free maxsize n_edges \<le> 2 ^ 24"
    by (cases free) (auto simp: edge_ring_bytes_def Let_def)
  then have "nat (edge_ring_bytes None free maxsize n_edges) \<le> 2 ^ 32 - 8" by simp
  from new_queue_inv [OF this] show "queue_inv (make_queue None free maxsize n_edges)"
    "queue_contents (make_queue None free maxsize n_edges) = []" by (simp_all add: make_queue_def)
qed

lemma make_store_inv:
  assumes "make_store off ns kill rm has_shm ok None free shm tmp = (fs, Some st)"
  shows "store_inv st {#}"
proof -
  have "default_limit None free \<le> 2 ^ 34" by (cases free) (auto simp: default_limit_def)
  then have lim: "nat (default_limit None free) \<le> 2 ^ 40" by simp
  have "st = payload_store_new None None None free"
    using assms by (auto simp: make_store_def split: if_splits prod.splits)
  then show ?thesis using store_new_inv [OF lim] by (simp add: payload_store_new_def Let_def)
qed

end
