(* ===== verification/Pipe_Names.thy ===== *)
theory Pipe_Names
  imports Pipe_Shm_Setup
begin

text \<open>
  The names of the payload store and of the rings, and who removes them (\<^verbatim>\<open>src/pipe/shmstore.py\<close>,
  \<^verbatim>\<open>src/pipe/shmqueue.py\<close>, \<^verbatim>\<open>rust/src/store.rs\<close>). The owner registers every name the store can ever use with Python's
  resource tracker, a process that removes what is registered when the owner dies; closing removes the
  objects and unregisters the names. What is shown: a crash leaves at most dedicated segments behind,
  which the next pipeline's sweep recognizes, and a close leaves nothing.
\<close>

section \<open>Names\<close>

definition seg_name :: "string \<Rightarrow> nat \<Rightarrow> bool \<Rightarrow> string" where
  "seg_name base i dedicated = base @ (if dedicated then ''d'' else ''r'') @ hex i"

definition segment_names :: "string \<Rightarrow> nat \<Rightarrow> string list" where
  "segment_names base k = map (\<lambda>i. seg_name base i False) [0..<k]"

text \<open>The names \<open>PayloadStore\<close> registers: the control block and every regular segment the limit allows.\<close>

definition store_names :: "string \<Rightarrow> store \<Rightarrow> string list" where
  "store_names base st = base # segment_names base (ps_limit st div ps_seg_bytes st)"

text \<open>The objects that exist for a store in a given state.\<close>

definition live_names :: "string \<Rightarrow> store \<Rightarrow> string set" where
  "live_names base st = insert base ((\<lambda>i. seg_name base i False) ` {..<ps_nreg st} \<union> (\<lambda>i. seg_name base i True) ` dedicated_ids st)"

section \<open>Objects and the tracker\<close>

record shm_world =
  sw_tracker :: "string set"
  sw_objects :: "string set"

definition register :: "string list \<Rightarrow> shm_world \<Rightarrow> shm_world" where
  "register names w = w\<lparr>sw_tracker := sw_tracker w \<union> set names\<rparr>"

text \<open>Unregistering a name the tracker does not know is an error there.\<close>

fun unregister :: "string list \<Rightarrow> shm_world \<Rightarrow> exn + shm_world" where
  "unregister [] w = Inr w"
| "unregister (n # ns) w = (if n \<in> sw_tracker w then unregister ns (w\<lparr>sw_tracker := sw_tracker w - {n}\<rparr>) else Inl OtherExn)"

definition owner_dies :: "shm_world \<Rightarrow> shm_world" where
  "owner_dies w = \<lparr>sw_tracker = {}, sw_objects = sw_objects w - sw_tracker w\<rparr>"

text \<open>\<open>Store::unlink\<close> counts to the last segment ever created; a name without an object is ignored.\<close>

definition store_unlink :: "string \<Rightarrow> store \<Rightarrow> shm_world \<Rightarrow> shm_world" where
  "store_unlink base st w = w\<lparr>sw_objects := sw_objects w - insert base
     ((\<lambda>i. seg_name base i False) ` {..<ps_nreg st} \<union> (\<lambda>i. seg_name base i True) ` {..<ps_nded st})\<rparr>"

definition payload_store_close :: "string \<Rightarrow> string list \<Rightarrow> store \<Rightarrow> shm_world \<Rightarrow> exn + shm_world" where
  "payload_store_close base registered st w = unregister registered (store_unlink base st w)"

text \<open>
  \<open>_release\<close> of a ring, and \<open>close\<close>: the finalizer of the owner runs once, another process has none. \<open>unlink\<close>
  is what unlinking the ring does to the objects.
\<close>

definition release_ring :: "(string set \<Rightarrow> string set) \<Rightarrow> string \<Rightarrow> shm_world \<Rightarrow> exn + shm_world" where
  "release_ring unlink name w = unregister [name] (w\<lparr>sw_objects := unlink (sw_objects w)\<rparr>)"

definition run_finalizer :: "(shm_world \<Rightarrow> exn + shm_world) \<Rightarrow> bool \<times> shm_world \<Rightarrow> (bool \<times> shm_world) \<times> exn option" where
  "run_finalizer f = (\<lambda>(pending, w).
     if \<not> pending then ((False, w), None)
     else case f w of Inl e \<Rightarrow> ((False, w), Some e) | Inr w1 \<Rightarrow> ((False, w1), None))"

text \<open>\<open>shmstore.store\<close>: a process attaches to a store once and keeps the handle.\<close>

definition attached_store :: "(string \<Rightarrow> exn + 'c) \<Rightarrow> string \<Rightarrow> (string \<rightharpoonup> 'c) \<Rightarrow> (string \<rightharpoonup> 'c) \<times> (exn + 'c)" where
  "attached_store attach name att =
     (case att name of
        Some c \<Rightarrow> (att, Inr c)
      | None \<Rightarrow> (case attach name of Inl e \<Rightarrow> (att, Inl e) | Inr c \<Rightarrow> (att(name \<mapsto> c), Inr c)))"

lemma attached_store_once: "attached_store attach name att = (att1, Inr c) \<Longrightarrow> attached_store attach1 name att1 = (att1, Inr c)"
  by (auto simp: attached_store_def split: option.splits sum.splits)

section \<open>Nothing stays behind\<close>

lemma hex_inject [simp]: "hex a = hex b \<longleftrightarrow> a = b"
  using hex_props [of a] hex_props [of b] by metis

lemma seg_name_inject [simp]: "seg_name base i d = seg_name base j e \<longleftrightarrow> i = j \<and> d = e"
  by (auto simp: seg_name_def)

lemma seg_name_base [simp]: "seg_name base i d \<noteq> base" "base \<noteq> seg_name base i d"
  by (simp_all add: seg_name_def)

lemma store_names_distinct: "distinct (store_names base st)"
  by (auto simp: store_names_def segment_names_def distinct_map inj_on_def)

lemma unregister_all:
  "distinct ns \<Longrightarrow> set ns \<subseteq> sw_tracker w \<Longrightarrow> unregister ns w = Inr (w\<lparr>sw_tracker := sw_tracker w - set ns\<rparr>)"
proof (induction ns arbitrary: w)
  case (Cons n ns)
  let ?w = "w\<lparr>sw_tracker := sw_tracker w - {n}\<rparr>"
  have "set ns \<subseteq> sw_tracker ?w" using Cons.prems by auto
  then have "unregister ns ?w = Inr (?w\<lparr>sw_tracker := sw_tracker ?w - set ns\<rparr>)" using Cons by simp
  moreover have "sw_tracker w - {n} - set ns = sw_tracker w - insert n (set ns)" by auto
  ultimately show ?case using Cons.prems by simp
qed simp

text \<open>Limit and segment size are fixed when the store is made.\<close>

lemma store_fixed:
  assumes "ref_step alloc_bytes share drop_block p q"
  shows "ps_limit (fst q) = ps_limit (fst p) \<and> ps_seg_bytes (fst q) = ps_seg_bytes (fst p)"
proof -
  have t: "take_block ok cls sz st = (st1, x) \<Longrightarrow> ps_limit st1 = ps_limit st \<and> ps_seg_bytes st1 = ps_seg_bytes st" for ok cls sz st st1 x
    by (auto simp: take_block_def Let_def split: if_splits prod.splits option.splits)
  have d: "alloc_dedicated ok n st = (st1, x) \<Longrightarrow> ps_limit st1 = ps_limit st \<and> ps_seg_bytes st1 = ps_seg_bytes st" for ok n st st1 x
    by (auto simp: alloc_dedicated_def Let_def split: if_splits)
  have a: "alloc ok n st = (st1, x) \<Longrightarrow> ps_limit st1 = ps_limit st \<and> ps_seg_bytes st1 = ps_seg_bytes st" for ok n st st1 x
    by (auto simp: alloc_def dest: t d split: if_splits prod.splits option.splits)
  have b: "alloc_bytes ok data st = (st1, x) \<Longrightarrow> ps_limit st1 = ps_limit st \<and> ps_seg_bytes st1 = ps_seg_bytes st" for ok data st st1 x
    by (auto simp: alloc_bytes_def fill_block_def dest: a split: prod.splits option.splits)
  show ?thesis using assms
    by (induction rule: ref_step.induct) (auto dest: b simp: share_def drop_block_def split: option.splits prod.splits)
qed

lemma store_steps_fixed: "store_steps p q \<Longrightarrow> ps_limit (fst q) = ps_limit (fst p) \<and> ps_seg_bytes (fst q) = ps_seg_bytes (fst p)"
  by (induction rule: rtranclp_induct) (auto dest: store_fixed)

lemma nreg_bound:
  assumes "store_inv st R"
  shows "ps_nreg st \<le> ps_limit st div ps_seg_bytes st"
proof -
  have "ps_nreg st * ps_seg_bytes st \<le> ps_limit st" "0 < ps_seg_bytes st" using assms by (auto simp: store_inv_def accounted_def)
  then show ?thesis by (simp add: less_eq_div_iff_mult_less_eq)
qed

lemma dedicated_below: "store_inv st R \<Longrightarrow> i \<in> dedicated_ids st \<Longrightarrow> i < ps_nded st"
  by (auto simp: store_inv_def dedicated_ok_def dedicated_ids_def)

text \<open>
  C18: whatever the processes did with the store, the names its owner registered when it was made cover its
  control block and every regular segment it has, so when the owner dies only dedicated segments are left,
  whose names the sweep of the next pipeline recognizes as those of a dead owner; and closing the store
  removes every object of it and gives the tracker back every name, without an error.
\<close>

theorem store_names_cleaned:
  assumes "limit_bytes \<le> 2 ^ 40" and "store_steps (store_new limit_bytes seg_bytes, {#}) (st, R)"
    and "base = owner_name ''gps'' ns pid n t" and "kill pid = NoSuchProcess"
    and "sw_objects w = live_names base st" and "set names \<subseteq> sw_tracker w" and "names = store_names base (store_new limit_bytes seg_bytes)"
  shows "(\<forall>x \<in> sw_objects (owner_dies w). sweepable ns kill False x \<and> (\<exists>i \<in> dedicated_ids st. x = seg_name base i True))
    \<and> payload_store_close base names st w = Inr \<lparr>sw_tracker = sw_tracker w - set names, sw_objects = {}\<rparr>"
proof -
  have inv: "store_inv st R" using assms(1,2) by (rule store_steps_inv)
  have fixed: "ps_limit st = limit_bytes" "ps_seg_bytes st = ps_seg_bytes (store_new limit_bytes seg_bytes)"
    using store_steps_fixed [OF assms(2)] by (simp_all add: store_new_def)
  have "base \<in> set names" "\<forall>i < ps_nreg st. seg_name base i False \<in> set names"
    using nreg_bound [OF inv] fixed assms(7) by (auto simp: store_names_def segment_names_def store_new_def)
  then have "\<exists>i \<in> dedicated_ids st. x = seg_name base i True" if "x \<in> sw_objects (owner_dies w)" for x
    using that assms(5,6) by (auto simp: owner_dies_def live_names_def)
  moreover have "sweepable ns kill False (seg_name base i True)" for i
    using sweepable_owner_name [of "''gps''" ns kill ns pid n t "''d'' @ hex i"] assms(3,4) by (simp add: seg_name_def)
  ultimately have dies: "\<forall>x \<in> sw_objects (owner_dies w). sweepable ns kill False x \<and> (\<exists>i \<in> dedicated_ids st. x = seg_name base i True)"
    by blast
  have "sw_objects (store_unlink base st w) = {}"
    using assms(5) dedicated_below [OF inv] by (auto simp: store_unlink_def live_names_def)
  moreover have "unregister names (store_unlink base st w) = Inr ((store_unlink base st w)\<lparr>sw_tracker := sw_tracker w - set names\<rparr>)"
    using unregister_all [of names "store_unlink base st w"] store_names_distinct assms(6,7) by (simp add: store_unlink_def)
  ultimately show ?thesis using dies by (simp add: payload_store_close_def)
qed

theorem store_names_cleaned_witness:
  "payload_store_close (owner_name ''gps'' 1 4711 0 0) (store_names (owner_name ''gps'' 1 4711 0 0) (store_new (2 ^ 27) (2 ^ 20)))
     (store_new (2 ^ 27) (2 ^ 20))
     \<lparr>sw_tracker = set (store_names (owner_name ''gps'' 1 4711 0 0) (store_new (2 ^ 27) (2 ^ 20))), sw_objects = {owner_name ''gps'' 1 4711 0 0}\<rparr>
   = Inr \<lparr>sw_tracker = {}, sw_objects = {}\<rparr>"
proof -
  let ?st = "store_new (2 ^ 27) (2 ^ 20)" and ?b = "owner_name ''gps'' 1 4711 0 0"
  let ?w = "\<lparr>sw_tracker = set (store_names ?b ?st), sw_objects = {?b}\<rparr>"
  have "store_steps (?st, {#}) (?st, {#})" by simp
  moreover have "sw_objects ?w = live_names ?b ?st" by (simp add: live_names_def store_new_def dedicated_ids_def)
  ultimately show ?thesis
    using store_names_cleaned [of "2 ^ 27" "2 ^ 20" ?st "{#}" ?b 1 4711 0 0 "\<lambda>_. NoSuchProcess" ?w "store_names ?b ?st"] by simp
qed

end
