(* ===== verification/Pipe_Putter.thy ===== *)
theory Pipe_Putter
  imports Pipe_Shm_Setup
begin

text \<open>
  How often a message is encoded when its queue is full (\<open>putter\<close> and the loops of \<open>_put_retry\<close> and \<open>push\<close>
  around it, \<^verbatim>\<open>src/pipe/queues.py\<close>): every encoding takes references in the payload store that only a
  reader gives back. On a queue that offers \<open>encode\<close> the message is encoded once. The queues of a pipeline
  with \<open>debug=True\<close> are instrumented queues, which do not offer it.
\<close>

section \<open>One message, many attempts\<close>

text \<open>The queue of an edge: a \<open>ShmQueue\<close>, or the \<open>InstrumentedQueue\<close> around one.\<close>

datatype edge_queue = ShmEdge | DebugEdge

text \<open>
  An attempt: what the other processes do to the ring meanwhile, what the operating system grants, the
  clock. The payload of an instrumented queue is the pair of the item and the time; \<open>stamp\<close> makes it.
\<close>

record put_obs =
  po_env :: "ring_queue \<Rightarrow> ring_queue"
  po_spill :: spill_env
  po_os :: "nat \<Rightarrow> bool"
  po_now :: real

type_synonym shm_state = "ring_queue \<times> store"
type_synonym put_attempt = "put_obs \<Rightarrow> shm_state \<Rightarrow> shm_state \<times> (exn + unit)"

definition put_again :: "bytes \<times> bool \<Rightarrow> put_attempt" where
  "put_again encoded ob = (\<lambda>(q, st). case put_encoded (po_spill ob) encoded q of (q1, res) \<Rightarrow> ((q1, st), res))"

definition debug_put :: "shm_cfg \<Rightarrow> views \<Rightarrow> 's pickler \<Rightarrow> (real \<Rightarrow> 's \<Rightarrow> 's) \<Rightarrow> 's \<Rightarrow> leaf list \<Rightarrow> put_attempt" where
  "debug_put cfg np pk stamp s ls ob = shm_put_obj cfg np pk (po_os ob) (po_spill ob) (stamp (po_now ob) s) ls"

text \<open>\<open>putter\<close>: the function that tries to put, made once.\<close>

definition putter :: "edge_queue \<Rightarrow> shm_cfg \<Rightarrow> views \<Rightarrow> 's pickler \<Rightarrow> (real \<Rightarrow> 's \<Rightarrow> 's) \<Rightarrow> (nat \<Rightarrow> bool) \<Rightarrow> 's \<Rightarrow> leaf list \<Rightarrow>
    shm_state \<Rightarrow> shm_state \<times> (exn + put_attempt)" where
  "putter kind cfg np pk stamp os s ls = (\<lambda>(q, st).
     case kind of
       DebugEdge \<Rightarrow> ((q, st), Inr (debug_put cfg np pk stamp s ls))
     | ShmEdge \<Rightarrow>
         (case encode cfg np pk os s ls st of
            (st1, Inl e) \<Rightarrow> ((q, st1), Inl e)
          | (st1, Inr encoded) \<Rightarrow> ((q, st1), Inr (put_again encoded))))"

text \<open>
  The loop: attempts until one is not refused. The result is the state, the number of attempts and the
  exception, if one other than \<open>Full\<close> ended it; \<open>None\<close> while every attempt so far was refused.
\<close>

fun attempts :: "put_attempt \<Rightarrow> put_obs list \<Rightarrow> shm_state \<Rightarrow> (shm_state \<times> nat \<times> exn option) option" where
  "attempts put [] x = None"
| "attempts put (ob # obs) x =
     (case put ob (po_env ob (fst x), snd x) of
        (x1, Inr _) \<Rightarrow> Some (x1, 1, None)
      | (x1, Inl e) \<Rightarrow>
          if e = FullE then map_option (\<lambda>(x2, n, res). (x2, Suc n, res)) (attempts put obs x1) else Some (x1, 1, Some e))"

definition retried_put :: "edge_queue \<Rightarrow> shm_cfg \<Rightarrow> views \<Rightarrow> 's pickler \<Rightarrow> (real \<Rightarrow> 's \<Rightarrow> 's) \<Rightarrow> (nat \<Rightarrow> bool) \<Rightarrow> put_obs list \<Rightarrow>
    's \<Rightarrow> leaf list \<Rightarrow> shm_state \<Rightarrow> (shm_state \<times> nat \<times> exn option) option" where
  "retried_put kind cfg np pk stamp os obs s ls x =
     (case putter kind cfg np pk stamp os s ls x of
        (x1, Inl e) \<Rightarrow> Some (x1, 0, Some e)
      | (x1, Inr put) \<Rightarrow> attempts put obs x1)"

section \<open>References taken\<close>

text \<open>What every attempt does to the store, the loop does once per attempt.\<close>

lemma attempts_store:
  assumes "\<And>ob q st. snd (fst (put ob (q, st))) = f st"
  shows "attempts put obs x = Some (x', n, res) \<Longrightarrow> snd x' = (f ^^ n) (snd x)"
proof (induction obs arbitrary: x n)
  case (Cons ob obs)
  obtain x1 r where p: "put ob (po_env ob (fst x), snd x) = (x1, r)" by fastforce
  have x1: "snd x1 = f (snd x)" using assms [of ob "po_env ob (fst x)" "snd x"] p by simp
  show ?case
  proof (cases "r = Inl FullE")
    case True
    with Cons.prems p obtain m where "attempts put obs x1 = Some (x', m, res)" "n = Suc m" by auto
    with Cons.IH x1 show ?thesis by (simp add: funpow_swap1)
  next
    case False
    with Cons.prems p have "n = 1 \<and> x' = x1" by (cases r) (simp_all split: if_splits)
    with x1 show ?thesis by simp
  qed
qed simp

text \<open>A tensor that arrived by handle and is put onward.\<close>

definition forwarded :: "shm_cfg \<Rightarrow> views \<Rightarrow> handle \<Rightarrow> tensor \<Rightarrow> bool" where
  "forwarded cfg np h t \<longleftrightarrow> c_store cfg \<and> t_cpu t \<and> t_strided t \<and> th_itemsize np (t_dtype t) \<noteq> None
     \<and> c_min cfg \<le> length (t_bytes t) \<and> (t_is_leaf t \<or> \<not> t_grad t) \<and> (\<exists>off. t_block t = Some (c_name cfg, h, off))"

lemma forwarded_reduce:
  assumes "forwarded cfg np h t"
  obtains r where "\<And>os st. reduce_all cfg np os [TLeaf t] st = (share h st, Inr [r])"
proof -
  obtain off where off: "t_block t = Some (c_name cfg, h, off)" using assms by (auto simp: forwarded_def)
  let ?r = "TStored (c_name cfg) h (t_dtype t) (t_shape t) (t_stride t) (off div int (the (th_itemsize np (t_dtype t)))) (t_grad t)"
  have "reduce_tensor cfg np ok t st = (share h st, Some ?r)" for ok st
    using assms off unfolding reduce_tensor_def forwarded_def by simp
  then have "reduce_leaf cfg np ok (TLeaf t) st = (share h st, Inr ?r)" for ok st
    using assms by (simp add: tensor_reducer_def forwarded_def)
  then show thesis using that [of ?r] by simp
qed

lemma share_rc: "ps_hdr st h = Some b \<Longrightarrow> \<exists>b'. ps_hdr ((share h ^^ n) st) h = Some b' \<and> h_rc b' = h_rc b + n"
  by (induction n) (auto simp: share_def)

text \<open>
  C37: a message that is retried because its queue is full takes its references once on a shared-memory
  queue, whatever the message holds and however often it is refused; but in a pipeline with \<open>debug=True\<close> it
  takes them again at every attempt: an array that arrived by handle and is put onward with \<open>n\<close> attempts
  has \<open>n\<close> more references, of which the one message that went gives back one.
\<close>

theorem retries_take_references:
  assumes "forwarded cfg np h t" and "\<forall>now r. length (pk_dumps pk (stamp now s) [r]) \<le> c_spill_at cfg" and "ps_hdr st h = Some b"
  shows "(\<forall>q' st' n res. retried_put ShmEdge cfg np pk stamp os obs s' ls (q, st) = Some ((q', st'), n, res) \<longrightarrow>
        st' = fst (encode cfg np pk os s' ls st))
    \<and> (\<forall>q' st' n res. retried_put DebugEdge cfg np pk stamp os obs s [TLeaf t] (q, st) = Some ((q', st'), n, res) \<longrightarrow>
        (\<exists>b'. ps_hdr st' h = Some b' \<and> h_rc b' = h_rc b + n))"
proof (intro conjI allI impI)
  fix q' st' n res
  assume a: "retried_put ShmEdge cfg np pk stamp os obs s' ls (q, st) = Some ((q', st'), n, res)"
  obtain st1 r where e: "encode cfg np pk os s' ls st = (st1, r)" by fastforce
  have P: "snd x' = snd x" if "attempts (put_again enc) obs x = Some (x', n, res)" for enc x x'
    using attempts_store [of "put_again enc" id obs x x' n res] that by (simp add: put_again_def split: prod.splits)
  show "st' = fst (encode cfg np pk os s' ls st)"
    using a e P [of _ "(q, st1)" "(q', st')"] by (cases r) (simp_all add: retried_put_def putter_def)
next
  fix q' st' n res
  assume a: "retried_put DebugEdge cfg np pk stamp os obs s [TLeaf t] (q, st) = Some ((q', st'), n, res)"
  obtain r where r: "\<And>os st. reduce_all cfg np os [TLeaf t] st = (share h st, Inr [r])" using forwarded_reduce [OF assms(1)] by blast
  have "encode cfg np pk os (stamp now s) [TLeaf t] st = (share h st, Inr (pk_dumps pk (stamp now s) [r], False))" for os now st
    using assms(2) [rule_format, of now r] by (simp add: encode_def r Let_def del: reduce_all.simps)
  then have "snd (fst (debug_put cfg np pk stamp s [TLeaf t] ob (q, st))) = share h st" for ob q st
    by (simp add: debug_put_def shm_put_obj_def split: prod.splits)
  then have "st' = (share h ^^ n) st"
    using attempts_store [of "debug_put cfg np pk stamp s [TLeaf t]" "share h" obs "(q, st)" "(q', st')" n res] a
    by (simp add: retried_put_def putter_def)
  then show "\<exists>b'. ps_hdr st' h = Some b' \<and> h_rc b' = h_rc b + n" using share_rc [OF assms(3)] by simp
qed

text \<open>Three attempts on a ring that is full twice: the block has three more references.\<close>

definition full_queue :: ring_queue where
  "full_queue = (new_queue 1 65536 None)\<lparr>q_ring := (q_ring (new_queue 1 65536 None))\<lparr>r_count := 1\<rparr>\<rparr>"

definition demo_tensor :: tensor where
  "demo_tensor = \<lparr>t_cpu = True, t_strided = True, t_dtype = 7, t_shape = [2], t_stride = [], t_bytes = [7, 8], t_grad = False,
     t_is_leaf = True, t_block = Some (''gps1'', (0, 0, False), 0)\<rparr>"

definition one_byte :: "nat pickler" where
  "one_byte = \<lparr>pk_dumps = (\<lambda>_ _. [128]), pk_loads = (\<lambda>_. None), pk_hdumps = (\<lambda>_ _. []), pk_hloads = (\<lambda>_. None)\<rparr>"

definition demo_attempt :: "ring_queue \<Rightarrow> put_obs" where
  "demo_attempt q = \<lparr>po_env = (\<lambda>_. q), po_spill = \<lparr>e_name = [1], e_shm = Room, e_disk = Room\<rparr>, po_os = (\<lambda>_. True), po_now = 0\<rparr>"

theorem retries_take_references_witness:
  "\<exists>b st q' st' b'. ps_hdr st (0, 0, False) = Some b
     \<and> retried_put DebugEdge demo_cfg demo_views one_byte (\<lambda>_. id) (\<lambda>_. True)
         [demo_attempt full_queue, demo_attempt full_queue, demo_attempt (new_queue 1 65536 None)] 5 [TLeaf demo_tensor] (full_queue, st)
       = Some ((q', st'), 3, None)
     \<and> ps_hdr st' (0, 0, False) = Some b' \<and> h_rc b' = h_rc b + 3"
proof -
  let ?h = "(0, 0, False) :: handle" and ?obs = "[demo_attempt full_queue, demo_attempt full_queue, demo_attempt (new_queue 1 65536 None)]"
  let ?b = "\<lparr>h_rc = 1, h_class = 0, h_len = 2, h_next = 0\<rparr>"
  let ?st = "(store_new (2 ^ 27) (2 ^ 20))\<lparr>ps_hdr := [?h \<mapsto> ?b]\<rparr>"
  have f: "forwarded demo_cfg demo_views ?h demo_tensor"
    by (simp add: forwarded_def demo_cfg_def demo_views_def demo_tensor_def)
  have s: "\<forall>now r. length (pk_dumps one_byte ((\<lambda>_. id) (now :: real) 5) [r]) \<le> c_spill_at demo_cfg"
    by (simp add: one_byte_def demo_cfg_def)
  have b: "ps_hdr ?st ?h = Some ?b" by simp
  have full: "ring_put e d x full_queue = (full_queue, Inr False)" if "length x = 1" for e d x
    using that by (simp add: ring_put_def full_queue_def new_queue_def commit_locked_def ring_ops)
  have room: "\<exists>q'. ring_put e d x (new_queue 1 65536 None) = (q', Inr True)" if "length x = 1" for e d x
    using that by (simp add: ring_put_def new_queue_def commit_locked_def ring_ops Let_def)
  obtain r where r: "\<And>os st. reduce_all demo_cfg demo_views os [TLeaf demo_tensor] st = (share ?h st, Inr [r])"
    using forwarded_reduce [OF f] by blast
  obtain q' where q': "ring_put \<lparr>e_name = [1], e_shm = Room, e_disk = Room\<rparr> False [128] (new_queue 1 65536 None) = (q', Inr True)"
    using room by fastforce
  have "encode demo_cfg demo_views one_byte os n [TLeaf demo_tensor] st = (share ?h st, Inr ([128], False))" for os n st
    by (simp add: encode_def r del: reduce_all.simps) (simp add: one_byte_def demo_cfg_def)
  then have tried: "debug_put demo_cfg demo_views one_byte (\<lambda>_. id) 5 [TLeaf demo_tensor] ob (q, st)
      = (case ring_put (po_spill ob) False [128] q of
           (q1, Inr True) \<Rightarrow> ((q1, share ?h st), Inr ()) | (q1, Inr False) \<Rightarrow> ((q1, share ?h st), Inl FullE) | (q1, Inl e) \<Rightarrow> ((q1, share ?h st), Inl e))"
    for ob q st by (simp add: debug_put_def shm_put_obj_def put_encoded_def split: prod.splits sum.splits bool.splits)
  have run: "\<exists>st'. retried_put DebugEdge demo_cfg demo_views one_byte (\<lambda>_. id) (\<lambda>_. True) ?obs 5 [TLeaf demo_tensor] (full_queue, ?st)
      = Some ((q', st'), 3, None)"
    by (simp add: retried_put_def putter_def tried demo_attempt_def full) (use q' in \<open>simp add: One_nat_def\<close>)
  have "\<exists>b'. ps_hdr st' ?h = Some b' \<and> h_rc b' = h_rc ?b + 3"
    if "retried_put DebugEdge demo_cfg demo_views one_byte (\<lambda>_. id) (\<lambda>_. True) ?obs 5 [TLeaf demo_tensor] (full_queue, ?st)
      = Some ((q', st'), 3, None)" for q' st'
    using retries_take_references [of demo_cfg demo_views ?h demo_tensor one_byte "\<lambda>_. id" 5 ?st ?b "\<lambda>_. True" ?obs 0 "[]" full_queue]
      f s b that by blast
  with run b show ?thesis by blast
qed

end
