(* ===== verification/Pipe_Config.thy ===== *)
theory Pipe_Config
  imports Pipe_Placement
begin

text \<open>
  Building a pipeline: \<open>Pipe.add\<close> of \<^verbatim>\<open>src/pipe/pipe.py\<close>, which checks the options of a stage and
  appends its job, and the planning part of \<open>LifecycleMixin.start\<close> of
  \<^verbatim>\<open>src/pipe/lifecycle.py\<close>, which checks the drain flags, sizes the edges and decides which
  processes a stage gets. Every \<open>raise\<close> is a value of an error type; the numbers of GPUs and CPUs
  of the machine are arguments. A job keeps the fields the planning reads: the stage's function, and
  \<open>pergpu\<close>, \<open>gpu_id\<close> and \<open>is_gpu_stage\<close>, which are only stored after the device pool is decided, are left
  out.
\<close>

section \<open>Stages\<close>

datatype threads_arg = ThreadsBool bool | ThreadsInt int | ThreadsOther

record add_args =
  aa_name :: string
  aa_workers :: int
  aa_outqn :: "int option"
  aa_pergpu :: bool
  aa_thread :: bool
  aa_gpu_id :: "int option"
  aa_gpus :: "int list option"
  aa_cpus :: "int list option"
  aa_cpu_threads :: "threads_arg option"
  aa_batch :: int
  aa_drain :: bool
  aa_chunk :: "int option"
  aa_chunk_ms :: real
  aa_scavenge :: bool
  aa_hang_timeout :: "real option"
  aa_on_park :: bool

record job =
  j_name :: string
  j_outqn :: "int option"
  j_num_workers :: int
  j_thread :: bool
  j_gpus :: "int list option"
  j_cpus :: "int list option"
  j_cpu_threads :: "int option"
  j_scavenge :: bool
  j_hang_timeout :: "real option"
  j_batch :: int
  j_drain :: bool
  j_chunk :: "int option"
  j_chunk_ms :: real
  j_on_park :: bool

datatype add_error =
    ScavengeThread | ScavengeRoot | HangThread | HangRoot | HangNotPositive
  | GpusEmpty | BadGpus "int list" | CpusEmpty | BadCpus "int list" | BadCpuThreads

section \<open>Adding a stage\<close>

definition check_scavenge :: "bool \<Rightarrow> add_args \<Rightarrow> add_error option" where
  "check_scavenge is_root a =
     (if aa_scavenge a then if aa_thread a then Some ScavengeThread else if is_root then Some ScavengeRoot else None
      else None)"

definition check_hang :: "bool \<Rightarrow> add_args \<Rightarrow> add_error option" where
  "check_hang is_root a =
     (case aa_hang_timeout a of
        None \<Rightarrow> None
      | Some t \<Rightarrow> if aa_thread a then Some HangThread else if is_root then Some HangRoot
                  else if t \<le> 0 then Some HangNotPositive else None)"

text \<open>\<open>sorted({x for x in xs if x < 0 or x >= n})\<close>\<close>

definition out_of_range :: "int \<Rightarrow> int list \<Rightarrow> int list" where
  "out_of_range n xs = sort (remdups (filter (\<lambda>x. x < 0 \<or> n \<le> x) xs))"

definition resolve_gpus :: "int \<Rightarrow> bool \<Rightarrow> add_args \<Rightarrow> add_error + int list option" where
  "resolve_gpus device_count pergpu a =
     (let gpu_count = (if aa_gpus a \<noteq> None \<or> pergpu \<or> aa_gpu_id a \<noteq> None then device_count else 0);
          pool = (case aa_gpus a of
              Some gs \<Rightarrow> if gs = [] then Inl GpusEmpty else Inr (Some gs)
            | None \<Rightarrow>
                if pergpu then Inr (if 0 < gpu_count then Some [0..gpu_count - 1] else None)
                else Inr (map_option (\<lambda>g. [g]) (aa_gpu_id a)))
      in case pool of
           Inl e \<Rightarrow> Inl e
         | Inr None \<Rightarrow> Inr None
         | Inr (Some gs) \<Rightarrow>
             if out_of_range gpu_count gs \<noteq> [] then Inl (BadGpus (out_of_range gpu_count gs)) else Inr (Some gs))"

definition check_cpus :: "int \<Rightarrow> add_args \<Rightarrow> add_error option" where
  "check_cpus ncpu a =
     (case aa_cpus a of
        None \<Rightarrow> None
      | Some cs \<Rightarrow> if cs = [] then Some CpusEmpty
                   else if out_of_range ncpu cs \<noteq> [] then Some (BadCpus (out_of_range ncpu cs)) else None)"

definition check_cpu_threads :: "add_args \<Rightarrow> add_error + int option" where
  "check_cpu_threads a =
     (case aa_cpu_threads a of
        None \<Rightarrow> Inr None
      | Some (ThreadsInt n) \<Rightarrow> if n < 1 then Inl BadCpuThreads else Inr (Some n)
      | Some _ \<Rightarrow> Inl BadCpuThreads)"

definition new_job :: "int \<Rightarrow> int list option \<Rightarrow> int option \<Rightarrow> add_args \<Rightarrow> job" where
  "new_job workers gpu_list threads a =
     \<lparr>j_name = aa_name a, j_outqn = aa_outqn a,
      j_num_workers = (case gpu_list of Some gs \<Rightarrow> workers * int (length gs) | None \<Rightarrow> workers),
      j_thread = aa_thread a, j_gpus = gpu_list, j_cpus = aa_cpus a, j_cpu_threads = threads,
      j_scavenge = (aa_scavenge a \<and> gpu_list \<noteq> None), j_hang_timeout = aa_hang_timeout a,
      j_batch = aa_batch a, j_drain = aa_drain a, j_chunk = aa_chunk a, j_chunk_ms = aa_chunk_ms a,
      j_on_park = aa_on_park a\<rparr>"

definition add :: "int \<Rightarrow> int \<Rightarrow> add_args \<Rightarrow> job list \<Rightarrow> add_error + job list" where
  "add device_count ncpu a jobs =
     (let is_root = (jobs = []);
          clamp = is_root \<and> (1 < aa_workers a \<or> aa_pergpu a);
          workers = (if clamp then 1 else aa_workers a);
          pergpu = (aa_pergpu a \<and> \<not> clamp)
      in case check_scavenge is_root a of Some e \<Rightarrow> Inl e
       | None \<Rightarrow> (case check_hang is_root a of Some e \<Rightarrow> Inl e
       | None \<Rightarrow> (case resolve_gpus device_count pergpu a of Inl e \<Rightarrow> Inl e
       | Inr gpu_list \<Rightarrow> (case check_cpus ncpu a of Some e \<Rightarrow> Inl e
       | None \<Rightarrow> (case check_cpu_threads a of Inl e \<Rightarrow> Inl e
       | Inr threads \<Rightarrow> Inr (jobs @ [new_job workers gpu_list threads a]))))))"

text \<open>What every accepted stage satisfies on a machine with the given devices.\<close>

definition job_ok :: "int \<Rightarrow> int \<Rightarrow> bool \<Rightarrow> job \<Rightarrow> bool" where
  "job_ok device_count ncpu is_root j \<longleftrightarrow>
     (\<forall>gs. j_gpus j = Some gs \<longrightarrow> gs \<noteq> [] \<and> (\<forall>g \<in> set gs. 0 \<le> g \<and> g < device_count))
   \<and> (\<forall>cs. j_cpus j = Some cs \<longrightarrow> cs \<noteq> [] \<and> (\<forall>c \<in> set cs. 0 \<le> c \<and> c < ncpu))
   \<and> (\<forall>n. j_cpu_threads j = Some n \<longrightarrow> 1 \<le> n)
   \<and> (j_scavenge j \<longrightarrow> j_gpus j \<noteq> None \<and> \<not> j_thread j \<and> \<not> is_root)
   \<and> (\<forall>t. j_hang_timeout j = Some t \<longrightarrow> 0 < t \<and> \<not> j_thread j \<and> \<not> is_root)"

lemma out_of_range_Nil: "out_of_range n xs = [] \<longleftrightarrow> (\<forall>x \<in> set xs. 0 \<le> x \<and> x < n)"
proof -
  have "out_of_range n xs = [] \<longleftrightarrow> set (out_of_range n xs) = {}" by simp
  also have "\<dots> \<longleftrightarrow> (\<forall>x \<in> set xs. 0 \<le> x \<and> x < n)" by (auto simp: out_of_range_def)
  finally show ?thesis .
qed

lemma resolve_gpus_ok:
  assumes "resolve_gpus n pergpu a = Inr (Some gs)"
  shows "gs \<noteq> [] \<and> (\<forall>g \<in> set gs. 0 \<le> g \<and> g < n)"
proof -
  have "gs \<noteq> []" using assms
    by (auto simp: resolve_gpus_def Let_def split: option.splits if_splits)
  moreover have "out_of_range (if aa_gpus a \<noteq> None \<or> pergpu \<or> aa_gpu_id a \<noteq> None then n else 0) gs = []"
    using assms by (auto simp: resolve_gpus_def Let_def split: option.splits sum.splits if_splits)
  ultimately show ?thesis by (auto simp: out_of_range_Nil split: if_splits)
qed

lemma add_Inr:
  assumes "add device_count ncpu a jobs = Inr jobs'"
  obtains gpu_list threads where "check_scavenge (jobs = []) a = None" and "check_hang (jobs = []) a = None"
    and "resolve_gpus device_count (aa_pergpu a \<and> jobs \<noteq> []) a = Inr gpu_list"
    and "check_cpus ncpu a = None" and "check_cpu_threads a = Inr threads"
    and "jobs' = jobs @ [new_job (if jobs = [] \<and> (1 < aa_workers a \<or> aa_pergpu a) then 1 else aa_workers a) gpu_list threads a]"
proof -
  have p: "(aa_pergpu a \<and> \<not> (jobs = [] \<and> (1 < aa_workers a \<or> aa_pergpu a))) = (aa_pergpu a \<and> jobs \<noteq> [])" by auto
  note A = assms [unfolded add_def Let_def p]
  from A obtain "check_scavenge (jobs = []) a = None" by (cases "check_scavenge (jobs = []) a") auto
  moreover from A this obtain "check_hang (jobs = []) a = None" by (cases "check_hang (jobs = []) a") auto
  moreover from A calculation obtain g where "resolve_gpus device_count (aa_pergpu a \<and> jobs \<noteq> []) a = Inr g"
    by (cases "resolve_gpus device_count (aa_pergpu a \<and> jobs \<noteq> []) a") auto
  moreover from A calculation obtain "check_cpus ncpu a = None" by (cases "check_cpus ncpu a") auto
  moreover from A calculation obtain t where "check_cpu_threads a = Inr t" by (cases "check_cpu_threads a") auto
  moreover from A calculation have
    "jobs' = jobs @ [new_job (if jobs = [] \<and> (1 < aa_workers a \<or> aa_pergpu a) then 1 else aa_workers a) g t a]"
    by simp
  ultimately show ?thesis by (rule that)
qed

text \<open>
  C31: \<open>add\<close> either refuses the stage and changes nothing, or appends one job all of whose GPUs and
  CPUs exist, whose thread count is positive, which scavenges only with a GPU pool, in processes and
  not at the root, and whose hang timeout is positive and neither on threads nor at the root; its
  worker count is the requested number per GPU of its pool.
\<close>

theorem add_sound:
  assumes "add device_count ncpu a jobs = Inr jobs'"
  shows "\<exists>j. jobs' = jobs @ [j] \<and> job_ok device_count ncpu (jobs = []) j
    \<and> (jobs \<noteq> [] \<longrightarrow> j_num_workers j = aa_workers a * (case j_gpus j of Some gs \<Rightarrow> int (length gs) | None \<Rightarrow> 1))"
  using assms
proof (rule add_Inr)
  fix gpu_list threads
  let ?j = "new_job (if jobs = [] \<and> (1 < aa_workers a \<or> aa_pergpu a) then 1 else aa_workers a) gpu_list threads a"
  assume A: "check_scavenge (jobs = []) a = None" "check_hang (jobs = []) a = None"
       "resolve_gpus device_count (aa_pergpu a \<and> jobs \<noteq> []) a = Inr gpu_list"
       "check_cpus ncpu a = None" "check_cpu_threads a = Inr threads" and J: "jobs' = jobs @ [?j]"
  have "\<forall>gs. gpu_list = Some gs \<longrightarrow> gs \<noteq> [] \<and> (\<forall>g \<in> set gs. 0 \<le> g \<and> g < device_count)"
    using A(3) resolve_gpus_ok [of device_count "aa_pergpu a \<and> jobs \<noteq> []" a] by simp
  moreover have "\<forall>cs. aa_cpus a = Some cs \<longrightarrow> cs \<noteq> [] \<and> (\<forall>c \<in> set cs. 0 \<le> c \<and> c < ncpu)"
    using A(4) by (auto simp: check_cpus_def out_of_range_Nil split: if_splits)
  moreover have "\<forall>n. threads = Some n \<longrightarrow> 1 \<le> n"
    using A(5) by (auto simp: check_cpu_threads_def split: option.splits threads_arg.splits if_splits)
  moreover have "aa_scavenge a \<longrightarrow> \<not> aa_thread a \<and> jobs \<noteq> []"
    using A(1) by (auto simp: check_scavenge_def split: if_splits)
  moreover have "\<forall>t. aa_hang_timeout a = Some t \<longrightarrow> 0 < t \<and> \<not> aa_thread a \<and> jobs \<noteq> []"
    using A(2) by (auto simp: check_hang_def split: if_splits)
  ultimately have "job_ok device_count ncpu (jobs = []) ?j"
    by (simp add: job_ok_def new_job_def)
  then show ?thesis using J by (intro exI [of _ ?j]) (auto simp: new_job_def split: option.splits)
qed

definition sample_args :: add_args where
  "sample_args = \<lparr>aa_name = ''src'', aa_workers = 3, aa_outqn = Some 64, aa_pergpu = False, aa_thread = False,
     aa_gpu_id = None, aa_gpus = None, aa_cpus = None, aa_cpu_threads = None, aa_batch = 0, aa_drain = True,
     aa_chunk = None, aa_chunk_ms = 10, aa_scavenge = False, aa_hang_timeout = None, aa_on_park = False\<rparr>"

lemmas add_eval = add_def new_job_def check_scavenge_def check_hang_def resolve_gpus_def check_cpus_def check_cpu_threads_def
  out_of_range_def sample_args_def Let_def

theorem add_sound_witness:
  "\<exists>j. add 4 8 (sample_args\<lparr>aa_gpus := Some [1, 3], aa_scavenge := True\<rparr>) [undefined] = Inr [undefined, j]
     \<and> job_ok 4 8 False j \<and> j_num_workers j = 6"
proof -
  obtain jobs' where r: "add 4 8 (sample_args\<lparr>aa_gpus := Some [1, 3], aa_scavenge := True\<rparr>) [undefined] = Inr jobs'"
    by (simp add: add_eval)
  from add_sound [OF r] obtain j where j: "jobs' = [undefined] @ [j]" "job_ok 4 8 False j"
    "j_num_workers j = 3 * (case j_gpus j of Some gs \<Rightarrow> int (length gs) | None \<Rightarrow> 1)"
    by (auto simp: sample_args_def)
  moreover have "j_gpus j = Some [1, 3]" using r j(1) by (auto simp: add_eval)
  ultimately show ?thesis using r by auto
qed

text \<open>
  The clamp of the root stage does not cover an explicit pool. A root stage asked for with
  several workers or \<open>pergpu\<close> and no explicit GPUs gets exactly one worker, because every root worker
  runs the source independently and would duplicate the stream; but a root stage with an explicit
  list of \<open>k\<close> GPUs gets \<open>k\<close> workers.
\<close>

theorem root_clamp_and_its_gap:
  assumes "add device_count ncpu a [] = Inr [j]" and "1 < aa_workers a \<or> aa_pergpu a"
  shows "j_num_workers j = (case aa_gpus a of Some gs \<Rightarrow> int (length gs) | None \<Rightarrow> 1)"
  using assms(1)
proof (rule add_Inr)
  fix gpu_list threads
  assume "resolve_gpus device_count (aa_pergpu a \<and> [] \<noteq> []) a = Inr gpu_list"
    and "[j] = [] @ [new_job (if [] = [] \<and> (1 < aa_workers a \<or> aa_pergpu a) then 1 else aa_workers a) gpu_list threads a]"
  then show ?thesis using assms(2)
    by (auto simp: new_job_def resolve_gpus_def Let_def split: option.splits if_splits)
qed

theorem root_clamp_and_its_gap_witness:
  "(\<exists>j. add 4 8 (sample_args\<lparr>aa_gpus := Some [0, 1]\<rparr>) [] = Inr [j] \<and> j_num_workers j = 2)
   \<and> (\<exists>j. add 4 8 sample_args [] = Inr [j] \<and> j_num_workers j = 1)"
proof -
  obtain j where j: "add 4 8 (sample_args\<lparr>aa_gpus := Some [0, 1]\<rparr>) [] = Inr [j]" by (simp add: add_eval)
  obtain k where k: "add 4 8 sample_args [] = Inr [k]" by (simp add: add_eval)
  show ?thesis
    using root_clamp_and_its_gap [OF j] root_clamp_and_its_gap [OF k] j k by (auto simp: sample_args_def)
qed

end
