(* ===== verification/Pipe_Plan.thy ===== *)
theory Pipe_Plan
  imports Pipe_Config
begin

text \<open>
  What \<open>LifecycleMixin.start\<close> (\<^verbatim>\<open>src/pipe/lifecycle.py\<close>) makes of the jobs: the check of the drain
  flags, the chunk size and capacity of every edge, the number of workers each stage counts on, and
  the processes it spawns with their identifiers and placement. Worker identifiers are what the rest
  of the system keys its tables with and what the statistics parse the stage from
  (\<^verbatim>\<open>src/pipe/monitors.py\<close>).
\<close>

section \<open>Decimal numbers in identifiers\<close>

definition is_digit :: "char \<Rightarrow> bool" where
  "is_digit c \<longleftrightarrow> 48 \<le> (of_char c :: nat) \<and> (of_char c :: nat) \<le> 57"

definition str_nat :: "string \<Rightarrow> nat" where
  "str_nat s = fold (\<lambda>c n. n * 10 + (of_char c - 48)) s 0"

lemma nat_str_digits: "list_all is_digit (nat_str n) \<and> nat_str n \<noteq> []"
proof (induction n rule: nat_str.induct)
  case (1 n)
  have "n < 10 \<Longrightarrow> is_digit (char_of (48 + n))" and "is_digit (char_of (48 + n mod 10))"
    by (simp_all add: is_digit_def)
  with 1 show ?case by (subst (1 2) nat_str.simps) auto
qed

lemma str_nat_str [simp]: "str_nat (nat_str n) = n"
proof (induction n rule: nat_str.induct)
  case (1 n)
  show ?case
  proof (cases "n < 10")
    case True
    then show ?thesis by (subst nat_str.simps) (simp add: str_nat_def)
  next
    case False
    with 1 show ?thesis by (subst nat_str.simps) (simp add: str_nat_def)
  qed
qed

lemma nat_str_inj: "nat_str m = nat_str n \<longleftrightarrow> m = n"
  by (metis str_nat_str)

lemma digits_no_underscore: "list_all is_digit s \<Longrightarrow> CHR ''_'' \<notin> set s"
  by (auto simp: list_all_iff is_digit_def)

lemma nat_str_no_underscore: "CHR ''_'' \<notin> set (nat_str n)"
  using nat_str_digits digits_no_underscore by blast

section \<open>The drain flags\<close>

text \<open>The root stops on drain; a stage that stops must not follow one that drains.\<close>

datatype start_error = NoWorkers | DrainNotPrefix nat

fun drain_scan :: "bool \<Rightarrow> nat \<Rightarrow> bool list \<Rightarrow> nat option" where
  "drain_scan seen i [] = None"
| "drain_scan seen i (d # ds) =
     (if d then drain_scan True (Suc i) ds else if seen then Some i else drain_scan seen (Suc i) ds)"

definition start_check :: "job list \<Rightarrow> start_error + job list" where
  "start_check jobs =
     (case jobs of
        [] \<Rightarrow> Inl NoWorkers
      | j # js \<Rightarrow>
          let jobs1 = j\<lparr>j_drain := False\<rparr> # js in
          (case drain_scan False 0 (map j_drain jobs1) of
             Some i \<Rightarrow> Inl (DrainNotPrefix i)
           | None \<Rightarrow> Inr jobs1))"

lemma drain_scan_sorted:
  "drain_scan seen i ds = None \<longleftrightarrow> sorted ds \<and> (seen \<longrightarrow> list_all id ds)"
  by (induction ds arbitrary: seen i) (auto simp: list_all_iff)

text \<open>
  A pipeline starts exactly when it has a stage and no stage that stops on drain comes after one
  that drains: a drain then stops a prefix of the pipeline (the root always among it) and every later
  stage finishes what is in flight.
\<close>

theorem start_check_prefix:
  "(\<exists>jobs'. start_check (j # js) = Inr jobs') \<longleftrightarrow>
     (\<forall>a b. a < b \<and> b < length js \<and> j_drain (js ! a) \<longrightarrow> j_drain (js ! b))"
proof -
  have "(\<exists>jobs'. start_check (j # js) = Inr jobs') \<longleftrightarrow> drain_scan False 0 (False # map j_drain js) = None"
    by (auto simp: start_check_def Let_def split: option.splits)
  also have "\<dots> \<longleftrightarrow> sorted (map j_drain js)" by (simp add: drain_scan_sorted)
  also have "\<dots> \<longleftrightarrow> (\<forall>a b. a < b \<and> b < length js \<and> j_drain (js ! a) \<longrightarrow> j_drain (js ! b))"
    by (auto simp: sorted_iff_nth_mono_less)
  finally show ?thesis .
qed

definition sample_job :: "bool \<Rightarrow> job" where
  "sample_job d = \<lparr>j_name = ''s'', j_outqn = None, j_num_workers = 2, j_thread = False, j_gpus = Some [0, 1], j_cpus = None,
     j_cpu_threads = None, j_scavenge = True, j_hang_timeout = None, j_batch = 0, j_drain = d, j_chunk = None,
     j_chunk_ms = 10, j_on_park = True\<rparr>"

theorem start_check_prefix_witness:
  "(\<exists>jobs'. start_check [sample_job True, sample_job False, sample_job True] = Inr jobs')
   \<and> \<not> (\<exists>jobs'. start_check [sample_job True, sample_job True, sample_job False] = Inr jobs')"
proof -
  have 1: "j_drain ([sample_job False, sample_job True] ! b)" if "b < 2" "a < b" for a b :: nat
    using that by (cases b) (auto simp: sample_job_def)
  have 2: "j_drain ([sample_job True, sample_job False] ! 0)" "\<not> j_drain ([sample_job True, sample_job False] ! 1)"
    by (simp_all add: sample_job_def)
  show ?thesis
    using start_check_prefix [of "sample_job True" "[sample_job False, sample_job True]"] 1
      start_check_prefix [of "sample_job True" "[sample_job True, sample_job False]"] 2
    by (metis One_nat_def length_Cons lessI list.size(3) numeral_2_eq_2 zero_less_Suc)
qed

section \<open>Edges\<close>

text \<open>The chunk size of a stage's output edge, from its own option or the next stage's batch.\<close>

definition chunk_eff :: "job \<Rightarrow> job option \<Rightarrow> int" where
  "chunk_eff j next_job =
     (case j_chunk j of
        Some c \<Rightarrow> max 0 c
      | None \<Rightarrow> (case next_job of Some n \<Rightarrow> if 1 < j_batch n then j_batch n else 0 | None \<Rightarrow> 0))"

text \<open>The number of queue slots for a capacity given in items; \<open>None\<close> and 0 are unbounded.\<close>

definition outq_size :: "int option \<Rightarrow> int \<Rightarrow> int" where
  "outq_size outqn chunk =
     (let size = (case outqn of None \<Rightarrow> 0 | Some n \<Rightarrow> n) in
      if size \<noteq> 0 \<and> 1 < chunk then max 1 (size div chunk) else size)"

text \<open>
  Chunking keeps an edge's capacity in items. With a bound of \<open>n\<close> items and chunks of \<open>c\<close>, the
  slots hold no more than \<open>n\<close> items (or one chunk, if a chunk is larger than the bound) and fall
  short of \<open>n\<close> by less than a chunk; without a bound the edge stays unbounded, without chunks it is
  unchanged.
\<close>

theorem outq_size_items:
  assumes "0 < n" and "0 \<le> c"
  shows "(1 < c \<longrightarrow> outq_size (Some n) c * c \<le> max n c \<and> n < (outq_size (Some n) c + 1) * c \<and> 1 \<le> outq_size (Some n) c)
    \<and> outq_size None c = 0 \<and> outq_size (Some 0) c = 0 \<and> (c \<le> 1 \<longrightarrow> outq_size (Some n) c = n)"
proof -
  have "outq_size (Some n) c * c \<le> max n c \<and> n < (outq_size (Some n) c + 1) * c \<and> 1 \<le> outq_size (Some n) c" if c: "1 < c"
  proof (cases "n < c")
    case True
    then show ?thesis using assms c by (simp add: outq_size_def)
  next
    case False
    then have "1 \<le> n div c" using c by (simp add: pos_imp_zdiv_pos_iff int_one_le_iff_zero_less)
    moreover have "n div c * c \<le> n" "n < n div c * c + c"
      using c pos_mod_sign [of c n] pos_mod_bound [of c n] div_mult_mod_eq [of n c] by linarith+
    moreover have "outq_size (Some n) c = n div c" using calculation assms c by (simp add: outq_size_def)
    ultimately show ?thesis by (simp add: distrib_right max.coboundedI1)
  qed
  with assms show ?thesis by (auto simp: outq_size_def)
qed

theorem outq_size_items_witness: "outq_size (Some 100) 16 * 16 \<le> 100 \<and> 100 < (outq_size (Some 100) 16 + 1) * 16"
  using outq_size_items [of 100 16] by simp

section \<open>Processes\<close>

datatype target = WorkerRun | ThreadedWorkerRun

record spawn =
  sp_target :: target
  sp_id :: string
  sp_stage :: nat
  sp_gpu :: "int option"
  sp_num_threads :: int
  sp_affinity :: "int list option"
  sp_hold :: "bool option"
  sp_park :: "int option"
  sp_hang :: "real option"

text \<open>How many finishers a stage waits for.\<close>

definition worker_count :: "job \<Rightarrow> int" where
  "worker_count j = (if j_thread j \<and> (j_gpus j = None \<or> j_gpus j = Some []) then 1 else j_num_workers j)"

definition gpu_of :: "job \<Rightarrow> nat \<Rightarrow> int option" where
  "gpu_of j w = (case j_gpus j of None \<Rightarrow> None | Some [] \<Rightarrow> None | Some gs \<Rightarrow> Some (gs ! (w mod length gs)))"

definition affinity_of :: "job \<Rightarrow> nat \<Rightarrow> int list option" where
  "affinity_of j w = (case cpu_chunk (j_cpus j) w (nat (j_num_workers j)) of Inr c \<Rightarrow> c | Inl _ \<Rightarrow> None)"

definition worker_id :: "nat \<Rightarrow> nat \<Rightarrow> int option \<Rightarrow> string" where
  "worker_id i w gpu =
     ''stage_'' @ nat_str i @ ''_worker_'' @ nat_str w @ (case gpu of None \<Rightarrow> '''' | Some g \<Rightarrow> ''_gpu_'' @ int_str g)"

definition threaded_gpu_id :: "nat \<Rightarrow> nat \<Rightarrow> int \<Rightarrow> string" where
  "threaded_gpu_id i w g = ''stage_'' @ nat_str i @ ''_threaded_worker_'' @ nat_str w @ ''_gpu_'' @ int_str g"

definition threaded_id :: "nat \<Rightarrow> int \<Rightarrow> string" where
  "threaded_id i n = ''stage_'' @ nat_str i @ ''_threaded_'' @ int_str n @ ''threads''"

definition spawn_plan :: "(int \<Rightarrow> int) \<Rightarrow> int set \<Rightarrow> nat \<Rightarrow> job \<Rightarrow> spawn list" where
  "spawn_plan physical busy i j =
     (if j_thread j then
        (case j_gpus j of
           Some (g # gs) \<Rightarrow>
             map (\<lambda>w. \<lparr>sp_target = ThreadedWorkerRun,
                 sp_id = threaded_gpu_id i w ((g # gs) ! (w mod length (g # gs))), sp_stage = i,
                 sp_gpu = Some ((g # gs) ! (w mod length (g # gs))), sp_num_threads = 1, sp_affinity = affinity_of j w,
                 sp_hold = None, sp_park = None, sp_hang = None\<rparr>) [0..<nat (j_num_workers j)]
         | _ \<Rightarrow>
             [\<lparr>sp_target = ThreadedWorkerRun, sp_id = threaded_id i (j_num_workers j), sp_stage = i, sp_gpu = None,
               sp_num_threads = j_num_workers j, sp_affinity = j_cpus j, sp_hold = None, sp_park = None, sp_hang = None\<rparr>])
      else
        map (\<lambda>w.
          let gpu = gpu_of j w;
              scav = (case gpu of Some g \<Rightarrow> j_scavenge j | None \<Rightarrow> False)
          in \<lparr>sp_target = WorkerRun, sp_id = worker_id i w gpu, sp_stage = i, sp_gpu = gpu, sp_num_threads = 1,
              sp_affinity = affinity_of j w,
              sp_hold = (if scav then Some (physical (the gpu) \<in> busy) else None),
              sp_park = (if scav \<and> j_on_park j then Some 0 else None),
              sp_hang = (case j_hang_timeout j of Some t \<Rightarrow> if t \<noteq> 0 then Some t else None | None \<Rightarrow> None)\<rparr>)
          [0..<nat (j_num_workers j)])"

definition start_plan :: "(int \<Rightarrow> int) \<Rightarrow> int set \<Rightarrow> job list \<Rightarrow> spawn list" where
  "start_plan physical busy jobs = concat (map (\<lambda>(i, j). spawn_plan physical busy i j) (enumerate 0 jobs))"

text \<open>\<open>re.match(r"stage_(\d+)", worker_id)\<close> in the statistics.\<close>

definition stage_of_id :: "string \<Rightarrow> int" where
  "stage_of_id s =
     (if take 6 s = ''stage_'' \<and> takeWhile is_digit (drop 6 s) \<noteq> []
      then int (str_nat (takeWhile is_digit (drop 6 s))) else -1)"

lemma digits_then:
  assumes "s = [] \<or> \<not> is_digit (hd s)"
  shows "takeWhile is_digit (nat_str n @ s) = nat_str n"
proof -
  have "\<forall>x \<in> set (nat_str n). is_digit x" using nat_str_digits by (simp add: list_all_iff)
  then show ?thesis using assms by (cases s) (auto simp: takeWhile_append2)
qed

lemma stage_of_ids [simp]:
  "stage_of_id (worker_id i w gpu) = int i" "stage_of_id (threaded_gpu_id i w g) = int i" "stage_of_id (threaded_id i n) = int i"
  using nat_str_digits [of i]
  by (simp_all add: stage_of_id_def worker_id_def threaded_gpu_id_def threaded_id_def
      digits_then is_digit_def)

lemma worker_index_inj:
  assumes "nat_str w @ s = nat_str w' @ s'" and "s = [] \<or> \<not> is_digit (hd s)" and "s' = [] \<or> \<not> is_digit (hd s')"
  shows "w = w'"
  using digits_then [OF assms(2), of w] digits_then [OF assms(3), of w'] assms(1) by (metis nat_str_inj)

lemma worker_id_inj: "worker_id i w g = worker_id i w' g' \<Longrightarrow> w = w'"
  by (rule worker_index_inj) (auto simp: worker_id_def is_digit_def split: option.splits)

lemma threaded_gpu_id_inj: "threaded_gpu_id i w g = threaded_gpu_id i w' g' \<Longrightarrow> w = w'"
  by (rule worker_index_inj) (auto simp: threaded_gpu_id_def is_digit_def)

lemma spawn_plan_distinct: "distinct (map sp_id (spawn_plan physical busy i j))"
  by (auto simp: spawn_plan_def distinct_map inj_on_def Let_def dest: worker_id_inj threaded_gpu_id_inj
           split: option.splits list.splits)

lemma spawn_plan_stage:
  "sp \<in> set (spawn_plan physical busy i j) \<Longrightarrow> stage_of_id (sp_id sp) = int i \<and> sp_stage sp = i"
  by (auto simp: spawn_plan_def Let_def split: if_splits option.splits list.splits)

lemma start_plan_from:
  "distinct (map sp_id (concat (map (\<lambda>(i, j). spawn_plan physical busy i j) (enumerate k jobs))))
   \<and> (\<forall>sp \<in> set (concat (map (\<lambda>(i, j). spawn_plan physical busy i j) (enumerate k jobs))).
        int k \<le> stage_of_id (sp_id sp) \<and> stage_of_id (sp_id sp) = int (sp_stage sp))"
proof (induction jobs arbitrary: k)
  case (Cons j jobs)
  show ?case
    using Cons.IH [of "Suc k"] spawn_plan_distinct [of physical busy k j]
      spawn_plan_stage [of _ physical busy k j] by fastforce
qed simp

text \<open>
  Every process a pipeline starts has its own identifier, and the statistics read its stage back
  from it; so the tables keyed by worker identifier (restart configuration, timing, hang watch) never
  mix two workers up.
\<close>

theorem worker_ids_unique:
  "distinct (map sp_id (start_plan physical busy jobs))
   \<and> (\<forall>sp. sp \<in> set (start_plan physical busy jobs) \<longrightarrow> stage_of_id (sp_id sp) = int (sp_stage sp))"
  using start_plan_from [of physical busy 0 jobs] unfolding start_plan_def by blast

theorem worker_ids_unique_witness:
  "map sp_id (start_plan id {} [sample_job True, sample_job False]) =
     [''stage_0_worker_0_gpu_0'', ''stage_0_worker_1_gpu_1'', ''stage_1_worker_0_gpu_0'', ''stage_1_worker_1_gpu_1'']
   \<and> distinct (map sp_id (start_plan id {} [sample_job True, sample_job False]))"
proof -
  have "map sp_id (start_plan id {} [sample_job True, sample_job False]) =
     [''stage_0_worker_0_gpu_0'', ''stage_0_worker_1_gpu_1'', ''stage_1_worker_0_gpu_0'', ''stage_1_worker_1_gpu_1'']"
    by code_simp
  with worker_ids_unique [of id "{}" "[sample_job True, sample_job False]"] show ?thesis by blast
qed

text \<open>
  The number of finishers a stage waits for is the number of processes spawned for it, in every
  shape of stage, so the last of them to finish ends the stage; its GPU workers get the GPUs of the
  stage's pool round robin, a scavenge worker starts held exactly when its GPU is busy, and only
  scavenge workers carry a hold.
\<close>

theorem spawn_plan_counts:
  assumes "0 \<le> j_num_workers j" and "j_gpus j \<noteq> Some []"
  shows "int (length (spawn_plan physical busy i j)) = worker_count j
    \<and> (\<forall>gs w. j_gpus j = Some gs \<and> w < length (spawn_plan physical busy i j) \<longrightarrow>
          sp_gpu (spawn_plan physical busy i j ! w) = Some (gs ! (w mod length gs)))
    \<and> (\<forall>sp \<in> set (spawn_plan physical busy i j).
          (sp_hold sp \<noteq> None \<longleftrightarrow> j_scavenge j \<and> \<not> j_thread j \<and> j_gpus j \<noteq> None)
          \<and> (\<forall>g h. sp_gpu sp = Some g \<and> sp_hold sp = Some h \<longrightarrow> (h \<longleftrightarrow> physical g \<in> busy)))"
proof (cases "j_gpus j")
  case None
  then show ?thesis
    using assms(1) by (auto simp: spawn_plan_def worker_count_def gpu_of_def Let_def)
next
  case (Some gs)
  with assms(2) obtain a as where gs: "gs = a # as" by (cases gs) auto
  show ?thesis
    using assms(1) Some gs by (auto simp: spawn_plan_def worker_count_def gpu_of_def Let_def)
qed

theorem spawn_plan_counts_witness:
  "int (length (spawn_plan id {1} 0 (sample_job True))) = worker_count (sample_job True)
   \<and> map sp_hold (spawn_plan id {1} 0 (sample_job True)) = [Some False, Some True]"
proof -
  have "map sp_hold (spawn_plan id {1} 0 (sample_job True)) = [Some False, Some True]" by code_simp
  with spawn_plan_counts [of "sample_job True" id "{1}" 0] show ?thesis by (simp add: sample_job_def)
qed

end
