(* ===== verification/Pipe_Autoscale.thy ===== *)
theory Pipe_Autoscale
  imports Pipe_Lifecycle Pipe_Plan
begin

text \<open>
  The queue-pressure autoscaler kept under \<^verbatim>\<open>src/pipe/_planned/autoscale.py\<close>: the decision it takes
  for one stage per tick, spawning and stopping a worker, and the tick over all stages. Nothing of
  the live pipeline calls it. The theory shows the bounds it keeps, the cooldown, and where its
  counters of pressure samples do not count consecutive samples.
\<close>

section \<open>State\<close>

text \<open>
  The stages as the autoscaler sees them: the job's switches and options (\<open>None\<close>: not in the job's
  dictionary; \<open>aj_name\<close> is the name of the stage's function), the shared counters, the queues with
  their fill (\<open>_maxsize\<close> missing: no bound), the number of done events, and the tables of processes.
  A worker it spawns is registered with the tuple of its arguments under \<open>"args"\<close>, apart from the
  configurations \<open>_restart_worker\<close> reads. Of the arguments, those that are not the same shared object
  for every worker are kept: queues and events by their index.
\<close>

record as_job =
  aj_autoscale :: bool
  aj_max :: "int option"
  aj_min :: "int option"
  aj_name :: string
  aj_thread :: bool
  aj_num_workers :: "nat option"
  aj_batch :: "int option"
  aj_drain :: "bool option"
  aj_cpus :: "int list option"
  aj_cpu_threads :: "int option"
  aj_chunk_eff :: "int option"
  aj_chunk_ms :: "real option"

record as_args =
  ag_target :: target
  ag_in :: "nat option"
  ag_out :: "nat option"
  ag_id :: string
  ag_threads :: "nat option"
  ag_final :: bool
  ag_upstream_done :: "nat option"
  ag_stage_done :: nat
  ag_batch :: int
  ag_drain :: bool
  ag_affinity :: "int list option"
  ag_cpu_threads :: "int option"
  ag_chunk :: int
  ag_chunk_ms :: real

record as_queue =
  aq_size :: int
  aq_maxsize :: "int option"
  aq_room :: bool
  aq_stops :: nat

record as_pipe =
  ap_jobs :: "as_job list"
  ap_counts :: "int list"
  ap_ends :: "int list"
  ap_spawned :: "nat list"
  ap_queues :: "as_queue list"
  ap_events :: nat
  ap_table :: proc_table
  ap_args :: "string \<rightharpoonup> as_args"

record as_params =
  up_threshold :: real
  down_threshold :: real
  up_samples :: nat
  down_samples :: nat
  cooldown_seconds :: real
  cpu_limit :: real

text \<open>The thread's own state: pressure counters, last scaling per stage, the CPU counters last read.\<close>

record as_thread =
  th_high :: "nat \<Rightarrow> nat"
  th_low :: "nat \<Rightarrow> nat"
  th_last :: "nat \<rightharpoonup> real"
  th_cpu :: "(int \<times> int) option"
  th_saturated :: bool

definition default_params :: as_params where
  "default_params = \<lparr>up_threshold = 4 / 5, down_threshold = 1 / 5, up_samples = 3, down_samples = 5,
     cooldown_seconds = 3, cpu_limit = 17 / 20\<rparr>"

text \<open>\<open>_get_cpu_usage\<close>: the fifth field and the sum of the numbers of the first line of \<^verbatim>\<open>/proc/stat\<close>.\<close>

definition get_cpu_usage :: "int list option \<Rightarrow> (int \<times> int) option" where
  "get_cpu_usage nums =
     (case nums of
        None \<Rightarrow> None
      | Some xs \<Rightarrow> if length xs < 4 then None else Some (xs ! 3, sum_list xs))"

definition update_cpu :: "as_params \<Rightarrow> (int \<times> int) option \<Rightarrow> as_thread \<Rightarrow> as_thread" where
  "update_cpu prm now_cpu th =
     (case (th_cpu th, now_cpu) of
        (Some (idle0, tot0), Some (idle1, tot1)) \<Rightarrow>
          th\<lparr>th_saturated := (if 0 < tot1 - tot0 then cpu_limit prm < 1 - real_of_int (idle1 - idle0) / real_of_int (tot1 - tot0)
                              else th_saturated th),
             th_cpu := Some (idle1, tot1)\<rparr>
      | _ \<Rightarrow> th)"

section \<open>Scaling one stage\<close>

datatype as_action = NoAction | ScaleUp | ScaleDown

definition as_decide :: "as_params \<Rightarrow> bool \<Rightarrow> int \<Rightarrow> int \<Rightarrow> int \<Rightarrow> real \<Rightarrow> bool \<Rightarrow> nat \<times> nat \<Rightarrow> (nat \<times> nat) \<times> as_action" where
  "as_decide prm saturated active max_workers min_workers in_fill out_blocked = (\<lambda>(high, low).
     if active < max_workers \<and> up_threshold prm \<le> in_fill then
       (if saturated \<or> out_blocked then ((0, low), NoAction)
        else if up_samples prm \<le> Suc high then ((0, 0), ScaleUp)
        else ((Suc high, 0), NoAction))
     else if min_workers < active \<and> in_fill \<le> down_threshold prm then
       (if down_samples prm \<le> Suc low then ((0, 0), ScaleDown) else ((0, Suc low), NoAction))
     else ((0, 0), NoAction))"

definition signal_worker_to_stop :: "nat \<Rightarrow> as_pipe \<Rightarrow> as_pipe" where
  "signal_worker_to_stop i p =
     (case i of
        0 \<Rightarrow> p
      | Suc k \<Rightarrow>
          if \<not> aq_room (ap_queues p ! k) then p
          else p\<lparr>ap_queues := (ap_queues p)[k := (ap_queues p ! k)\<lparr>aq_stops := Suc (aq_stops (ap_queues p ! k)),
                                                                 aq_size := aq_size (ap_queues p ! k) + 1\<rparr>],
                 ap_counts := (ap_counts p)[i := ap_counts p ! i - 1]\<rparr>)"

text \<open>The arguments of an additional worker.\<close>

definition spawn_args :: "nat \<Rightarrow> nat \<Rightarrow> int list option \<Rightarrow> as_pipe \<Rightarrow> as_args" where
  "spawn_args i w aff p =
     (let job = ap_jobs p ! i in
      \<lparr>ag_target = (if aj_thread job then ThreadedWorkerRun else WorkerRun),
       ag_in = (if 0 < i then Some (i - 1) else None),
       ag_out = (if i < length (ap_queues p) then Some i else None),
       ag_id = worker_id i w None,
       ag_threads = (if aj_thread job then Some (case aj_num_workers job of Some n \<Rightarrow> n | None \<Rightarrow> 4) else None),
       ag_final = (Suc i = length (ap_jobs p)),
       ag_upstream_done = (if 0 < i then Some (i - 1) else None), ag_stage_done = i,
       ag_batch = (case aj_batch job of Some b \<Rightarrow> b | None \<Rightarrow> 0),
       ag_drain = (case aj_drain job of Some d \<Rightarrow> d | None \<Rightarrow> True),
       ag_affinity = aff, ag_cpu_threads = aj_cpu_threads job,
       ag_chunk = (case aj_chunk_eff job of Some c \<Rightarrow> c | None \<Rightarrow> 0),
       ag_chunk_ms = (case aj_chunk_ms job of Some t \<Rightarrow> t | None \<Rightarrow> 10)\<rparr>)"

text \<open>The counters move before the process starts; \<open>started\<close> is its pid, or \<open>None\<close> if starting it raises.\<close>

definition spawn_additional_worker :: "nat option \<Rightarrow> nat \<Rightarrow> as_pipe \<Rightarrow> as_pipe \<times> exn option" where
  "spawn_additional_worker started i p =
     (if length (ap_spawned p) \<le> i then (p, Some IndexE)
      else
        let job = ap_jobs p ! i;
            w = ap_spawned p ! i;
            p1 = p\<lparr>ap_spawned := (ap_spawned p)[i := Suc w]\<rparr>
        in case cpu_chunk (aj_cpus job) w (case aj_num_workers job of Some n \<Rightarrow> n | None \<Rightarrow> 1) of
             Inl e \<Rightarrow> (p1, Some e)
           | Inr aff \<Rightarrow>
               if ap_events p \<le> i then (p1, Some IndexE)
               else
                 let p2 = p1\<lparr>ap_counts := (ap_counts p)[i := ap_counts p ! i + 1]\<rparr>;
                     args = spawn_args i w aff p
                 in case started of
                      None \<Rightarrow> (p2, Some OSE)
                    | Some pid \<Rightarrow>
                        (p2\<lparr>ap_table := (ap_table p)\<lparr>pt_procs := pt_procs (ap_table p) @ [pid],
                              pt_info := pt_info (ap_table p) @ [(pid, ag_id args, aj_name job)]\<rparr>,
                            ap_args := (ap_args p)(ag_id args \<mapsto> args)\<rparr>, None))"

text \<open>What is read for a stage: nothing if there is no bounded input queue, or nobody works there.\<close>

record as_reading =
  rd_active :: int
  rd_max :: int
  rd_min :: int
  rd_fill :: real
  rd_blocked :: bool

definition as_read :: "nat \<Rightarrow> as_job \<Rightarrow> as_pipe \<Rightarrow> exn + as_reading option" where
  "as_read i job p =
     (if length (ap_counts p) \<le> i \<or> length (ap_ends p) \<le> i then Inl IndexE
      else
        let active = ap_counts p ! i - ap_ends p ! i;
            maxw = (case aj_max job of Some m \<Rightarrow> m | None \<Rightarrow> active * 4);
            minw = (case aj_min job of Some m \<Rightarrow> m | None \<Rightarrow> 1)
        in if length (ap_queues p) \<le> i - 1 \<or> active \<le> 0 then Inr None
           else
             let q = ap_queues p ! (i - 1); in_max = (case aq_maxsize q of Some m \<Rightarrow> m | None \<Rightarrow> 0) in
             if in_max \<le> 0 then Inr None
             else
               Inr (Some \<lparr>rd_active = active, rd_max = maxw, rd_min = minw, rd_fill = real_of_int (aq_size q) / real_of_int in_max,
                 rd_blocked = (i < length (ap_queues p) \<and>
                    (let o_q = ap_queues p ! i; out_max = (case aq_maxsize o_q of Some m \<Rightarrow> m | None \<Rightarrow> 0)
                     in 0 < out_max \<and> 9 / 10 \<le> real_of_int (aq_size o_q) / real_of_int out_max))\<rparr>))"

definition as_stage :: "as_params \<Rightarrow> real \<Rightarrow> nat option \<Rightarrow> nat \<Rightarrow> as_job \<Rightarrow> as_thread \<times> as_pipe \<Rightarrow> as_thread \<times> as_pipe" where
  "as_stage prm now started i job = (\<lambda>(th, p).
     if \<not> aj_autoscale job \<or> i = 0 \<or> (case th_last th i of Some t \<Rightarrow> now - t < cooldown_seconds prm | None \<Rightarrow> False)
     then (th, p)
     else
       case as_read i job p of
         Inr (Some r) \<Rightarrow>
           (case as_decide prm (th_saturated th) (rd_active r) (rd_max r) (rd_min r) (rd_fill r) (rd_blocked r)
                   (th_high th i, th_low th i) of
              ((high, low), act) \<Rightarrow>
                let th1 = th\<lparr>th_high := (th_high th)(i := high), th_low := (th_low th)(i := low)\<rparr> in
                case act of
                  NoAction \<Rightarrow> (th1, p)
                | ScaleUp \<Rightarrow> (th1\<lparr>th_last := (th_last th)(i \<mapsto> now)\<rparr>, fst (spawn_additional_worker started i p))
                | ScaleDown \<Rightarrow> (th1\<lparr>th_last := (th_last th)(i \<mapsto> now)\<rparr>, signal_worker_to_stop i p))
       | _ \<Rightarrow> (th, p))"

text \<open>One tick: the CPU, then every stage. \<open>env\<close> tells the time, the CPU counters and what starting a process gives.\<close>

record as_env =
  ae_now :: real
  ae_stat :: "int list option"
  ae_started :: "nat \<Rightarrow> nat option"

fun as_stages :: "as_params \<Rightarrow> as_env \<Rightarrow> nat \<Rightarrow> as_job list \<Rightarrow> as_thread \<times> as_pipe \<Rightarrow> as_thread \<times> as_pipe" where
  "as_stages prm env i [] s = s"
| "as_stages prm env i (job # jobs) s = as_stages prm env (Suc i) jobs (as_stage prm (ae_now env) (ae_started env i) i job s)"

definition as_tick :: "as_params \<Rightarrow> as_env \<Rightarrow> as_thread \<times> as_pipe \<Rightarrow> as_thread \<times> as_pipe" where
  "as_tick prm env = (\<lambda>(th, p). as_stages prm env 0 (ap_jobs p) (update_cpu prm (get_cpu_usage (ae_stat env)) th, p))"


section \<open>Bounds and cooldown\<close>

definition active :: "as_pipe \<Rightarrow> nat \<Rightarrow> int" where
  "active p i = ap_counts p ! i - ap_ends p ! i"

lemma spawn_frame:
  "ap_jobs (fst (spawn_additional_worker started j p)) = ap_jobs p" "ap_ends (fst (spawn_additional_worker started j p)) = ap_ends p"
  "length (ap_counts (fst (spawn_additional_worker started j p))) = length (ap_counts p)"
  "i \<noteq> j \<Longrightarrow> ap_counts (fst (spawn_additional_worker started j p)) ! i = ap_counts p ! i"
  by (auto simp: spawn_additional_worker_def Let_def split: option.splits sum.splits)

lemma signal_frame:
  "ap_jobs (signal_worker_to_stop j p) = ap_jobs p" "ap_ends (signal_worker_to_stop j p) = ap_ends p"
  "length (ap_counts (signal_worker_to_stop j p)) = length (ap_counts p)"
  "i \<noteq> j \<Longrightarrow> ap_counts (signal_worker_to_stop j p) ! i = ap_counts p ! i"
  by (auto simp: signal_worker_to_stop_def split: nat.splits)

lemmas scale_frames = spawn_frame signal_frame

text \<open>Scaling one stage leaves the counters of the others alone.\<close>

lemma as_stage_frame:
  assumes "as_stage prm now started j job (th, p) = (th', p')"
  shows "ap_jobs p' = ap_jobs p" "ap_ends p' = ap_ends p" "length (ap_counts p') = length (ap_counts p)"
    "i \<noteq> j \<Longrightarrow> ap_counts p' ! i = ap_counts p ! i \<and> th_last th' i = th_last th i \<and> th_high th' i = th_high th i \<and> th_low th' i = th_low th i"
  using assms
  by (auto simp: as_stage_def Let_def scale_frames split: if_splits sum.splits option.splits prod.splits as_action.splits)

text \<open>What one stage's turn may do to its own counter.\<close>

lemma as_decide_up: "as_decide prm sat a M m f blk c = (c', ScaleUp) \<Longrightarrow> a < M"
  by (cases c) (auto simp: as_decide_def split: if_splits)

lemma as_decide_down: "as_decide prm sat a M m f blk c = (c', ScaleDown) \<Longrightarrow> m < a"
  by (cases c) (auto simp: as_decide_def split: if_splits)

definition in_bounds :: "as_job \<Rightarrow> int \<Rightarrow> bool" where
  "in_bounds job a \<longleftrightarrow> (case aj_min job of Some m \<Rightarrow> m | None \<Rightarrow> 1) \<le> a \<and> (case aj_max job of Some m \<Rightarrow> a \<le> m | None \<Rightarrow> True)"

lemma as_read_active:
  "as_read i job p = Inr (Some r) \<Longrightarrow> i < length (ap_counts p) \<and> rd_active r = active p i
     \<and> rd_min r = (case aj_min job of Some m \<Rightarrow> m | None \<Rightarrow> 1) \<and> (\<forall>m. aj_max job = Some m \<longrightarrow> rd_max r = m)"
  by (auto simp: as_read_def active_def Let_def split: if_splits option.splits)

lemma as_stage_own:
  assumes st: "as_stage prm now started i job (th, p) = (th', p')" and w: "in_bounds job (active p i)"
  shows "in_bounds job (active p' i) \<and> \<bar>active p' i - active p i\<bar> \<le> 1"
proof (cases "\<exists>r. as_read i job p = Inr (Some r)")
  case False
  then have "p' = p" using st by (auto simp: as_stage_def split: if_splits sum.splits option.splits)
  then show ?thesis using w by simp
next
  case True
  then obtain r where r: "as_read i job p = Inr (Some r)" by blast
  note ra = as_read_active [OF r]
  obtain c act where d: "as_decide prm (th_saturated th) (rd_active r) (rd_max r) (rd_min r) (rd_fill r) (rd_blocked r)
      (th_high th i, th_low th i) = (c, act)" by fastforce
  have "p' = p \<or> (act = ScaleUp \<and> p' = fst (spawn_additional_worker started i p)) \<or> (act = ScaleDown \<and> p' = signal_worker_to_stop i p)"
    using st r d by (auto simp: as_stage_def Let_def split: if_splits prod.splits as_action.splits)
  moreover have "ap_ends (fst (spawn_additional_worker started i p)) = ap_ends p" "ap_ends (signal_worker_to_stop i p) = ap_ends p"
    by (simp_all add: scale_frames)
  moreover have "ap_counts (fst (spawn_additional_worker started i p)) ! i \<in> {ap_counts p ! i, ap_counts p ! i + 1}"
    using ra by (auto simp: spawn_additional_worker_def Let_def split: option.splits sum.splits)
  moreover have "ap_counts (signal_worker_to_stop i p) ! i \<in> {ap_counts p ! i, ap_counts p ! i - 1}"
    using ra by (auto simp: signal_worker_to_stop_def split: nat.splits)
  ultimately have cases: "active p' i = active p i \<or> (act = ScaleUp \<and> active p' i = active p i + 1)
      \<or> (act = ScaleDown \<and> active p' i = active p i - 1)"
    by (auto simp: active_def)
  moreover have "act = ScaleUp \<Longrightarrow> active p i < rd_max r" using as_decide_up d ra by metis
  moreover have "act = ScaleDown \<Longrightarrow> rd_min r < active p i" using as_decide_down d ra by metis
  ultimately show ?thesis using w ra by (auto simp: in_bounds_def split: option.splits)
qed

lemma as_stages_frame:
  "i < k \<Longrightarrow> as_stages prm env k jobs (th, p) = (th', p') \<Longrightarrow>
   ap_jobs p' = ap_jobs p \<and> ap_ends p' = ap_ends p \<and> ap_counts p' ! i = ap_counts p ! i \<and> th_last th' i = th_last th i
   \<and> th_high th' i = th_high th i \<and> th_low th' i = th_low th i"
proof (induction jobs arbitrary: k th p)
  case (Cons job jobs)
  obtain th1 p1 where s: "as_stage prm (ae_now env) (ae_started env k) k job (th, p) = (th1, p1)" by fastforce
  have r: "as_stages prm env (Suc k) jobs (th1, p1) = (th', p')" using Cons.prems(2) s by simp
  show ?case using Cons.IH [OF _ r] Cons.prems(1) as_stage_frame(1-3) [OF s] as_stage_frame(4) [OF s, of i] by auto
qed simp

lemma as_stages_own:
  "k \<le> i \<Longrightarrow> i < k + length jobs \<Longrightarrow> as_stages prm env k jobs (th, p) = (th', p') \<Longrightarrow>
   \<exists>th1 p1 th2 p2. as_stage prm (ae_now env) (ae_started env i) i (jobs ! (i - k)) (th1, p1) = (th2, p2)
     \<and> active p1 i = active p i \<and> active p2 i = active p' i
     \<and> th_last th1 i = th_last th i \<and> th_high th1 i = th_high th i \<and> th_low th1 i = th_low th i
     \<and> th_last th2 i = th_last th' i \<and> th_high th2 i = th_high th' i \<and> th_low th2 i = th_low th' i"
proof (induction jobs arbitrary: k th p)
  case (Cons job jobs)
  obtain th1 p1 where s: "as_stage prm (ae_now env) (ae_started env k) k job (th, p) = (th1, p1)" by fastforce
  have r: "as_stages prm env (Suc k) jobs (th1, p1) = (th', p')" using Cons.prems(3) s by simp
  show ?case
  proof (cases "i = k")
    case True
    then show ?thesis using s as_stages_frame [OF _ r, of i] by (intro exI conjI, simp) (auto simp: active_def)
  next
    case False
    then have "Suc k \<le> i" "i < Suc k + length jobs" "jobs ! (i - Suc k) = (job # jobs) ! (i - k)" using Cons.prems by auto
    then show ?thesis using Cons.IH [OF _ _ r] as_stage_frame(1-3) [OF s] as_stage_frame(4) [OF s, of i] False by (auto simp: active_def)
  qed
qed simp

text \<open>
  The autoscaler keeps every stage within its bounds and moves by one worker at a time: a tick
  that finds the number of active workers of a stage between its minimum and its maximum leaves it
  there, at most one away from what it was; and a stage scaled less than the cooldown ago is left
  alone, its pressure counters included.
\<close>

theorem autoscale_bounds:
  assumes "as_tick prm env (th, p) = (th', p')" and "i < length (ap_jobs p)" and "in_bounds (ap_jobs p ! i) (active p i)"
  shows "in_bounds (ap_jobs p ! i) (active p' i) \<and> \<bar>active p' i - active p i\<bar> \<le> 1
    \<and> (\<forall>t. th_last th i = Some t \<and> ae_now env - t < cooldown_seconds prm \<longrightarrow>
         active p' i = active p i \<and> th_last th' i = Some t \<and> th_high th' i = th_high th i \<and> th_low th' i = th_low th i)"
proof -
  let ?th = "update_cpu prm (get_cpu_usage (ae_stat env)) th"
  have t: "th_last ?th i = th_last th i" "th_high ?th i = th_high th i" "th_low ?th i = th_low th i"
    by (auto simp: update_cpu_def split: option.splits prod.splits)
  have r: "as_stages prm env 0 (ap_jobs p) (?th, p) = (th', p')" using assms(1) by (simp add: as_tick_def)
  obtain th1 p1 th2 p2 where s: "as_stage prm (ae_now env) (ae_started env i) i (ap_jobs p ! i) (th1, p1) = (th2, p2)"
    and e: "active p1 i = active p i" "active p2 i = active p' i"
      "th_last th1 i = th_last ?th i" "th_high th1 i = th_high ?th i" "th_low th1 i = th_low ?th i"
      "th_last th2 i = th_last th' i" "th_high th2 i = th_high th' i" "th_low th2 i = th_low th' i"
    using as_stages_own [OF _ _ r, of i] assms(2) by auto
  have "as_stage prm (ae_now env) (ae_started env i) i (ap_jobs p ! i) (th1, p1) = (th1, p1)"
    if "th_last th i = Some x" "ae_now env - x < cooldown_seconds prm" for x
    using that e(3) t(1) by (simp add: as_stage_def)
  then show ?thesis using as_stage_own [OF s] assms(3) s e t by auto
qed


definition demo_job :: "bool \<Rightarrow> int option \<Rightarrow> string \<Rightarrow> as_job" where
  "demo_job auto m name = \<lparr>aj_autoscale = auto, aj_max = m, aj_min = None, aj_name = name, aj_thread = False,
     aj_num_workers = Some 2, aj_batch = None, aj_drain = None, aj_cpus = None, aj_cpu_threads = None, aj_chunk_eff = None,
     aj_chunk_ms = None\<rparr>"

definition demo_pipe :: as_pipe where
  "demo_pipe = \<lparr>ap_jobs = [demo_job False None ''src'', demo_job True (Some 4) ''f''],
     ap_counts = [1, 2], ap_ends = [0, 0], ap_spawned = [1, 2],
     ap_queues = [\<lparr>aq_size = 9, aq_maxsize = Some 10, aq_room = True, aq_stops = 0\<rparr>],
     ap_events = 2,
     ap_table = \<lparr>pt_info = [(10, ''stage_1_worker_0'', ''f''), (11, ''stage_1_worker_1'', ''f'')], pt_procs = [10, 11],
       pt_configs = [''stage_1_worker_0'' \<mapsto> ''f'', ''stage_1_worker_1'' \<mapsto> ''f'']\<rparr>,
     ap_args = Map.empty\<rparr>"

definition demo_thread :: "nat \<Rightarrow> as_thread" where
  "demo_thread n = \<lparr>th_high = (\<lambda>_. n), th_low = (\<lambda>_. 0), th_last = Map.empty, th_cpu = None, th_saturated = False\<rparr>"

theorem autoscale_bounds_witness:
  "active (snd (as_tick default_params \<lparr>ae_now = 1, ae_stat = None, ae_started = (\<lambda>_. Some 12)\<rparr> (demo_thread 2, demo_pipe))) 1 = 3
   \<and> in_bounds (ap_jobs demo_pipe ! 1)
       (active (snd (as_tick default_params \<lparr>ae_now = 1, ae_stat = None, ae_started = (\<lambda>_. Some 12)\<rparr> (demo_thread 2, demo_pipe))) 1)"
proof -
  let ?s = "as_tick default_params \<lparr>ae_now = 1, ae_stat = None, ae_started = (\<lambda>_. Some 12)\<rparr> (demo_thread 2, demo_pipe)"
  have "in_bounds (ap_jobs demo_pipe ! 1) (active demo_pipe 1)" by (simp add: in_bounds_def demo_pipe_def demo_job_def active_def)
  then have "in_bounds (ap_jobs demo_pipe ! 1) (active (snd ?s) 1)"
    using autoscale_bounds [of default_params _ "demo_thread 2" demo_pipe "fst ?s" "snd ?s" 1] by (simp add: demo_pipe_def)
  moreover have "active (snd ?s) 1 = 3"
    by (simp add: as_tick_def update_cpu_def get_cpu_usage_def demo_thread_def demo_pipe_def demo_job_def cpu_chunk_def as_stage_def as_read_def as_decide_def
        default_params_def spawn_additional_worker_def active_def Let_def)
  ultimately show ?thesis by simp
qed

text \<open>The decisions for one stage over samples of its input fill, with the CPU saturated or not.\<close>

fun as_samples :: "as_params \<Rightarrow> int \<Rightarrow> int \<Rightarrow> int \<Rightarrow> (real \<times> bool) list \<Rightarrow> nat \<times> nat \<Rightarrow> as_action list" where
  "as_samples prm a M m [] c = []"
| "as_samples prm a M m ((f, sat) # fs) c =
     (case as_decide prm sat a M m f False c of (c', act) \<Rightarrow> act # as_samples prm a M m fs c')"

text \<open>
  \<open>scale_down_samples\<close> low samples stop a worker, but they need not be consecutive as documented:
  a sample of high pressure while the CPU is saturated restarts the count of high samples only, so
  four low samples, a high one and a low one stop a worker, though a sample between the thresholds
  in its place would not.
\<close>

theorem low_samples_not_consecutive:
  assumes "1 < a" and "a < M" and "m = 1"
  shows "as_samples default_params a M m [(0, False), (0, False), (0, False), (0, False), (1, True), (0, False)] (0, 0)
      = [NoAction, NoAction, NoAction, NoAction, NoAction, ScaleDown]
    \<and> as_samples default_params a M m [(0, False), (0, False), (0, False), (0, False), (1 / 2, False), (0, False)] (0, 0)
      = [NoAction, NoAction, NoAction, NoAction, NoAction, NoAction]"
  using assms by (simp add: as_decide_def default_params_def)

theorem low_samples_not_consecutive_witness:
  "as_samples default_params 2 4 1 [(0, False), (0, False), (0, False), (0, False), (1, True), (0, False)] (0, 0)
   = [NoAction, NoAction, NoAction, NoAction, NoAction, ScaleDown]"
  using low_samples_not_consecutive [of 2 4 1] by simp

text \<open>
  A worker the autoscaler starts has an identifier no worker of its stage has had, reads the queue
  before its stage and writes the one after it, has the arguments that identifier is registered with,
  and one more finisher is expected of the stage; but the count is raised before the process is
  started, so when starting it fails, the stage waits for a worker that never ran.
\<close>

theorem autoscaled_worker:
  assumes "i < length (ap_spawned p)" and "i < length (ap_counts p)" and "i < ap_events p"
    and "cpu_chunk (aj_cpus (ap_jobs p ! i)) (ap_spawned p ! i) (case aj_num_workers (ap_jobs p ! i) of Some n \<Rightarrow> n | None \<Rightarrow> 1) = Inr c"
  shows "(\<forall>w g. w < ap_spawned p ! i \<longrightarrow> worker_id i w g \<noteq> worker_id i (ap_spawned p ! i) None)
    \<and> (\<exists>p' a. spawn_additional_worker (Some pid) i p = (p', None) \<and> ap_spawned p' ! i = Suc (ap_spawned p ! i)
          \<and> active p' i = active p i + 1
          \<and> pt_info (ap_table p') = pt_info (ap_table p) @ [(pid, worker_id i (ap_spawned p ! i) None, aj_name (ap_jobs p ! i))]
          \<and> ap_args p' (worker_id i (ap_spawned p ! i) None) = Some a \<and> ag_affinity a = c
          \<and> (0 < i \<longrightarrow> ag_in a = Some (i - 1) \<and> ag_upstream_done a = Some (i - 1))
          \<and> (ag_out a = None \<longleftrightarrow> length (ap_queues p) \<le> i) \<and> ag_stage_done a = i)
    \<and> (\<exists>p'. spawn_additional_worker None i p = (p', Some OSE) \<and> active p' i = active p i + 1 \<and> ap_table p' = ap_table p)"
  using assms by (auto simp: spawn_additional_worker_def spawn_args_def active_def Let_def dest: worker_id_inj)

theorem autoscaled_worker_witness:
  "\<exists>p'. spawn_additional_worker None 1 demo_pipe = (p', Some OSE) \<and> active p' 1 = active demo_pipe 1 + 1
     \<and> ap_table p' = ap_table demo_pipe"
  using autoscaled_worker [of 1 demo_pipe None] by (simp add: demo_pipe_def demo_job_def cpu_chunk_def)

end
