(* ===== verification/Pipe_Exit.thy ===== *)
theory Pipe_Exit
  imports Pipe_Completion
begin

text \<open>
  The end of a worker process (\<^verbatim>\<open>src/pipe/workers.py\<close>): after it has counted itself as finished it lets the
  GPU go and stays alive until the pipeline stops; with the ways a process is started
  (\<open>_spawn\<close> in \<^verbatim>\<open>src/pipe/lifecycle.py\<close>, \<open>_profiled_worker\<close> in \<^verbatim>\<open>src/pipe/profiling.py\<close>), which decide who
  holds the stage; access to torch (\<^verbatim>\<open>src/pipe/_torch.py\<close>); watching the parent; and the check whether a
  stage can be pickled. Memory goes back to the driver only when nothing holds the stage any more.
\<close>

section \<open>Torch, if it is there\<close>

text \<open>
  \<open>mods\<close> stands for \<open>sys.modules\<close>; \<open>imported\<close> is what importing the module would do. Only an \<open>ImportError\<close>
  counts as not installed.
\<close>

definition torch_loaded :: "(string \<rightharpoonup> 'm) \<Rightarrow> 'm option" where
  "torch_loaded mods = mods ''torch''"

definition torch_available :: "(string \<rightharpoonup> 'm) \<Rightarrow> exn + 'm \<Rightarrow> (string \<rightharpoonup> 'm) \<times> (exn + 'm option)" where
  "torch_available mods imported =
     (case mods ''torch'' of
        Some m \<Rightarrow> (mods, Inr (Some m))
      | None \<Rightarrow>
          (case imported of
             Inr m \<Rightarrow> (mods(''torch'' \<mapsto> m), Inr (Some m))
           | Inl e \<Rightarrow> (mods, if e = ImportE then Inr None else Inl e)))"

definition torch_required :: "(string \<rightharpoonup> 'm) \<Rightarrow> exn + 'm \<Rightarrow> (string \<rightharpoonup> 'm) \<times> (exn + 'm)" where
  "torch_required mods imported =
     (case torch_available mods imported of
        (mods1, Inl e) \<Rightarrow> (mods1, Inl e)
      | (mods1, Inr None) \<Rightarrow> (mods1, Inl ImportE)
      | (mods1, Inr (Some m)) \<Rightarrow> (mods1, Inr m))"

text \<open>Whether CUDA is initialized, asked without ever importing torch.\<close>

definition cuda_ready :: "('m \<Rightarrow> bool) \<Rightarrow> (string \<rightharpoonup> 'm) \<Rightarrow> bool" where
  "cuda_ready initialized mods = (case torch_loaded mods of None \<Rightarrow> False | Some m \<Rightarrow> initialized m)"

lemma required_or_import_error:
  "torch_required mods imported = (mods1, res) \<Longrightarrow>
   (case res of Inr m \<Rightarrow> torch_loaded mods1 = Some m | Inl e \<Rightarrow> torch_loaded mods = None \<and> mods1 = mods \<and> imported = Inl e)"
  by (auto simp: torch_required_def torch_available_def torch_loaded_def split: option.splits sum.splits prod.splits if_splits)

section \<open>Who holds the stage\<close>

text \<open>
  A process started plainly holds the stage in the dictionary \<open>_kwargs\<close> of its \<open>Process\<close> object. Under the
  profiler that dictionary is empty: the worker's arguments are one of the process's positional
  arguments, and a local variable of \<open>_profiled_worker\<close>. The run loop has it as a parameter.
\<close>

datatype holder = RunLoop | ProcessKwargs | ProcessArgs | ProfilerFrame

definition spawn_holders :: "bool \<Rightarrow> holder set" where
  "spawn_holders profile = (if profile then {RunLoop, ProcessArgs, ProfilerFrame} else {RunLoop, ProcessKwargs})"

text \<open>The end of \<open>_park_release_gpu\<close>; \<open>ok\<close> is false when clearing raised at once.\<close>

definition clear_process :: "bool \<Rightarrow> holder set \<Rightarrow> holder set" where
  "clear_process ok hs = (if ok then hs - {ProcessKwargs, ProcessArgs} else hs)"

text \<open>
  \<open>_profiled_worker\<close>: whatever the worker does, the profile is written and the peak memory noted, unless
  writing the profile fails. The result is the value of the shared memory count and the exception.
\<close>

definition profiled_worker :: "exn option \<Rightarrow> exn option \<Rightarrow> int \<Rightarrow> int \<Rightarrow> int \<times> exn option" where
  "profiled_worker target dump rss old = (case dump of Some e \<Rightarrow> (old, Some e) | None \<Rightarrow> (rss, target))"

section \<open>Giving memory back\<close>

datatype pool_effect = Collect | Synchronize | EmptyCache

text \<open>
  \<open>_release_pool_on_stall\<close>: the free blocks of the pool, while the worker waits to put; the model stays.
\<close>

definition release_pool_on_stall :: "bool \<Rightarrow> pool_effect list" where
  "release_pool_on_stall ready = (if ready then [EmptyCache] else [])"

text \<open>\<open>_free_cuda_pool\<close>: a step that raises (the first \<open>good\<close> do not) is reported and ends the release.\<close>

definition free_cuda_pool :: "bool \<Rightarrow> nat \<Rightarrow> pool_effect list" where
  "free_cuda_pool ready good = (if ready then take (Suc good) [Collect, Synchronize, EmptyCache] else [])"

text \<open>The last loop: the number of naps until \<open>should_stop\<close> reads true; \<open>None\<close> if it does not in the given reads.\<close>

fun stay_alive :: "bool list \<Rightarrow> nat option" where
  "stay_alive [] = None"
| "stay_alive (stopped # reads) = (if stopped then Some 0 else map_option Suc (stay_alive reads))"

section \<open>The end of a worker\<close>

record 'a exit_obs =
  xo_ready :: bool
  xo_park :: "'a park_obs"
  xo_clear_ok :: bool
  xo_good :: nat
  xo_ready_later :: bool
  xo_stop :: "bool list option"

record 'a exit_result =
  xr_port :: "'a out_port option"
  xr_discarded :: nat
  xr_holders :: "holder set"
  xr_pool :: "pool_effect list"
  xr_naps :: "nat option"

text \<open>
  From \<open>_park_release_gpu\<close> to the last line of the run loop; a worker without \<open>should_stop\<close> returns at once.
  An exception of \<open>emit\<close> or \<open>flush\<close> ends the process.
\<close>

definition worker_exit ::
  "('a val \<Rightarrow> shape) \<Rightarrow> bool \<Rightarrow> 'a exit_obs \<Rightarrow> 'a out_port option \<Rightarrow> exn + 'a exit_result" where
  "worker_exit view profile ob port =
     (case park_release_gpu view (xo_ready ob) (xo_park ob) port of
        (port1, discarded, released, Some e) \<Rightarrow> Inl e
      | (port1, discarded, released, None) \<Rightarrow>
          let hs = (if released then clear_process (xo_clear_ok ob) (spawn_holders profile) else spawn_holders profile) - {RunLoop}
          in Inr \<lparr>xr_port = port1, xr_discarded = discarded, xr_holders = hs,
                  xr_pool = free_cuda_pool (xo_ready_later ob) (xo_good ob),
                  xr_naps = (case xo_stop ob of None \<Rightarrow> Some 0 | Some reads \<Rightarrow> stay_alive reads)\<rparr>)"

lemma stay_alive_iff: "stay_alive reads = Some n \<longleftrightarrow> n < length reads \<and> reads ! n \<and> (\<forall>k < n. \<not> reads ! k)"
proof (induction reads arbitrary: n)
  case (Cons r rs)
  then show ?case by (cases n) (auto simp: less_Suc_eq_0_disj)
qed simp


text \<open>A GPU worker without \<open>on_park\<close> that reads \<open>should_stop\<close> three times, without and with the profiler.\<close>

definition quiet_exit :: "nat exit_obs" where
  "quiet_exit = \<lparr>xo_ready = True,
     xo_park = sample_park\<lparr>po_hook := HookMissing\<rparr>,
     xo_clear_ok = True, xo_good = 2, xo_ready_later = True, xo_stop = Some [False, False, True]\<rparr>"


text \<open>
  What the stage hands back when it is parked at the end comes after \<open>End\<close>: the worker has counted itself as
  finished, \<open>End\<close> is on the queue and the done event is set before \<open>on_park\<close> is asked, so every item it returns
  is sent behind the sentinel, where a reader that stops at \<open>End\<close> does not look.
\<close>

theorem parked_items_follow_end:
  assumes "port_ok p" and "oc_pending (op_ch p) = []" and "xo_ready ob" and "po_hook (xo_park ob) = HookItems items" and "items \<noteq> []"
    and "quiet (po_emit (xo_park ob))" and "po_flush (xo_park ob) = None"
    and "finish_worker (Some 1) is_final 1 []
           \<lparr>sy_counter = Some 0, sy_done = Some False, sy_queue = Some \<lparr>bq_maxsize = 0, bq_items = op_log p\<rparr>\<rparr> = sy"
  shows "sy_done sy = Some True \<and> (\<exists>q r p'. sy_queue sy = Some q \<and> bq_items q = op_log p @ [ItemM EndV]
     \<and> worker_exit view profile ob (Some (p\<lparr>op_log := bq_items q\<rparr>)) = Inr r \<and> xr_port r = Some p'
     \<and> unchunk (op_log p') = unchunk (op_log p) @ [EndV] @ valid_items items)"
proof -
  let ?q = "\<lparr>bq_maxsize = 0, bq_items = op_log p @ [ItemM EndV]\<rparr>" and ?p = "p\<lparr>op_log := op_log p @ [ItemM EndV]\<rparr>"
  have sy: "sy_done sy = Some True" "sy_queue sy = Some ?q"
    using assms(8) by (auto simp: finish_worker_def bq_put_def bq_full_def)
  have "port_ok ?p" using assms(1) by (simp add: port_ok_def)
  from park_release_forwards [OF this assms(4,6,7), of view] obtain p' where
    p': "park_release_gpu view True (xo_park ob) (Some ?p) = (Some p', 0, True, None)"
        "unchunk (op_log p') @ oc_pending (op_ch p') = sent ?p @ valid_items items" "oc_pending (op_ch p') = []"
    using assms(5) by blast
  have "unchunk (op_log p') = unchunk (op_log p) @ [EndV] @ valid_items items"
    using p'(2,3) assms(2) by (simp add: sent_def unchunk_def)
  moreover have "\<exists>r. worker_exit view profile ob (Some ?p) = Inr r \<and> xr_port r = Some p'"
    using p'(1) assms(3) by (simp add: worker_exit_def Let_def)
  ultimately show ?thesis using sy by auto
qed

theorem parked_items_follow_end_witness:
  "\<exists>r p'. worker_exit (\<lambda>_. LeafS) False (quiet_exit\<lparr>xo_park := sample_park\<rparr>) (Some (sample_port\<lparr>op_log := [ItemM EndV]\<rparr>)) = Inr r
     \<and> xr_port r = Some p' \<and> unchunk (op_log p') = [EndV, Obj 1, Obj 2]"
proof -
  let ?ob = "quiet_exit\<lparr>xo_park := sample_park\<rparr>" and ?p = "sample_port :: nat out_port"
  have h: "port_ok ?p" "oc_pending (op_ch ?p) = []" "xo_ready ?ob" "po_hook (xo_park ?ob) = HookItems [Obj 1, NoneV, Obj 2]"
    "[Obj (1 :: nat), NoneV, Obj 2] \<noteq> []" "quiet (po_emit (xo_park ?ob))" "po_flush (xo_park ?ob) = None" "op_log ?p = []"
    by (simp_all add: port_ok_def sample_port_def oc_new_def oc_inv_def quiet_exit_def sample_park_def quiet_def sample_emit_def)
  from parked_items_follow_end [OF h(1-7) refl, of False "\<lambda>_. LeafS" False] h(8) show ?thesis by (auto simp: valid_items_def valid_item_def)
qed

section \<open>Around a worker process\<close>

text \<open>\<open>_exit_with_parent\<close>: the exit status the watching thread ends the process with, if it does.\<close>

definition exit_with_parent :: "bool option \<Rightarrow> int option" where
  "exit_with_parent parent_dead = (case parent_dead of None \<Rightarrow> None | Some dead \<Rightarrow> if dead then Some 1 else None)"

text \<open>
  \<open>_check_picklable\<close>: \<open>whole\<close> is what pickling the stage raises, \<open>attrs\<close> its attributes with what pickling each
  raises. \<open>pickle.PicklingError\<close>, \<open>TypeError\<close> and \<open>AttributeError\<close> get the long warning. The check only warns.
\<close>

datatype pickle_warning = NotPicklable "string list" | CheckFailed

definition check_picklable :: "(exn \<Rightarrow> bool) \<Rightarrow> bool \<Rightarrow> exn option \<Rightarrow> (string \<times> exn option) list option \<Rightarrow> pickle_warning option" where
  "check_picklable is_pickling_error is_thread whole attrs =
     (if is_thread then None
      else case whole of
        None \<Rightarrow> None
      | Some e \<Rightarrow>
          if is_pickling_error e \<or> e = TypeE \<or> e = AttributeE
          then Some (NotPicklable (case attrs of None \<Rightarrow> [] | Some as \<Rightarrow> map fst (filter (\<lambda>(a, r). r \<noteq> None) as)))
          else Some CheckFailed)"

text \<open>\<open>_get_fd_info\<close>: a listing that fails gives an unknown count; limits that cannot be read give an error.\<close>

definition get_fd_info :: "int \<Rightarrow> exn + nat \<Rightarrow> exn + int \<times> int \<Rightarrow> exn + int \<times> nat option \<times> int \<times> int" where
  "get_fd_info pid listing limits =
     (case limits of
        Inl e \<Rightarrow> Inl e
      | Inr (soft, hard) \<Rightarrow> Inr (pid, case listing of Inl _ \<Rightarrow> None | Inr n \<Rightarrow> Some n, soft, hard))"

lemma picklable_stage_not_warned:
  "check_picklable ipe is_thread whole attrs = None \<longleftrightarrow> is_thread \<or> whole = None"
  by (simp add: check_picklable_def split: option.splits)

end
