(* ===== verification/Pipe_Prologue.thy ===== *)
theory Pipe_Prologue
  imports Pipe_Placement
begin

text \<open>
  What a worker process does before its loop (\<open>_worker_run\<close>, \<open>_threaded_worker_run\<close> in
  \<^verbatim>\<open>src/pipe/workers.py\<close>): pin the GPU, inject the methods of a custom \<open>run()\<close>, wait if its GPU is
  taken, load, run; and how the parent counts GPUs (\<^verbatim>\<open>src/pipe/pipe.py\<close>). The steps are effects in the
  order in which they happen; torch, the operating system and the stage are parameters.
\<close>

section \<open>Effects\<close>

datatype effect =
    SetVisible string | SetDevice int | InstallPull | InstallPut | InstallPush | WaitHold | CallLoad | CallRun
  | FlushChunk | FinishWorker | AwaitStop | RunThreads

definition touches_gpu :: "effect \<Rightarrow> bool" where
  "touches_gpu e = (case e of SetDevice d \<Rightarrow> True | CallLoad \<Rightarrow> True | CallRun \<Rightarrow> True | _ \<Rightarrow> False)"

record worker_args =
  wa_gpu :: "int option"
  wa_root :: bool
  wa_out :: bool
  wa_queues :: bool
  wa_has_load :: bool
  wa_has_run :: bool
  wa_scavenge :: bool

text \<open>
  What the process finds: the inherited GPU list, whether torch is imported (or can be), the hold flag
  each time it is read, whether the wait ends with a release, and what the stage's methods raise.
\<close>

record worker_world =
  ww_visible :: "string option"
  ww_torch :: bool
  ww_hold_gpu :: bool
  ww_hold_start :: bool
  ww_released :: bool
  ww_load :: "exn option"
  ww_run :: "exn option"

definition custom_run :: "worker_args \<Rightarrow> bool" where
  "custom_run a \<longleftrightarrow> wa_has_run a \<and> \<not> wa_root a"

definition gpu_effects :: "worker_args \<Rightarrow> worker_world \<Rightarrow> effect list" where
  "gpu_effects a w =
     (case wa_gpu a of
        None \<Rightarrow> []
      | Some g \<Rightarrow>
          SetVisible (resolve_physical_gpu g (ww_visible w)) #
          (if ww_torch w \<and> (\<not> wa_scavenge a \<or> \<not> ww_hold_gpu w) then [SetDevice 0] else []))"

definition inject_effects :: "worker_args \<Rightarrow> effect list" where
  "inject_effects a =
     (if custom_run a then [InstallPull] else []) @ (if custom_run a \<and> wa_out a then [InstallPut] else []) @
     (if wa_queues a \<and> \<not> wa_root a then [InstallPush] else [])"

text \<open>The wait of a worker that starts held; the device is claimed once it is released.\<close>

definition hold_effects :: "worker_args \<Rightarrow> worker_world \<Rightarrow> effect list \<times> bool" where
  "hold_effects a w =
     (if wa_scavenge a \<and> ww_hold_start w
      then (WaitHold # (if ww_released w \<and> wa_gpu a \<noteq> None \<and> ww_torch w then [SetDevice 0] else []), \<not> ww_released w)
      else ([], False))"

text \<open>\<open>load()\<close> and \<open>run()\<close>: an exception ends the process.\<close>

definition stage_effects :: "worker_args \<Rightarrow> worker_world \<Rightarrow> effect list \<times> exn option" where
  "stage_effects a w =
     (let l = (if wa_has_load a then [CallLoad] else []) in
      if wa_has_load a \<and> ww_load w \<noteq> None then (l, ww_load w)
      else if custom_run a then (l @ [CallRun], ww_run w) else (l, None))"

definition worker_prologue :: "worker_args \<Rightarrow> worker_world \<Rightarrow> effect list \<times> bool \<times> exn option" where
  "worker_prologue a w =
     (case hold_effects a w of (he, stream_over) \<Rightarrow>
        case (if stream_over then ([], None) else stage_effects a w) of (se, e) \<Rightarrow>
          (gpu_effects a w @ inject_effects a @ he @ se, stream_over, e))"

text \<open>The threaded worker: no GPU list of its own, no hold; a custom \<open>run()\<close> replaces the threads.\<close>

definition threaded_prologue :: "worker_args \<Rightarrow> worker_world \<Rightarrow> effect list \<times> exn option" where
  "threaded_prologue a w =
     (let pre = (case wa_gpu a of Some g \<Rightarrow> if ww_torch w then [SetDevice g] else [] | None \<Rightarrow> []) @ inject_effects a
      in case stage_effects a w of (se, e) \<Rightarrow>
           (pre @ se @
            (if e \<noteq> None then []
             else if custom_run a then (if wa_out a then [FlushChunk] else []) @ [FinishWorker, AwaitStop]
             else [RunThreads]), e))"

section \<open>A held worker keeps off the GPU\<close>

lemma inject_no_gpu: "x \<in> set (inject_effects a) \<Longrightarrow> \<not> touches_gpu x"
  by (auto simp: inject_effects_def touches_gpu_def split: if_splits)

text \<open>
  C24: a worker that starts held, on a GPU someone else uses, touches no GPU before it is released:
  nothing it does before the wait claims the device, loads or runs the stage, and if the stream ends
  while it waits, nothing ever does; and every worker pins the visible GPU before anything of it
  touches one, so the device it claims is its own.
\<close>

theorem held_worker_keeps_off:
  assumes "worker_prologue a w = (effs, stream_over, e)"
  shows "(wa_scavenge a \<and> ww_hold_gpu w \<and> ww_hold_start w \<longrightarrow>
      (\<exists>pre post. effs = pre @ WaitHold # post \<and> (\<forall>x. x \<in> set pre \<longrightarrow> \<not> touches_gpu x)
         \<and> (\<not> ww_released w \<longrightarrow> stream_over \<and> post = [])))
    \<and> (\<forall>g. wa_gpu a = Some g \<longrightarrow> (\<exists>rest. effs = SetVisible (resolve_physical_gpu g (ww_visible w)) # rest))"
proof -
  obtain he so se er where h: "hold_effects a w = (he, so)" "(if so then ([], None) else stage_effects a w) = (se, er)" by fastforce
  have e: "effs = gpu_effects a w @ inject_effects a @ he @ se" "stream_over = so" using assms h by (auto simp: worker_prologue_def)
  have "\<exists>pre post. effs = pre @ WaitHold # post \<and> (\<forall>x. x \<in> set pre \<longrightarrow> \<not> touches_gpu x) \<and> (\<not> ww_released w \<longrightarrow> stream_over \<and> post = [])"
    if held: "wa_scavenge a" "ww_hold_gpu w" "ww_hold_start w"
  proof -
    define tail where "tail = (if ww_released w \<and> wa_gpu a \<noteq> None \<and> ww_torch w then [SetDevice 0] else [])"
    have "hold_effects a w = (WaitHold # tail, \<not> ww_released w)" using held by (simp add: hold_effects_def tail_def)
    then have tail: "he = WaitHold # tail" "so = (\<not> ww_released w)" "\<not> ww_released w \<longrightarrow> tail = []"
      using h(1) by (simp_all add: tail_def)
    have "\<not> touches_gpu x" if "x \<in> set (gpu_effects a w @ inject_effects a)" for x
      using that held inject_no_gpu [of x a] by (auto simp: gpu_effects_def touches_gpu_def split: option.splits)
    moreover have "effs = (gpu_effects a w @ inject_effects a) @ WaitHold # (tail @ se)" using e tail by simp
    moreover have "\<not> ww_released w \<longrightarrow> stream_over \<and> tail @ se = []" using e tail h(2) by auto
    ultimately show ?thesis by blast
  qed
  then show ?thesis using e by (auto simp: gpu_effects_def)
qed

theorem held_worker_keeps_off_witness:
  "\<exists>pre post. fst (worker_prologue
      \<lparr>wa_gpu = Some 1, wa_root = False, wa_out = True, wa_queues = True, wa_has_load = True, wa_has_run = False, wa_scavenge = True\<rparr>
      \<lparr>ww_visible = Some ''4,5'', ww_torch = True, ww_hold_gpu = True, ww_hold_start = True, ww_released = True,
       ww_load = None, ww_run = None\<rparr>) = pre @ WaitHold # post \<and> (\<forall>x. x \<in> set pre \<longrightarrow> \<not> touches_gpu x)"
proof -
  let ?a = "\<lparr>wa_gpu = Some 1, wa_root = False, wa_out = True, wa_queues = True, wa_has_load = True, wa_has_run = False, wa_scavenge = True\<rparr>"
  let ?w = "\<lparr>ww_visible = Some ''4,5'', ww_torch = True, ww_hold_gpu = True, ww_hold_start = True, ww_released = True,
       ww_load = None, ww_run = None\<rparr>"
  obtain effs so e where p: "worker_prologue ?a ?w = (effs, so, e)" by (cases "worker_prologue ?a ?w")
  from held_worker_keeps_off [OF p] p show ?thesis by auto
qed

section \<open>Counting GPUs\<close>

text \<open>
  \<open>_get_gpu_count\<close>: with torch, its device count (an exception means 0); without, the lines of
  \<open>nvidia-smi\<close>, at most as many as \<open>CUDA_VISIBLE_DEVICES\<close> lists.
\<close>

definition visible_entries :: "string \<Rightarrow> nat" where
  "visible_entries v = length (filter (\<lambda>d. strip d \<noteq> []) (split_on (CHR '','') v))"

definition get_gpu_count :: "(exn + nat option) option \<Rightarrow> exn + nat option \<Rightarrow> string option \<Rightarrow> nat" where
  "get_gpu_count torch smi visible =
     (case torch of
        Some (Inl e) \<Rightarrow> 0
      | Some (Inr None) \<Rightarrow> 0
      | Some (Inr (Some n)) \<Rightarrow> n
      | None \<Rightarrow>
          (case smi of
             Inl e \<Rightarrow> 0
           | Inr out \<Rightarrow>
               let n = (case out of Some k \<Rightarrow> k | None \<Rightarrow> 0)
               in case visible of None \<Rightarrow> n | Some v \<Rightarrow> min n (visible_entries v)))"

text \<open>\<open>_increase_fd_limit\<close>: the soft limit afterwards.\<close>

definition increase_fd_limit :: "bool \<Rightarrow> int \<times> int \<Rightarrow> int \<times> int" where
  "increase_fd_limit set_ok = (\<lambda>(soft, hard). if hard \<le> soft then (soft, hard) else if set_ok then (hard, hard) else (soft, hard))"

text \<open>
  Without torch, every GPU index a stage may be given (below the count) resolves to an entry of
  \<open>CUDA_VISIBLE_DEVICES\<close> when that variable is set, so no worker is pinned to a GPU the user hid.
\<close>

theorem gpu_count_within_visible:
  assumes "strip v \<noteq> []" and "0 \<le> g" and "g < int (get_gpu_count None smi (Some v))"
  shows "resolve_physical_gpu g (Some v) \<in> set (map strip (split_on (CHR '','') (strip v)))
    \<and> resolve_physical_gpu g (Some v) \<noteq> []"
proof -
  have "g < int (visible_entries v)" using assms(3) by (auto simp: get_gpu_count_def Let_def split: sum.splits option.splits)
  moreover have "visible_entries v = length (filter (\<lambda>d. d \<noteq> []) (map strip (split_on (CHR '','') v)))"
    by (simp add: visible_entries_def filter_map comp_def)
  moreover have "filter (\<lambda>d. d \<noteq> []) (map strip (split_on (CHR '','') v)) = filter (\<lambda>d. d \<noteq> []) (map strip (split_on (CHR '','') (strip v)))"
    by (simp add: tokens_strip)
  ultimately have g: "nat g < length (filter (\<lambda>d. d \<noteq> []) (map strip (split_on (CHR '','') (strip v))))" using assms(2) by simp
  then have "resolve_physical_gpu g (Some v) = filter (\<lambda>d. d \<noteq> []) (map strip (split_on (CHR '','') (strip v))) ! nat g"
    using assms(1,2) by (simp add: resolve_physical_gpu_def Let_def nat_less_iff)
  moreover have "filter (\<lambda>d. d \<noteq> []) (map strip (split_on (CHR '','') (strip v))) ! nat g
      \<in> set (filter (\<lambda>d. d \<noteq> []) (map strip (split_on (CHR '','') (strip v))))" using g by (rule nth_mem)
  ultimately show ?thesis by auto
qed


theorem gpu_count_within_visible_witness: "resolve_physical_gpu 1 (Some ''4,7'') = ''7'' \<and> resolve_physical_gpu 1 (Some ''4,7'') \<noteq> []"
proof -
  have "strip ''4,7'' \<noteq> []" "(1 :: int) < int (get_gpu_count None (Inr (Some 8)) (Some ''4,7''))" by code_simp+
  moreover have "resolve_physical_gpu 1 (Some ''4,7'') = ''7''" by code_simp
  ultimately show ?thesis using gpu_count_within_visible [of "''4,7''" 1 "Inr (Some 8)"] by auto
qed

end
