(* ===== verification/Pipe_Shutdown.thy ===== *)
theory Pipe_Shutdown
  imports Pipe_Lifecycle
begin

text \<open>
  Stopping a pipeline and starting its service threads (\<^verbatim>\<open>src/pipe/lifecycle.py\<close>): the monitors with
  the events that stop them, the worker processes with the patience each of them needs, and what
  \<open>_stop\<close> leaves of the parent's state.
\<close>

section \<open>Service threads\<close>

text \<open>
  The health monitor, the statistics monitor and the scavenger: the parent's reference to the thread,
  the threads whose loop is running, and the stop event they look at. A running loop ends when it
  finds the event set; as it waits on the event between its rounds, the two seconds of the join see
  it end.
\<close>

record service =
  sv_ref :: "nat option"
  sv_running :: "nat list"
  sv_event :: bool

definition service_new :: service where
  "service_new = \<lparr>sv_ref = None, sv_running = [], sv_event = False\<rparr>"

text \<open>
  Stopping one: set the event and join. A thread cannot join itself: that raises, the error is
  printed, and the thread goes on. \<open>caller\<close> is the service thread that stops the pipeline, if one does.
\<close>

definition service_stop :: "nat option \<Rightarrow> service \<Rightarrow> service" where
  "service_stop caller s =
     (case sv_ref s of
        Some t \<Rightarrow>
          if t \<in> set (sv_running s)
          then s\<lparr>sv_event := True, sv_running := filter (\<lambda>x. caller = Some x) (sv_running s), sv_ref := None\<rparr>
          else s
      | None \<Rightarrow> s)"

definition service_start :: "bool \<Rightarrow> nat \<Rightarrow> service \<Rightarrow> service" where
  "service_start clears t s =
     (let e = (if clears then False else sv_event s)
      in s\<lparr>sv_event := e, sv_ref := Some t, sv_running := (if e then sv_running s else sv_running s @ [t])\<rparr>)"

section \<open>Worker processes\<close>

text \<open>
  How a worker leaves: by itself once the stop flag is set, when it gets \<open>SIGTERM\<close> (its handler sets
  the stop flag, so it must look at the flag), or only when it is killed: a worker inside a long call
  of the stage does not look.
\<close>

datatype temper = Quits | Heeds_term | Busy

record proc =
  pc_id :: nat
  pc_alive :: bool
  pc_temper :: temper

definition after_join :: "proc \<Rightarrow> proc" where
  "after_join p = (if pc_temper p = Quits then p\<lparr>pc_alive := False\<rparr> else p)"

definition after_terminate :: "proc \<Rightarrow> proc" where
  "after_terminate p = (if pc_temper p \<noteq> Busy then p\<lparr>pc_alive := False\<rparr> else p)"

definition stop_proc :: "bool \<Rightarrow> proc \<Rightarrow> proc" where
  "stop_proc force p =
     (if force then (if pc_alive (after_terminate p) then p\<lparr>pc_alive := False\<rparr> else after_terminate p)
      else (let p1 = after_join p in if pc_alive p1 then after_terminate p1 else p1))"

section \<open>The parent\<close>

record parent =
  pa_should_stop :: int
  pa_drain :: bool
  pa_health :: service
  pa_stats :: service
  pa_scavenger :: service
  pa_procs :: "proc list"
  pa_info :: "(nat \<times> string \<times> string) list"
  pa_configs :: "string \<rightharpoonup> string"
  pa_queues :: "nat list"
  pa_store :: "nat option"
  pa_manager :: bool
  pa_counters :: "nat list"
  pa_done :: "bool list"
  pa_unlinked :: "nat list"

text \<open>\<open>Pipe.__init__\<close>.\<close>

definition parent_new :: parent where
  "parent_new = \<lparr>pa_should_stop = 0, pa_drain = False, pa_health = service_new, pa_stats = service_new,
     pa_scavenger = service_new, pa_procs = [], pa_info = [], pa_configs = Map.empty, pa_queues = [], pa_store = None,
     pa_manager = False, pa_counters = [], pa_done = [], pa_unlinked = []\<rparr>"

definition raise_errors_of :: "bool option \<Rightarrow> bool \<Rightarrow> bool" where
  "raise_errors_of raise_errors sequential = (case raise_errors of Some b \<Rightarrow> b | None \<Rightarrow> sequential)"

text \<open>
  The end of \<open>start\<close>: the health monitor with a positive interval, the scavenger when there are slots,
  the statistics with a positive interval unless they are read from outside. The event of the
  statistics monitor is the one \<open>start\<close> does not clear.
\<close>

definition start_services :: "bool \<Rightarrow> bool \<Rightarrow> bool \<Rightarrow> nat \<Rightarrow> parent \<Rightarrow> parent" where
  "start_services health scavenge stats t p =
     p\<lparr>pa_health := (if health then service_start True t (pa_health p) else pa_health p),
       pa_scavenger := (if scavenge then service_start True (t + 1) (pa_scavenger p) else pa_scavenger p),
       pa_stats := (if stats then service_start False (t + 2) (pa_stats p) else pa_stats p)\<rparr>"

text \<open>
  \<open>_stop\<close>: the flag, the services, the processes, the manager, the queues and the store with the names
  they unlink, and the reset. The \<open>End\<close> a graceful stop puts on every queue wakes workers that wait for
  input: it is part of what makes them quit by themselves. The profile summary is output only.
\<close>

definition stop_parent :: "nat option \<Rightarrow> bool \<Rightarrow> parent \<Rightarrow> parent" where
  "stop_parent caller force p =
     (let p1 = p\<lparr>pa_should_stop := 1, pa_health := service_stop caller (pa_health p), pa_stats := service_stop caller (pa_stats p),
                 pa_scavenger := service_stop caller (pa_scavenger p)\<rparr>;
          p2 = p1\<lparr>pa_procs := map (stop_proc force) (pa_procs p1)\<rparr>;
          p3 = p2\<lparr>pa_manager := False,
                  pa_unlinked := pa_unlinked p2 @ pa_queues p2 @ (case pa_store p2 of Some s \<Rightarrow> [s] | None \<Rightarrow> []),
                  pa_store := None\<rparr>
      in p3\<lparr>pa_procs := [], pa_queues := [], pa_info := [], pa_configs := Map.empty, pa_should_stop := 0, pa_drain := False,
            pa_counters := map (\<lambda>_. 0) (pa_counters p3), pa_done := map (\<lambda>_. False) (pa_done p3)\<rparr>)"

text \<open>The processes that outlive a stop: nobody refers to them any more.\<close>

definition survivors :: "bool \<Rightarrow> parent \<Rightarrow> proc list" where
  "survivors force p = filter pc_alive (map (stop_proc force) (pa_procs p))"

lemma stop_graceful: "filter pc_alive (map (stop_proc False) ps) = filter (\<lambda>x. pc_alive x \<and> pc_temper x = Busy) ps"
proof (induction ps)
  case (Cons x ps)
  have "pc_alive (stop_proc False x) \<longleftrightarrow> pc_alive x \<and> pc_temper x = Busy"
    "pc_temper x = Busy \<Longrightarrow> stop_proc False x = x"
    by (auto simp: stop_proc_def after_join_def after_terminate_def Let_def)
  then show ?case using Cons by auto
qed simp

text \<open>
  A stop leaves a clean parent and, when forced, no process: the flags, counters and events are
  reset, no process, queue or store is kept, the name of every queue and of the store is unlinked
  once, a second stop changes nothing more, and no process is alive after a forced stop; after a
  graceful one exactly the workers inside a long call of their stage are, and nobody knows them.
\<close>

theorem stop_leaves_clean:
  "pa_should_stop (stop_parent c force p) = 0 \<and> \<not> pa_drain (stop_parent c force p)
   \<and> pa_procs (stop_parent c force p) = [] \<and> pa_queues (stop_parent c force p) = [] \<and> pa_store (stop_parent c force p) = None
   \<and> pa_configs (stop_parent c force p) = Map.empty \<and> pa_info (stop_parent c force p) = []
   \<and> pa_unlinked (stop_parent c force p) = pa_unlinked p @ pa_queues p @ (case pa_store p of Some s \<Rightarrow> [s] | None \<Rightarrow> [])
   \<and> stop_parent c force (stop_parent c force p) = stop_parent c force p
   \<and> survivors True p = []
   \<and> survivors False p = filter (\<lambda>x. pc_alive x \<and> pc_temper x = Busy) (pa_procs p)"
proof -
  have twice: "service_stop c (service_stop c s) = service_stop c s" for s
    by (auto simp: service_stop_def split: option.splits)
  have "survivors True p = []"
    by (auto simp: survivors_def filter_empty_conv stop_proc_def after_terminate_def)
  moreover have "survivors False p = filter (\<lambda>x. pc_alive x \<and> pc_temper x = Busy) (pa_procs p)"
    unfolding survivors_def by (rule stop_graceful)
  ultimately show ?thesis by (simp add: stop_parent_def Let_def twice)
qed


text \<open>
  The service threads across a restart: a running health monitor stopped from another thread ends,
  and \<open>start\<close> puts exactly one in its place; but a restart the health monitor itself asks for leaves
  two running, because it cannot join itself and finds its event cleared again; and the statistics
  monitor never runs again, because nobody clears its event.
\<close>

theorem services_across_restart:
  assumes "sv_ref s = Some t" and "sv_running s = [t]" and "t \<noteq> u"
  shows "sv_running (service_start True u (service_stop None s)) = [u]
    \<and> sv_running (service_start True u (service_stop (Some t) s)) = [t, u]
    \<and> sv_event (service_start True u (service_stop (Some t) s)) = False
    \<and> sv_running (service_start False u (service_stop None s)) = []"
  using assms by (simp add: service_stop_def service_start_def)

theorem services_across_restart_witness:
  "sv_running (service_start True 2 (service_stop (Some 1) \<lparr>sv_ref = Some 1, sv_running = [1], sv_event = False\<rparr>)) = [1, 2 :: nat]"
  using services_across_restart [of "\<lparr>sv_ref = Some 1, sv_running = [1], sv_event = False\<rparr>" 1 2] by simp

section \<open>Late signals\<close>

text \<open>
  The stop flag is one shared number for all generations of workers: the \<open>SIGTERM\<close> handler of a worker
  that outlived a graceful stop sets it, whenever that worker gets to run the handler.
\<close>

definition on_sigterm :: "parent \<Rightarrow> parent" where
  "on_sigterm p = p\<lparr>pa_should_stop := 1\<rparr>"

text \<open>
  A worker that is inside a long call during a graceful stop stops the next run: the stop has
  reset the flag by then and forgotten the worker, and its handler sets the flag of the pipeline that
  was started since.
\<close>

theorem late_sigterm_stops_next_run:
  assumes "x \<in> set (pa_procs p)" and "pc_alive x" and "pc_temper x = Busy"
  shows "x \<in> set (survivors False p) \<and> x \<notin> set (pa_procs (stop_parent None False p))
    \<and> pa_should_stop (start_services h sc st t (stop_parent None False p)) = 0
    \<and> pa_should_stop (on_sigterm (start_services h sc st t (stop_parent None False p))) = 1"
  using assms by (simp add: survivors_def stop_graceful stop_parent_def start_services_def on_sigterm_def Let_def)

theorem late_sigterm_stops_next_run_witness:
  "pa_should_stop (on_sigterm (start_services True False False 5 (stop_parent None False
     (parent_new\<lparr>pa_procs := [\<lparr>pc_id = 7, pc_alive = True, pc_temper = Busy\<rparr>]\<rparr>)))) = 1"
  using late_sigterm_stops_next_run [of "\<lparr>pc_id = 7, pc_alive = True, pc_temper = Busy\<rparr>"
      "parent_new\<lparr>pa_procs := [\<lparr>pc_id = 7, pc_alive = True, pc_temper = Busy\<rparr>]\<rparr>"] by simp

section \<open>Ctrl+C while iterating\<close>

text \<open>
  The iterator's \<open>SIGINT\<close> handler: it puts the previous handler back (the default, if there was none),
  starts the drain, and tells roughly how many items are under way.
\<close>

datatype handler = Default_int | Other_handler nat | Drain_handler

record sigint =
  si_current :: handler
  si_prev :: "handler option"

definition install_drain :: "sigint \<Rightarrow> sigint" where
  "install_drain s = \<lparr>si_current = Drain_handler, si_prev = Some (si_current s)\<rparr>"

definition on_sigint :: "sigint \<times> parent \<Rightarrow> (sigint \<times> parent) \<times> bool" where
  "on_sigint = (\<lambda>(s, p).
     if si_current s = Drain_handler
     then ((s\<lparr>si_current := (case si_prev s of Some h \<Rightarrow> h | None \<Rightarrow> Default_int)\<rparr>, p\<lparr>pa_drain := True\<rparr>), False)
     else ((s, p), si_current s = Default_int))"

definition in_flight :: "(int \<times> int) list \<Rightarrow> int" where
  "in_flight qs = sum_list (map (\<lambda>(qsize, chunk_eff). qsize * max 1 chunk_eff) qs)"

definition uninstall_drain :: "sigint \<Rightarrow> sigint" where
  "uninstall_drain s = (case si_prev s of Some h \<Rightarrow> s\<lparr>si_current := h\<rparr> | None \<Rightarrow> s)"

text \<open>
  The first Ctrl+C drains and the second interrupts: with Python's default handler installed before,
  the first signal sets the drain event and raises nothing, the second raises \<open>KeyboardInterrupt\<close>, and
  whether or not a signal came, the handler from before is back when the iteration ends.
\<close>

theorem ctrl_c_drains_then_interrupts:
  assumes "si_current s = Default_int"
  shows "\<exists>s1 p1. on_sigint (install_drain s, p) = ((s1, p1), False) \<and> pa_drain p1 \<and> on_sigint (s1, p1) = ((s1, p1), True)
    \<and> si_current (uninstall_drain s1) = Default_int \<and> si_current (uninstall_drain (install_drain s)) = Default_int"
  using assms by (simp add: on_sigint_def install_drain_def uninstall_drain_def)

theorem ctrl_c_drains_then_interrupts_witness:
  "\<exists>s1 p1. on_sigint (install_drain \<lparr>si_current = Default_int, si_prev = None\<rparr>, parent_new) = ((s1, p1), False) \<and> pa_drain p1"
  using ctrl_c_drains_then_interrupts [of "\<lparr>si_current = Default_int, si_prev = None\<rparr>" parent_new] by auto

end
