(* ===== verification/Pipe_Monitor.thy ===== *)
theory Pipe_Monitor
  imports Pipe_Plan
begin

text \<open>
  The parent's monitors, \<^verbatim>\<open>src/pipe/monitors.py\<close>: \<open>_kill_hung_workers\<close>, the crash handling of
  \<open>_health_monitor_thread\<close> and the figures of \<open>_collect_stats\<close> and \<open>_queue_bar\<close>. Process
  states, clocks and counters are arguments; the effect of a health check is the list of workers
  killed and what is restarted.
\<close>

section \<open>Workers that hang\<close>

record worker_view =
  wv_id :: string
  wv_alive :: bool
  wv_watch :: "(real \<times> real) option"

text \<open>
  \<open>_kill_hung_workers\<close>: the identifiers it kills, in order. A watch is the start stamp of the
  running call (0 for none) and the stage's timeout; \<open>held\<close> are the frozen and parked workers.
\<close>

definition hung :: "string set \<Rightarrow> real \<Rightarrow> worker_view \<Rightarrow> bool" where
  "hung held now v =
     (case wv_watch v of
        None \<Rightarrow> False
      | Some (started, timeout) \<Rightarrow>
          wv_id v \<notin> held \<and> wv_alive v \<and> started \<noteq> 0 \<and> timeout < now - started)"

definition kill_hung_workers :: "string set \<Rightarrow> real \<Rightarrow> worker_view list \<Rightarrow> worker_view list \<times> string list" where
  "kill_hung_workers held now vs =
     (map (\<lambda>v. if hung held now v
           then v\<lparr>wv_alive := False, wv_watch := map_option (\<lambda>(_, t). (0, t)) (wv_watch v)\<rparr> else v) vs,
      map wv_id (filter (hung held now) vs))"

text \<open>
  The hang check kills exactly the live, watched workers that have been inside one call for
  longer than their timeout, never one that is frozen or parked, and clears their stamp, so that a
  second check right after kills nobody.
\<close>

theorem kill_hung_exact:
  "(\<forall>v. v \<in> set vs \<and> hung held now v \<longrightarrow> wv_id v \<in> set (snd (kill_hung_workers held now vs)))
   \<and> (\<forall>w. w \<in> set (snd (kill_hung_workers held now vs)) \<longrightarrow> w \<notin> held \<and>
        (\<exists>v started timeout. v \<in> set vs \<and> wv_id v = w \<and> wv_alive v \<and> wv_watch v = Some (started, timeout)
           \<and> started \<noteq> 0 \<and> timeout < now - started))
   \<and> snd (kill_hung_workers held now (fst (kill_hung_workers held now vs))) = []"
proof -
  have "\<not> hung held now (if hung held now v
           then v\<lparr>wv_alive := False, wv_watch := map_option (\<lambda>(_, t). (0, t)) (wv_watch v)\<rparr> else v)" for v
    by (auto simp: hung_def split: option.splits)
  then have "snd (kill_hung_workers held now (fst (kill_hung_workers held now vs))) = []"
    by (simp add: kill_hung_workers_def filter_map o_def filter_empty_conv)
  moreover have "\<forall>w. w \<in> set (snd (kill_hung_workers held now vs)) \<longrightarrow> w \<notin> held \<and>
        (\<exists>v started timeout. v \<in> set vs \<and> wv_id v = w \<and> wv_alive v \<and> wv_watch v = Some (started, timeout)
           \<and> started \<noteq> 0 \<and> timeout < now - started)"
    by (auto simp: kill_hung_workers_def hung_def split: option.splits)
  ultimately show ?thesis by (auto simp: kill_hung_workers_def)
qed

theorem kill_hung_exact_witness:
  "snd (kill_hung_workers {''b''} 100
     [\<lparr>wv_id = ''a'', wv_alive = True, wv_watch = Some (10, 30)\<rparr>, \<lparr>wv_id = ''b'', wv_alive = True, wv_watch = Some (10, 30)\<rparr>])
   = [''a'']
   \<and> ''b'' \<notin> set (snd (kill_hung_workers {''b''} 100
     [\<lparr>wv_id = ''a'', wv_alive = True, wv_watch = Some (10, 30)\<rparr>, \<lparr>wv_id = ''b'', wv_alive = True, wv_watch = Some (10, 30)\<rparr>]))"
  using kill_hung_exact [of "[\<lparr>wv_id = ''a'', wv_alive = True, wv_watch = Some (10, 30)\<rparr>, \<lparr>wv_id = ''b'', wv_alive = True, wv_watch = Some (10, 30)\<rparr>]" "{''b''}" 100]
  by (simp add: kill_hung_workers_def hung_def)

section \<open>Workers that crash\<close>

definition CRASH_WINDOW :: real where "CRASH_WINDOW = 300"
definition MAX_CRASHES_IN_WINDOW :: nat where "MAX_CRASHES_IN_WINDOW = 3"

type_synonym history = "string \<Rightarrow> (real \<times> int) list"

text \<open>The loop over the crashed workers: the history it leaves and whether it asks for a full restart.\<close>

definition note_crash :: "real \<Rightarrow> string \<Rightarrow> int \<Rightarrow> history \<Rightarrow> history" where
  "note_crash now w exitcode h =
     h(w := filter (\<lambda>(t, e). now - t < CRASH_WINDOW) (h w @ [(now, exitcode)]))"

fun scan_crashes :: "real \<Rightarrow> (string \<times> int) list \<Rightarrow> history \<Rightarrow> history \<times> bool" where
  "scan_crashes now [] h = (h, False)"
| "scan_crashes now ((w, exitcode) # cs) h =
     (let h1 = note_crash now w exitcode h in
      if exitcode = -11 \<or> exitcode = -7 then (h1, True)
      else if MAX_CRASHES_IN_WINDOW \<le> length (h1 w) then (h1, True)
      else scan_crashes now cs h1)"

datatype health_action = FullRestart | RestartWorkers "string list" | NoAction

text \<open>
  A round of the monitor after the hang check: workers dead with a non-zero exit code, the decision,
  and the history afterwards. A full restart that succeeds clears the history.
\<close>

fun crashed :: "(string \<times> bool \<times> int option) list \<Rightarrow> (string \<times> int) list" where
  "crashed [] = []"
| "crashed ((w, alive, code) # ps) =
     (case code of
        Some c \<Rightarrow> if \<not> alive \<and> c \<noteq> 0 then (w, c) # crashed ps else crashed ps
      | None \<Rightarrow> crashed ps)"

definition health_round ::
  "bool \<Rightarrow> bool \<Rightarrow> bool \<Rightarrow> real \<Rightarrow> (string \<times> bool \<times> int option) list \<Rightarrow> history \<Rightarrow> history \<times> health_action" where
  "health_round allow_full_restart draining restart_ok now procs h =
     (let cs = crashed procs in
      if cs = [] then (h, NoAction)
      else case scan_crashes now cs h of
        (h1, need) \<Rightarrow>
          if need \<and> allow_full_restart \<and> \<not> draining
          then (if restart_ok then (\<lambda>_. []) else h1, FullRestart)
          else (h1, RestartWorkers (map fst cs)))"

definition serious :: "int \<Rightarrow> bool" where
  "serious e \<longleftrightarrow> e = -11 \<or> e = -7"

definition recent :: "real \<Rightarrow> history \<Rightarrow> string \<Rightarrow> nat" where
  "recent now h w = length (filter (\<lambda>(t, e). now - t < CRASH_WINDOW) (h w))"

lemma crashed_iff: "(w, e) \<in> set (crashed procs) \<longleftrightarrow> (w, False, Some e) \<in> set procs \<and> e \<noteq> 0"
  by (induction procs rule: crashed.induct) (auto split: option.splits)

lemma crashed_distinct: "distinct (map fst procs) \<Longrightarrow> distinct (map fst (crashed procs))"
  by (induction procs rule: crashed.induct) (force simp: crashed_iff split: option.splits)+

lemma note_crash_recent: "length (note_crash now w e h w) = Suc (recent now h w)"
  by (simp add: note_crash_def recent_def CRASH_WINDOW_def)

lemma scan_crashes_need:
  assumes "distinct (map fst cs)"
  shows "snd (scan_crashes now cs h) \<longleftrightarrow> (\<exists>(w, e) \<in> set cs. serious e \<or> 3 \<le> Suc (recent now h w))"
  using assms
proof (induction cs arbitrary: h)
  case (Cons c cs)
  obtain w e where c: "c = (w, e)" by force
  have same: "recent now (note_crash now w e h) v = recent now h v" if "v \<noteq> w" for v
    using that by (simp add: recent_def note_crash_def)
  have "(\<exists>(v, x) \<in> set cs. serious x \<or> 3 \<le> Suc (recent now (note_crash now w e h) v))
      \<longleftrightarrow> (\<exists>(v, x) \<in> set cs. serious x \<or> 3 \<le> Suc (recent now h v))"
    using Cons.prems c same by (force simp: image_iff)
  with Cons c show ?case
    by (auto simp: Let_def serious_def MAX_CRASHES_IN_WINDOW_def note_crash_recent)
qed simp

text \<open>
  The health monitor rebuilds the whole pipeline exactly when it may (full restarts are allowed
  and no drain is under way) and must: some crashed worker died of a memory error, or crashed at
  least three times within five minutes; otherwise it restarts each crashed worker in place, and a
  worker that is alive or exited normally is never restarted.
\<close>

theorem health_round_decision:
  assumes "distinct (map fst procs)" and "crashed procs \<noteq> []"
  shows "snd (health_round allow draining ok now procs h) =
    (if allow \<and> \<not> draining \<and> (\<exists>(w, e) \<in> set (crashed procs). serious e \<or> 3 \<le> Suc (recent now h w))
     then FullRestart else RestartWorkers (map fst (crashed procs)))
   \<and> (\<forall>w e. (w, e) \<in> set (crashed procs) \<longleftrightarrow> (w, False, Some e) \<in> set procs \<and> e \<noteq> 0)"
proof -
  note n = scan_crashes_need [OF crashed_distinct [OF assms(1)], of now h]
  obtain h1 need where "scan_crashes now (crashed procs) h = (h1, need)" by force
  then show ?thesis using assms(2) n by (auto simp: health_round_def Let_def crashed_iff)
qed

theorem health_round_decision_witness:
  "snd (health_round True False True 100 [(''a'', True, None), (''b'', False, Some (-9))]
      (\<lambda>_. [(50, -9), (60, -9)])) = FullRestart
   \<and> snd (health_round True True True 100 [(''a'', True, None), (''b'', False, Some (-9))]
      (\<lambda>_. [(50, -9), (60, -9)])) = RestartWorkers [''b'']"
  using health_round_decision [of "[(''a'', True, None), (''b'', False, Some (-9))]" True False True 100 "\<lambda>_. [(50, -9), (60, -9)]"]
    health_round_decision [of "[(''a'', True, None), (''b'', False, Some (-9))]" True True True 100 "\<lambda>_. [(50, -9), (60, -9)]"]
  by (simp add: recent_def CRASH_WINDOW_def)

section \<open>Statistics\<close>

record worker_stats =
  st_items :: nat
  st_audio :: real
  st_start :: "real option"

record stage_info =
  sg_done :: bool
  sg_qsize :: nat
  sg_qmax :: nat
  sg_chunk_eff :: nat
  sg_total_workers :: int
  sg_finished :: int

record stage_stats =
  ss_idx :: nat
  ss_done :: bool
  ss_qsize :: nat
  ss_qmax :: nat
  ss_items :: nat
  ss_active :: int
  ss_total_workers :: int
  ss_stage_rtf :: real
  ss_avg_worker_rtf :: real
  ss_has_audio :: bool

definition UNBOUNDED_QMAX :: nat where "UNBOUNDED_QMAX = 1000000"

text \<open>\<open>_collect_stats\<close> for one stage; \<open>td\<close> is the timing dictionary. Division by zero is guarded as in the code.\<close>

definition stage_workers :: "(string \<times> worker_stats) list \<Rightarrow> nat \<Rightarrow> worker_stats list" where
  "stage_workers td i = map snd (filter (\<lambda>(w, s). stage_of_id w = int i) td)"

definition earliest_start :: "worker_stats list \<Rightarrow> real option" where
  "earliest_start ws =
     fold (\<lambda>s m. case st_start s of None \<Rightarrow> m | Some t \<Rightarrow> (case m of None \<Rightarrow> Some t | Some u \<Rightarrow> if t < u then Some t else m)) ws None"

definition collect_stage :: "real \<Rightarrow> (string \<times> worker_stats) list \<Rightarrow> nat \<Rightarrow> stage_info \<Rightarrow> stage_stats" where
  "collect_stage now td i g =
     (let ws = stage_workers td i;
          qmax = (if UNBOUNDED_QMAX < sg_qmax g then 0 else sg_qmax g);
          scale = (if 1 < sg_chunk_eff g then sg_chunk_eff g else 1);
          audio = sum_list (map st_audio ws);
          rtfs = List.map_filter (\<lambda>s. case st_start s of
              Some t \<Rightarrow> if 0 < now - t then Some (st_audio s / (now - t)) else None | None \<Rightarrow> None) ws;
          wall = (case earliest_start ws of Some t \<Rightarrow> if t \<noteq> 0 then now - t else 0 | None \<Rightarrow> 0)
      in \<lparr>ss_idx = i, ss_done = sg_done g, ss_qsize = sg_qsize g * scale, ss_qmax = qmax * scale,
          ss_items = sum_list (map st_items ws), ss_active = sg_total_workers g - sg_finished g,
          ss_total_workers = sg_total_workers g,
          ss_stage_rtf = (if 0 < wall then audio / wall else 0),
          ss_avg_worker_rtf = (if rtfs \<noteq> [] then sum_list rtfs / real (length rtfs) else 0),
          ss_has_audio = (0 < audio)\<rparr>)"

definition collect_stats :: "real \<Rightarrow> (string \<times> worker_stats) list \<Rightarrow> stage_info list \<Rightarrow> stage_stats list" where
  "collect_stats now td infos = map (\<lambda>(i, g). collect_stage now td i g) (enumerate 0 infos)"

text \<open>\<open>_queue_bar\<close>: the bar and the colour.\<close>

definition queue_bar :: "nat \<Rightarrow> nat \<Rightarrow> nat \<Rightarrow> (string \<times> string) option" where
  "queue_bar qsize qmax width =
     (if qmax = 0 then None
      else
        let fill = real qsize / real qmax;
            filled = nat \<lfloor>fill * real width\<rfloor>
        in Some (replicate filled CHR ''|'' @ replicate (width - filled) CHR '' '',
                 if 0.8 \<le> fill then ''red'' else if 0.5 \<le> fill then ''yellow'' else ''green''))"

lemma stage_items_sum:
  "sum_list (map ss_items (map (\<lambda>(i, g). collect_stage now td i g) (enumerate k infos)))
   = sum_list (map (\<lambda>x. st_items (snd x)) (filter (\<lambda>(w, s). int k \<le> stage_of_id w \<and> stage_of_id w < int (k + length infos)) td))"
proof (induction infos arbitrary: k)
  case Nil
  have "filter (\<lambda>(w, s). int k \<le> stage_of_id w \<and> stage_of_id w < int k) td = []" by (auto simp: filter_empty_conv)
  then show ?case by (simp del: of_nat_add)
next
  case (Cons g infos)
  have split: "sum_list (map (\<lambda>x. st_items (snd x)) (filter (\<lambda>(w, s). int k \<le> stage_of_id w \<and> stage_of_id w < int (k + Suc n)) xs))
     = sum_list (map (\<lambda>x. st_items (snd x)) (filter (\<lambda>(w, s). stage_of_id w = int k) xs))
       + sum_list (map (\<lambda>x. st_items (snd x)) (filter (\<lambda>(w, s). int (Suc k) \<le> stage_of_id w \<and> stage_of_id w < int (Suc k + n)) xs))"
    for n and xs :: "(string \<times> worker_stats) list"
    by (induction xs) auto
  have "ss_items (collect_stage now td k g) = sum_list (map (\<lambda>x. st_items (snd x)) (filter (\<lambda>(w, s). stage_of_id w = int k) td))"
    by (simp add: collect_stage_def stage_workers_def Let_def o_def)
  then show ?case
    using Cons.IH [of "Suc k"] split [of "length infos" td] by (simp del: of_nat_add of_nat_Suc)
qed

text \<open>
  The statistics account for every item: the items of all stages together are the items of all
  workers of the pipeline's stages, whatever the timing dictionary holds; a stage's fill ratio is the
  same in items as in messages; and the bar is as wide as asked for as long as the queue is not over
  its bound.
\<close>

theorem collect_stats_accounts:
  "sum_list (map ss_items (collect_stats now td infos))
     = sum_list (map (\<lambda>x. st_items (snd x)) (filter (\<lambda>(w, s). 0 \<le> stage_of_id w \<and> stage_of_id w < int (length infos)) td))
   \<and> (i < length infos \<and> 0 < sg_qmax (infos ! i) \<and> sg_qmax (infos ! i) \<le> UNBOUNDED_QMAX \<longrightarrow>
        ss_qsize (collect_stats now td infos ! i) * sg_qmax (infos ! i) = sg_qsize (infos ! i) * ss_qmax (collect_stats now td infos ! i))
   \<and> (qsize \<le> qmax \<and> queue_bar qsize qmax width = Some (bar, col) \<longrightarrow> length bar = width)"
proof (intro conjI impI)
  show "sum_list (map ss_items (collect_stats now td infos))
     = sum_list (map (\<lambda>x. st_items (snd x)) (filter (\<lambda>(w, s). 0 \<le> stage_of_id w \<and> stage_of_id w < int (length infos)) td))"
    using stage_items_sum [of now td 0 infos] by (simp add: collect_stats_def)
next
  assume "i < length infos \<and> 0 < sg_qmax (infos ! i) \<and> sg_qmax (infos ! i) \<le> UNBOUNDED_QMAX"
  then show "ss_qsize (collect_stats now td infos ! i) * sg_qmax (infos ! i) = sg_qsize (infos ! i) * ss_qmax (collect_stats now td infos ! i)"
    by (simp add: collect_stats_def nth_enumerate_eq collect_stage_def Let_def)
next
  assume a: "qsize \<le> qmax \<and> queue_bar qsize qmax width = Some (bar, col)"
  then have q: "qmax \<noteq> 0" by (cases "qmax = 0") (auto simp: queue_bar_def)
  then have "real qsize / real qmax \<le> 1" using a by simp
  then have "real qsize / real qmax * real width \<le> 1 * real width"
    by (rule mult_right_mono) simp
  then have "nat \<lfloor>real qsize / real qmax * real width\<rfloor> \<le> width" by linarith
  with a q show "length bar = width" by (auto simp: queue_bar_def Let_def)
qed

theorem collect_stats_accounts_witness:
  "sum_list (map ss_items (collect_stats 10 [(''stage_0_worker_0'', \<lparr>st_items = 4, st_audio = 0, st_start = None\<rparr>)]
      [\<lparr>sg_done = False, sg_qsize = 1, sg_qmax = 2, sg_chunk_eff = 8, sg_total_workers = 1, sg_finished = 0\<rparr>])) = 4
   \<and> length (fst (the (queue_bar 1 2 10))) = 10"
proof -
  have "stage_of_id ''stage_0_worker_0'' = 0" by code_simp
  moreover obtain bar col where b: "queue_bar 1 2 10 = Some (bar, col)" by (simp add: queue_bar_def Let_def)
  ultimately show ?thesis
    using collect_stats_accounts [of 10 "[(''stage_0_worker_0'', \<lparr>st_items = 4, st_audio = 0, st_start = None\<rparr>)]"
      "[\<lparr>sg_done = False, sg_qsize = 1, sg_qmax = 2, sg_chunk_eff = 8, sg_total_workers = 1, sg_finished = 0\<rparr>]" 0 1 2 10 bar col]
    by simp
qed

end
