(* ===== verification/Pipe_Display.thy ===== *)
theory Pipe_Display
  imports Pipe_Monitor
begin

text \<open>
  What a running pipeline shows: messages above a pinned statistics line (\<^verbatim>\<open>src/pipe/utils.py\<close>), the
  smoothed rates and the text line of the statistics monitors (\<^verbatim>\<open>src/pipe/monitors.py\<close>), and the
  profile summary (\<^verbatim>\<open>src/pipe/profiling.py\<close>).
\<close>

section \<open>The pinned line\<close>

text \<open>
  A terminal: the finished lines and the line the cursor is in. The output is text, the carriage
  return with erase that opens every repaint, and newlines.
\<close>

datatype out = Erase | Text string | Newline

record screen =
  tm_done :: "string list"
  tm_line :: string

fun show_out :: "out \<Rightarrow> screen \<Rightarrow> screen" where
  "show_out Erase s = s\<lparr>tm_line := []\<rparr>"
| "show_out (Text t) s = s\<lparr>tm_line := tm_line s @ t\<rparr>"
| "show_out Newline s = \<lparr>tm_done = tm_done s @ [tm_line s], tm_line = []\<rparr>"

text \<open>\<open>print_above\<close>, \<open>_pin_stats_line\<close>, \<open>_unpin_stats_line\<close>: what they write, and the pinned line afterwards.\<close>

definition print_above :: "bool \<Rightarrow> string option \<Rightarrow> string \<Rightarrow> out list" where
  "print_above tty pinned msg =
     (if tty then [Erase, Text msg, Newline] @ (case pinned of Some t \<Rightarrow> [Text t] | None \<Rightarrow> []) else [Text msg, Newline])"

definition pin_stats_line :: "string \<Rightarrow> out list" where
  "pin_stats_line t = [Erase, Text t]"

definition unpin_stats_line :: "string option \<Rightarrow> out list" where
  "unpin_stats_line pinned = (case pinned of Some t \<Rightarrow> [Newline] | None \<Rightarrow> [])"

datatype display_op = Above string | Pin string | Unpin

fun display_step :: "display_op \<Rightarrow> string option \<times> screen \<Rightarrow> string option \<times> screen" where
  "display_step (Above msg) (p, s) = (p, fold show_out (print_above True p msg) s)"
| "display_step (Pin t) (p, s) = (Some t, fold show_out (pin_stats_line t) s)"
| "display_step Unpin (p, s) = (None, fold show_out (unpin_stats_line p) s)"

fun lines_of :: "display_op list \<Rightarrow> string option \<Rightarrow> string list" where
  "lines_of [] p = []"
| "lines_of (Above msg # ops) p = msg # lines_of ops p"
| "lines_of (Pin t # ops) p = lines_of ops (Some t)"
| "lines_of (Unpin # ops) p = (case p of Some t \<Rightarrow> [t] | None \<Rightarrow> []) @ lines_of ops None"

lemma display_from:
  "tm_line s = (case p of Some t \<Rightarrow> t | None \<Rightarrow> []) \<Longrightarrow> fold display_step ops (p, s) = (p', s') \<Longrightarrow>
   tm_done s' = tm_done s @ lines_of ops p \<and> tm_line s' = (case p' of Some t \<Rightarrow> t | None \<Rightarrow> [])"
proof (induction ops arbitrary: p s)
  case (Cons x ops)
  obtain p1 s1 where st: "display_step x (p, s) = (p1, s1)" by fastforce
  have "tm_line s1 = (case p1 of Some t \<Rightarrow> t | None \<Rightarrow> []) \<and> tm_done s1 @ lines_of ops p1 = tm_done s @ lines_of (x # ops) p"
    using st Cons.prems(1)
    by (cases x) (auto simp: print_above_def pin_stats_line_def unpin_stats_line_def split: option.splits)
  then show ?case using Cons.IH [of s1 p1] Cons.prems(2) st by simp
qed simp

text \<open>
  Messages never clobber the statistics line and are never lost to it: after any sequence of
  messages, repaints and unpins on a terminal, the lines above are the messages (and the last frame
  of every unpinned line) in order, and the current line shows the pinned text and nothing else.
\<close>

theorem display_keeps_messages:
  assumes "fold display_step ops (None, \<lparr>tm_done = [], tm_line = []\<rparr>) = (pinned, s)"
  shows "tm_done s = lines_of ops None \<and> tm_line s = (case pinned of Some t \<Rightarrow> t | None \<Rightarrow> [])"
  using display_from [OF _ assms] by simp

theorem display_keeps_messages_witness:
  "tm_done (snd (fold display_step [Pin ''[3] a'', Above ''hi'', Pin ''[4] a''] (None, \<lparr>tm_done = [], tm_line = []\<rparr>))) = [''hi'']"
  using display_keeps_messages [of "[Pin ''[3] a'', Above ''hi'', Pin ''[4] a'']"] by simp

section \<open>Rates\<close>

text \<open>The exponential moving average of the rich monitor: the last snapshot of a stage and its rate.\<close>

definition EMA_ALPHA :: real where "EMA_ALPHA = 3 / 10"

definition rate_step :: "real \<times> real \<Rightarrow> (real \<times> real) option \<times> real option \<Rightarrow> (real \<times> real) option \<times> real option" where
  "rate_step = (\<lambda>(now, items) (snap, rate).
     let (prev_time, prev_items) = (case snap of Some x \<Rightarrow> x | None \<Rightarrow> (now, items));
         dt = now - prev_time;
         rate1 = (if 0 < dt
                  then let inst = (items - prev_items) / dt; old = (case rate of Some r \<Rightarrow> r | None \<Rightarrow> inst)
                       in Some (EMA_ALPHA * inst + (1 - EMA_ALPHA) * old)
                  else rate)
     in (Some (now, items), rate1))"

fun instant_rates :: "real \<times> real \<Rightarrow> (real \<times> real) list \<Rightarrow> real list" where
  "instant_rates p [] = []"
| "instant_rates (t, n) ((t', n') # xs) = (if 0 < t' - t then (n' - n) / (t' - t) # instant_rates (t', n') xs else instant_rates (t', n') xs)"

lemma rate_between:
  "(\<And>r. rate = Some r \<Longrightarrow> lo \<le> r \<and> r \<le> hi) \<Longrightarrow> (\<And>r. r \<in> set (instant_rates p xs) \<Longrightarrow> lo \<le> r \<and> r \<le> hi) \<Longrightarrow>
   fold rate_step xs (Some p, rate) = (snap, Some r) \<Longrightarrow> lo \<le> r \<and> r \<le> hi"
proof (induction xs arbitrary: p rate)
  case (Cons x xs)
  obtain t n where p: "p = (t, n)" by (cases p)
  obtain t' n' where x: "x = (t', n')" by (cases x)
  define inst where "inst = (n' - n) / (t' - t)"
  define rate1 where "rate1 = (if 0 < t' - t then Some (EMA_ALPHA * inst + (1 - EMA_ALPHA) * (case rate of Some r \<Rightarrow> r | None \<Rightarrow> inst)) else rate)"
  have st: "rate_step x (Some p, rate) = (Some x, rate1)" unfolding rate_step_def p x rate1_def inst_def Let_def by simp
  have "lo \<le> q \<and> q \<le> hi" if "rate1 = Some q" for q
  proof (cases "0 < t' - t")
    case True
    then have i: "lo \<le> inst \<and> inst \<le> hi" using Cons.prems(2) by (simp add: p x inst_def)
    define old where "old = (case rate of Some r \<Rightarrow> r | None \<Rightarrow> inst)"
    have "lo \<le> old \<and> old \<le> hi" using Cons.prems(1) i by (cases rate) (auto simp: old_def)
    then show ?thesis using that True i by (simp add: rate1_def old_def [symmetric] EMA_ALPHA_def)
  qed (use that Cons.prems(1) in \<open>simp add: rate1_def\<close>)
  moreover have "lo \<le> q \<and> q \<le> hi" if "q \<in> set (instant_rates x xs)" for q
    using Cons.prems(2) that by (simp add: p x split: if_splits)
  moreover have "fold rate_step xs (Some x, rate1) = (snap, Some r)" using Cons.prems(3) st by simp
  ultimately show ?case using Cons.IH [of rate1 x] by blast
qed simp

text \<open>
  The rate shown for a stage is an average: it lies between the smallest and the largest rate
  measured between two samples, however irregular the samples are; so with counts that never fall it
  is never negative.
\<close>

theorem shown_rate_bounds:
  assumes "fold rate_step ((t0, n0) # xs) (None, None) = (snap, Some r)"
    and "\<And>x. x \<in> set (instant_rates (t0, n0) xs) \<Longrightarrow> lo \<le> x \<and> x \<le> hi"
  shows "lo \<le> r \<and> r \<le> hi"
proof -
  have "rate_step (t0, n0) (None, None) = (Some (t0, n0), None)" by (simp add: rate_step_def)
  then show ?thesis using rate_between [of None lo hi "(t0, n0)" xs snap r] assms by auto
qed

theorem shown_rate_bounds_witness:
  "\<exists>snap r. fold rate_step ((0, 0) # [(1, 40), (2, 100)]) (None, None) = (snap, Some r) \<and> 40 \<le> r \<and> r \<le> 60"
proof -
  have "fold rate_step ((0, 0) # [(1, 40), (2, 100)]) (None, None) = (Some (2, 100), Some 46)"
    by (simp add: rate_step_def EMA_ALPHA_def)
  moreover from this have "40 \<le> (46 :: real) \<and> (46 :: real) \<le> 60" by (rule shown_rate_bounds) auto
  ultimately show ?thesis by blast
qed

section \<open>The text line\<close>

definition queue_color :: "nat \<Rightarrow> nat \<Rightarrow> string" where
  "queue_color qsize qmax =
     (if qmax = 0 then ''dim''
      else if 4 / 5 \<le> real qsize / real qmax then ''red'' else if 1 / 2 \<le> real qsize / real qmax then ''yellow'' else ''green'')"

text \<open>The total of the final stage, and a part for every stage that is not done.\<close>

definition text_parts :: "string list \<Rightarrow> stage_stats list \<Rightarrow> nat \<times> (string \<times> string \<times> string \<times> real \<times> real) list" where
  "text_parts names all_stats =
     (fold (\<lambda>s n. if ss_idx s = length names - 1 then ss_items s else n) all_stats 0,
      map (\<lambda>s. (take 4 (names ! ss_idx s), queue_color (ss_qsize s) (ss_qmax s),
               if ss_qmax s \<noteq> 0 then nat_str (ss_qsize s) @ ''/'' @ nat_str (ss_qmax s) else nat_str (ss_qsize s),
               ss_stage_rtf s, ss_avg_worker_rtf s))
        (filter (\<lambda>s. \<not> ss_done s) all_stats))"

section \<open>The profile summary\<close>

record profile_row =
  pr_worker :: string
  pr_stage :: string
  pr_cpu :: real
  pr_rss_mb :: real
  pr_top :: string

text \<open>\<open>stats\<close> gives the profile of a worker, if its file exists; \<open>rss\<close> the peak recorded for it.\<close>

definition profile_rows :: "(string \<Rightarrow> (real \<times> string) option) \<Rightarrow> (string \<Rightarrow> nat option) \<Rightarrow> (string \<times> string) list \<Rightarrow> profile_row list" where
  "profile_rows stats rss info =
     map (\<lambda>(w, stage).
       let mb = (case rss w of Some k \<Rightarrow> real k / 1024 | None \<Rightarrow> 0)
       in case stats w of
            Some (cpu, funcs) \<Rightarrow> \<lparr>pr_worker = w, pr_stage = stage, pr_cpu = cpu, pr_rss_mb = mb, pr_top = funcs\<rparr>
          | None \<Rightarrow> \<lparr>pr_worker = w, pr_stage = stage, pr_cpu = 0, pr_rss_mb = mb, pr_top = []\<rparr>) info"

fun top_by_stage :: "string list \<Rightarrow> profile_row list \<Rightarrow> profile_row list" where
  "top_by_stage seen [] = []"
| "top_by_stage seen (r # rs) =
     (if pr_stage r \<in> set seen \<or> pr_top r = [] then top_by_stage seen rs else r # top_by_stage (pr_stage r # seen) rs)"

text \<open>Every stage that has a profile is shown once.\<close>

lemma top_by_stage_distinct:
  "distinct (map pr_stage (top_by_stage seen rs)) \<and> set (map pr_stage (top_by_stage seen rs)) \<inter> set seen = {}
   \<and> set (map pr_stage (top_by_stage seen rs)) = {pr_stage r | r. r \<in> set rs \<and> pr_top r \<noteq> []} - set seen"
proof (induction rs arbitrary: seen)
  case (Cons r rs)
  show ?case
  proof (cases "pr_stage r \<in> set seen \<or> pr_top r = []")
    case True
    then show ?thesis using Cons.IH [of seen] by auto
  next
    case False
    then show ?thesis using Cons.IH [of "pr_stage r # seen"] by auto
  qed
qed simp

end
