(* ===== verification/Pipe_Web.thy ===== *)
theory Pipe_Web
  imports Pipe_Channels
begin

text \<open>
  The HTTP server over a pipeline (\<^verbatim>\<open>src/pipe/web.py\<close>): the request handlers and the counters they
  keep. The web framework, \<open>torch.save\<close> and the compressor are parameters; the final queue is what the
  handler reads from it.
\<close>

section \<open>Serializing\<close>

text \<open>\<open>_validate_compression\<close> with \<open>HAS_LZ4\<close>.\<close>

definition validate_compression :: "bool \<Rightarrow> string \<Rightarrow> exn + unit" where
  "validate_compression has_lz4 compression =
     (if compression = ''lz4'' \<and> \<not> has_lz4 then Inl ImportE
      else if compression \<notin> {''none'', ''lz4''} then Inl ValueE
      else Inr ())"

record ('a, 'c) codec =
  cd_save :: "'a val \<Rightarrow> exn + 'c"
  cd_lz4 :: "'c \<Rightarrow> 'c"
  cd_len :: "'c \<Rightarrow> nat"

definition serialize :: "('a, 'c) codec \<Rightarrow> 'a val \<Rightarrow> string \<Rightarrow> exn + 'c" where
  "serialize cd item compression =
     (case cd_save cd item of Inl e \<Rightarrow> Inl e | Inr data \<Rightarrow> Inr (if compression = ''lz4'' then cd_lz4 cd data else data))"

text \<open>What \<open>SerializerWorker\<close> returns for an item, and how the server reads it back.\<close>

record 'c packed =
  pk_data :: 'c
  pk_compression :: "string option"
  pk_size :: "nat option"

definition serializer_call :: "('a, 'c) codec \<Rightarrow> string \<Rightarrow> 'a val \<Rightarrow> exn + 'c packed" where
  "serializer_call cd compression item =
     (case serialize cd item compression of
        Inl e \<Rightarrow> Inl e
      | Inr data \<Rightarrow> Inr \<lparr>pk_data = data, pk_compression = Some compression, pk_size = Some (cd_len cd data)\<rparr>)"

section \<open>The server\<close>

record server =
  sv_compression :: string
  sv_timeout :: real
  sv_pre_serialized :: bool
  sv_served :: nat
  sv_errors :: nat
  sv_bytes :: nat
  sv_start :: "real option"
  sv_last :: "real option"

definition server_new :: "bool \<Rightarrow> string \<Rightarrow> real \<Rightarrow> bool \<Rightarrow> exn + server" where
  "server_new has_lz4 compression timeout pre_serialized =
     (case (if pre_serialized then Inr () else validate_compression has_lz4 compression) of
        Inl e \<Rightarrow> Inl e
      | Inr _ \<Rightarrow> Inr \<lparr>sv_compression = compression, sv_timeout = timeout, sv_pre_serialized = pre_serialized, sv_served = 0,
          sv_errors = 0, sv_bytes = 0, sv_start = None, sv_last = None\<rparr>)"

datatype 'c response = Item 'c string nat nat | Unavailable | ServerError exn

text \<open>
  The wait for an item: every round reads the clock and, before the deadline, the queue. \<open>None\<close>: the
  rounds seen so far do not end the wait.
\<close>

fun next_item :: "real \<Rightarrow> (real \<times> (exn + 'a val)) list \<Rightarrow> (exn + 'a val) option" where
  "next_item deadline [] = None"
| "next_item deadline ((now, got) # rs) =
     (if deadline - now \<le> 0 then Some (Inl EmptyE)
      else
        case got of
          Inl e \<Rightarrow> Some (Inl e)
        | Inr item \<Rightarrow> if is_end item then next_item deadline rs else Some (Inr item))"

text \<open>\<open>isinstance(item, dict) and "data" in item\<close>, with its fields.\<close>

definition render :: "('a, 'c) codec \<Rightarrow> ('a val \<Rightarrow> 'c packed option) \<Rightarrow> server \<Rightarrow> 'a val \<Rightarrow> exn + 'c \<times> string \<times> nat" where
  "render cd dict sv item =
     (if sv_pre_serialized sv then
        (case dict item of
           None \<Rightarrow> Inl ValueE
         | Some d \<Rightarrow>
             Inr (pk_data d, (case pk_compression d of Some c \<Rightarrow> c | None \<Rightarrow> ''none''),
                  (case pk_size d of Some n \<Rightarrow> n | None \<Rightarrow> cd_len cd (pk_data d))))
      else
        (case serialize cd item (sv_compression sv) of
           Inl e \<Rightarrow> Inl e
         | Inr data \<Rightarrow> Inr (data, sv_compression sv, cd_len cd data)))"

text \<open>
  \<open>/next\<close>: \<open>outcome\<close> is how the wait ended (\<open>EmptyE\<close> also for a \<open>TimeoutError\<close>, which is answered the same
  way), \<open>done_at\<close> the clock after it.
\<close>

definition get_next :: "('a, 'c) codec \<Rightarrow> ('a val \<Rightarrow> 'c packed option) \<Rightarrow> real \<Rightarrow> exn + 'a val \<Rightarrow> server \<Rightarrow> server \<times> 'c response" where
  "get_next cd dict done_at outcome sv =
     (case (case outcome of Inl e \<Rightarrow> Inl e | Inr item \<Rightarrow> render cd dict sv item) of
        Inl e \<Rightarrow> if e = EmptyE then (sv, Unavailable) else (sv\<lparr>sv_errors := Suc (sv_errors sv)\<rparr>, ServerError e)
      | Inr (data, compression, n) \<Rightarrow>
          let sv1 = sv\<lparr>sv_served := Suc (sv_served sv), sv_last := Some done_at, sv_bytes := sv_bytes sv + n\<rparr>
          in (sv1, Item data compression (sv_served sv1) n))"

definition health :: "bool list \<Rightarrow> real \<Rightarrow> server \<Rightarrow> bool \<times> nat \<times> nat \<times> real \<times> real option" where
  "health alive now sv =
     (list_all id alive, sv_served sv, sv_errors sv, (case sv_start sv of Some t \<Rightarrow> now - t | None \<Rightarrow> 0),
      map_option (\<lambda>t. now - t) (sv_last sv))"

definition web_stats :: "real \<Rightarrow> server \<Rightarrow> real \<times> real \<times> real" where
  "web_stats now sv =
     (let uptime = (case sv_start sv of Some t \<Rightarrow> now - t | None \<Rightarrow> 0)
      in (uptime, (if 0 < uptime then real (sv_served sv) / uptime else 0),
          (if 0 < uptime then real (sv_bytes sv) / uptime else 0) / 1024 / 1024))"

section \<open>A sequence of requests\<close>

fun serve :: "('a, 'c) codec \<Rightarrow> ('a val \<Rightarrow> 'c packed option) \<Rightarrow> (real \<times> (exn + 'a val)) list \<Rightarrow> server \<Rightarrow> server \<times> 'c response list" where
  "serve cd dict [] sv = (sv, [])"
| "serve cd dict ((t, r) # rs) sv =
     (case get_next cd dict t r sv of (sv1, resp) \<Rightarrow> case serve cd dict rs sv1 of (sv2, resps) \<Rightarrow> (sv2, resp # resps))"

fun served_items :: "'c response list \<Rightarrow> ('c \<times> nat \<times> nat) list" where
  "served_items [] = []"
| "served_items (Item c cmp k n # rs) = (c, k, n) # served_items rs"
| "served_items (_ # rs) = served_items rs"

definition is_error :: "'c response \<Rightarrow> bool" where
  "is_error r = (case r of ServerError e \<Rightarrow> True | _ \<Rightarrow> False)"

definition rendered :: "('a, 'c) codec \<Rightarrow> ('a val \<Rightarrow> 'c packed option) \<Rightarrow> server \<Rightarrow> real \<times> (exn + 'a val) \<Rightarrow> 'c list" where
  "rendered cd dict sv r =
     (case snd r of
        Inl e \<Rightarrow> []
      | Inr item \<Rightarrow> (case render cd dict sv item of Inl e \<Rightarrow> [] | Inr (data, cmp, n) \<Rightarrow> [data]))"

lemma render_cong:
  "sv_compression sv' = sv_compression sv \<Longrightarrow> sv_pre_serialized sv' = sv_pre_serialized sv \<Longrightarrow> render cd dict sv' = render cd dict sv"
  unfolding render_def fun_eq_iff by (simp split: sum.splits)

lemma serve_from:
  "serve cd dict rs sv = (sv', resps) \<Longrightarrow>
   sv_served sv' = sv_served sv + length (served_items resps)
   \<and> map (fst \<circ> snd) (served_items resps) = [Suc (sv_served sv)..<Suc (sv_served sv')]
   \<and> sv_errors sv' = sv_errors sv + length (filter is_error resps)
   \<and> sv_bytes sv' = sv_bytes sv + sum_list (map (snd \<circ> snd) (served_items resps))
   \<and> map fst (served_items resps) = concat (map (rendered cd dict sv) rs)"
proof (induction rs arbitrary: sv resps)
  case Nil
  then show ?case by auto
next
  case (Cons x rs)
  obtain t r where x: "x = (t, r)" by (cases x)
  obtain sv1 resp where g: "get_next cd dict t r sv = (sv1, resp)" by fastforce
  obtain rest where s: "serve cd dict rs sv1 = (sv', rest)" "resps = resp # rest"
    using Cons.prems x g by (auto split: prod.splits)
  have same: "sv_compression sv1 = sv_compression sv" "sv_pre_serialized sv1 = sv_pre_serialized sv"
    using g by (auto simp: get_next_def Let_def split: sum.splits if_splits prod.splits)
  have ren: "rendered cd dict sv1 = rendered cd dict sv"
    unfolding rendered_def fun_eq_iff render_cong [OF same] by simp
  note ih = Cons.IH [OF s(1)]
  consider e where "resp = ServerError e" "sv1 = sv\<lparr>sv_errors := Suc (sv_errors sv)\<rparr>" "rendered cd dict sv x = []"
    | "resp = Unavailable" "sv1 = sv" "rendered cd dict sv x = []"
    | c cmp n where "resp = Item c cmp (Suc (sv_served sv)) n"
        "sv1 = sv\<lparr>sv_served := Suc (sv_served sv), sv_last := Some t, sv_bytes := sv_bytes sv + n\<rparr>" "rendered cd dict sv x = [c]"
    using g x by (auto simp: get_next_def rendered_def Let_def split: sum.splits if_splits prod.splits)
  then show ?case
  proof cases
    case 1
    then show ?thesis using ih ren s(2) by (simp add: is_error_def)
  next
    case 2
    then show ?thesis using ih ren s(2) by (simp add: is_error_def)
  next
    case (3 c cmp n)
    have "[Suc (sv_served sv)..<Suc (sv_served sv')] = Suc (sv_served sv) # [Suc (Suc (sv_served sv))..<Suc (sv_served sv')]"
      by (rule upt_conv_Cons) (use ih 3(2) in simp)
    then show ?thesis using 3 ih ren s(2) by (simp add: is_error_def del: upt_Suc)
  qed
qed

text \<open>
  The server's counters tell the truth: over any sequence of requests, the items counted are the
  item responses, numbered without gaps in their header, the bytes counted are the sum of their
  sizes, the errors counted are the error responses, and the contents delivered are the items taken
  from the queue, in order, less those that could not be serialized.
\<close>

theorem web_counters:
  assumes "server_new has_lz4 compression timeout pre = Inr sv" and "serve cd dict rs sv = (sv', resps)"
  shows "map (fst \<circ> snd) (served_items resps) = [1..<Suc (sv_served sv')]
    \<and> sv_served sv' = length (served_items resps) \<and> sv_errors sv' = length (filter is_error resps)
    \<and> sv_bytes sv' = sum_list (map (snd \<circ> snd) (served_items resps))
    \<and> map fst (served_items resps) = concat (map (rendered cd dict sv) rs)"
proof -
  have "sv_served sv = 0" "sv_errors sv = 0" "sv_bytes sv = 0"
    using assms(1) by (auto simp: server_new_def split: sum.splits if_splits)
  then show ?thesis using serve_from [OF assms(2)] by simp
qed

theorem web_counters_witness:
  "\<exists>sv sv' resps. server_new False ''none'' 30 False = Inr sv \<and>
     serve \<lparr>cd_save = (\<lambda>v. if v = NoneV then Inl TypeE else Inr [1 :: nat, 2]), cd_lz4 = (\<lambda>x. x), cd_len = length\<rparr> (\<lambda>_. None)
       [(1, Inr (Obj 5)), (2, Inr NoneV), (3, Inl EmptyE), (4, Inr (Obj (7 :: nat)))] sv = (sv', resps)
     \<and> sv_served sv' = 2 \<and> map (fst \<circ> snd) (served_items resps) = [1..<3]"
proof -
  let ?cd = "\<lparr>cd_save = (\<lambda>v :: nat val. if v = NoneV then Inl TypeE else Inr [1 :: nat, 2]), cd_lz4 = (\<lambda>x. x), cd_len = length\<rparr>"
  let ?sv = "\<lparr>sv_compression = ''none'', sv_timeout = 30, sv_pre_serialized = False, sv_served = 0, sv_errors = 0, sv_bytes = 0,
    sv_start = None, sv_last = None\<rparr>"
  let ?rs = "[(1, Inr (Obj 5)), (2, Inr NoneV), (3, Inl EmptyE), (4, Inr (Obj 7))]"
  have n: "server_new False ''none'' 30 False = Inr ?sv" by (simp add: server_new_def validate_compression_def)
  obtain sv' resps where s: "serve ?cd (\<lambda>_. None) ?rs ?sv = (sv', resps)" by fastforce
  have "sv_served (fst (serve ?cd (\<lambda>_. None) ?rs ?sv)) = 2" by (simp add: get_next_def render_def serialize_def Let_def)
  then have served: "sv_served sv' = 2" unfolding s by simp
  have "map (fst \<circ> snd) (served_items resps) = [1..<Suc (sv_served sv')]" using web_counters [OF n s] by blast
  then have "map (fst \<circ> snd) (served_items resps) = [1..<3]" unfolding served by (simp only: eval_nat_numeral)
  with n s served show ?thesis by blast
qed



end
