(* ===== verification/Pipe_Surface.thy ===== *)
theory Pipe_Surface
  imports Pipe_Chain Pipe_Shutdown Pipe_Display Pipe_Web
begin

text \<open>
  The outer edges of the program: what a user of \<open>Pipe\<close> calls (\<^verbatim>\<open>src/pipe/pipe.py\<close>) and the first steps of
  \<open>start\<close> (\<^verbatim>\<open>src/pipe/lifecycle.py\<close>), the loops of the monitor threads around their rounds
  (\<^verbatim>\<open>src/pipe/monitors.py\<close>), the transport's modules and the timed queue's non-blocking calls
  (\<^verbatim>\<open>src/pipe/queues.py\<close>), and the web server's reader and lifetime (\<^verbatim>\<open>src/pipe/web.py\<close>).
\<close>

section \<open>Starting and iterating\<close>

text \<open>
  The parent as far as \<open>start\<close> and \<open>__iter__\<close> look at it: whether it counts as started, its stages, its
  done events.
\<close>

record front =
  fr_started :: bool
  fr_sequential :: bool
  fr_jobs :: "job list"
  fr_done_events :: nat

text \<open>
  \<open>start\<close> notes that the pipeline is started before it looks at the stages; a sequential pipeline needs
  nothing more, any other gets one done event per stage.
\<close>

definition front_start :: "front \<Rightarrow> front \<times> exn option" where
  "front_start f =
     (let f1 = f\<lparr>fr_started := True\<rparr> in
      case start_check (fr_jobs f) of
        Inl _ \<Rightarrow> (f1, Some ValueE)
      | Inr jobs \<Rightarrow> (f1\<lparr>fr_jobs := jobs, fr_done_events := if fr_sequential f then fr_done_events f else length jobs\<rparr>, None))"

datatype entry = RunSequential | ReadQueue | EntryRaises exn

text \<open>The beginning of \<open>__iter__\<close>: the last done event of a pipeline without any raises \<open>IndexError\<close>.\<close>

definition iter_entry :: "front \<Rightarrow> front \<times> entry" where
  "iter_entry f =
     (case (if fr_started f then (f, None) else front_start f) of
        (f1, Some e) \<Rightarrow> (f1, EntryRaises e)
      | (f1, None) \<Rightarrow>
          (f1, if fr_sequential f1 then RunSequential else if fr_done_events f1 = 0 then EntryRaises IndexE else ReadQueue))"

text \<open>What \<open>start\<close> sets up before the queues: nothing in sequential mode; a manager when statistics are on.\<close>

record start_env =
  su_manager :: bool
  su_profile_dir :: bool
  su_store :: bool

definition start_setup :: "bool \<Rightarrow> bool \<Rightarrow> bool \<Rightarrow> bool \<Rightarrow> start_env option" where
  "start_setup sequential has_manager stats_on profile =
     (if sequential then None
      else Some \<lparr>su_manager = has_manager \<or> stats_on, su_profile_dir = profile, su_store = True\<rparr>)"

text \<open>\<open>gpus\<close>: counted when first asked for, unless set by hand.\<close>

definition gpus :: "nat \<Rightarrow> nat option \<Rightarrow> nat option \<times> nat" where
  "gpus counted memo = (case memo of Some n \<Rightarrow> (memo, n) | None \<Rightarrow> (Some counted, counted))"

text \<open>\<open>run\<close> counts what the iteration yields; \<open>None\<close> if it has not completed or did not complete normally.\<close>

definition run_count :: "'a iter_turn \<Rightarrow> nat option" where
  "run_count t = (case t of Complete st \<Rightarrow> Some (length (it_yielded st)) | _ \<Rightarrow> None)"

text \<open>\<open>__del__\<close> stops by force what is still running.\<close>

definition del_pipe :: "bool \<Rightarrow> parent \<Rightarrow> parent" where
  "del_pipe started p = (if started \<and> (pa_procs p \<noteq> [] \<or> pa_queues p \<noteq> []) then stop_parent None True p else p)"

lemma run_counts_items:
  "(\<forall>m \<in> set ms. payloads m \<noteq> []) \<Longrightarrow> run_count (read_all ms) = Some (length (filter (\<lambda>x. \<not> is_end x) (unchunk ms)))"
  using read_all_yields [of ms] by (auto simp: run_count_def)

text \<open>
  A pipeline whose start failed counts as started: the first iteration says what is wrong with its stages,
  every later one raises an \<open>IndexError\<close> instead, also after the stages have been put right, since the
  pipeline is not started again; a pipeline that starts is read or run as it should.
\<close>

theorem failed_start_counts_as_started:
  assumes "\<not> fr_started f" and "\<not> fr_sequential f" and "fr_done_events f = 0"
  shows "(start_check (fr_jobs f) = Inl e \<longrightarrow>
        snd (iter_entry f) = EntryRaises ValueE
        \<and> (\<forall>jobs. snd (iter_entry ((fst (iter_entry f))\<lparr>fr_jobs := jobs\<rparr>)) = EntryRaises IndexE))
    \<and> (start_check (fr_jobs f) = Inr jobs \<longrightarrow> snd (iter_entry f) = ReadQueue \<and> fr_done_events (fst (iter_entry f)) = length jobs)"
proof -
  have "jobs \<noteq> []" if "start_check (fr_jobs f) = Inr jobs"
    using that by (auto simp: start_check_def Let_def split: list.splits option.splits)
  then show ?thesis using assms by (simp add: iter_entry_def front_start_def Let_def)
qed

theorem failed_start_counts_as_started_witness:
  "snd (iter_entry \<lparr>fr_started = False, fr_sequential = False, fr_jobs = [], fr_done_events = 0\<rparr>) = EntryRaises ValueE
   \<and> snd (iter_entry ((fst (iter_entry \<lparr>fr_started = False, fr_sequential = False, fr_jobs = [], fr_done_events = 0\<rparr>))
        \<lparr>fr_jobs := [sample_job True]\<rparr>)) = EntryRaises IndexE"
  using failed_start_counts_as_started [of "\<lparr>fr_started = False, fr_sequential = False, fr_jobs = [], fr_done_events = 0\<rparr>" NoWorkers]
  by (simp add: start_check_def)

section \<open>Monitor threads\<close>

text \<open>
  A round of a monitor thread: the stop flag or event at the head of the loop and after the wait, and what
  it then sees. The wait ends early when the event is set.
\<close>

record health_obs =
  ho_stop :: bool
  ho_stop_after :: bool
  ho_held :: "string set"
  ho_views :: "worker_view list"
  ho_allow :: bool
  ho_draining :: bool
  ho_restart_ok :: bool
  ho_now :: real
  ho_procs :: "(string \<times> bool \<times> int option) list"

text \<open>
  \<open>_health_monitor_thread\<close>: per round the workers killed for hanging and what is restarted; the flag
  says whether the thread has ended.
\<close>

fun health_loop :: "health_obs list \<Rightarrow> history \<Rightarrow> (string list \<times> health_action) list \<times> history \<times> bool" where
  "health_loop [] h = ([], h, False)"
| "health_loop (ob # obs) h =
     (if ho_stop ob \<or> ho_stop_after ob then ([], h, True)
      else
        case health_round (ho_allow ob) (ho_draining ob) (ho_restart_ok ob) (ho_now ob) (ho_procs ob) h of
          (h1, a) \<Rightarrow>
            (case health_loop obs h1 of
               (as, h2, ended) \<Rightarrow> ((snd (kill_hung_workers (ho_held ob) (ho_now ob) (ho_views ob)), a) # as, h2, ended)))"

text \<open>
  Once the stop flag or event is seen, the monitor kills and restarts nothing more: its actions are those
  of the rounds before.
\<close>

lemma health_loop_stops:
  assumes "\<forall>ob \<in> set obs. \<not> ho_stop ob \<and> \<not> ho_stop_after ob" and "ho_stop ob \<or> ho_stop_after ob"
    and "health_loop obs h = (as, h1, e)"
  shows "health_loop (obs @ ob # later) h = (as, h1, True) \<and> length as = length obs"
  using assms
proof (induction obs arbitrary: h as h1 e)
  case (Cons x obs)
  obtain h2 a where r: "health_round (ho_allow x) (ho_draining x) (ho_restart_ok x) (ho_now x) (ho_procs x) h = (h2, a)" by fastforce
  obtain as' h3 e' where l: "health_loop obs h2 = (as', h3, e')" by (cases "health_loop obs h2") auto
  have x: "\<not> ho_stop x" "\<not> ho_stop_after x" and rest: "\<forall>ob \<in> set obs. \<not> ho_stop ob \<and> \<not> ho_stop_after ob" using Cons.prems(1) by simp_all
  have "as = (snd (kill_hung_workers (ho_held x) (ho_now x) (ho_views x)), a) # as'" "h1 = h3" using Cons.prems(3) x r l by simp_all
  with Cons.IH [OF rest Cons.prems(2) l] x r show ?case by simp
qed simp

text \<open>
  \<open>_stats_monitor_thread_text\<close>: a line per round with statistics, pinned on a terminal and printed
  elsewhere; the end unpins. The operations are those of the display.
\<close>

record stats_obs =
  sb_stop :: bool
  sb_stop_after :: bool
  sb_timing :: bool
  sb_line :: string

fun stats_text_loop :: "bool \<Rightarrow> stats_obs list \<Rightarrow> display_op list \<times> bool" where
  "stats_text_loop tty [] = ([], False)"
| "stats_text_loop tty (ob # obs) =
     (if sb_stop ob \<or> sb_stop_after ob then ([Unpin], True)
      else case stats_text_loop tty obs of
        (ops, ended) \<Rightarrow> ((if \<not> sb_timing ob then [] else if tty then [Pin (sb_line ob)] else [Above (sb_line ob)]) @ ops, ended))"

text \<open>A statistics monitor that has ended leaves no pinned line, and its last line stands finished above the cursor.\<close>

lemma stats_text_loop_unpins:
  assumes "stats_text_loop True obs = (ops, True)" and "fold display_step ops (None, \<lparr>tm_done = [], tm_line = []\<rparr>) = (pinned, s)"
  shows "pinned = None \<and> tm_line s = []"
proof -
  have "\<exists>ops'. ops = ops' @ [Unpin]" using assms(1)
  proof (induction obs arbitrary: ops)
    case (Cons ob obs)
    show ?case
    proof (cases "sb_stop ob \<or> sb_stop_after ob")
      case False
      then obtain pre ops1 where "ops = pre @ ops1" "stats_text_loop True obs = (ops1, True)" using Cons.prems by (auto split: prod.splits)
      with Cons.IH show ?thesis by fastforce
    qed (use Cons.prems in simp)
  qed simp
  then have "pinned = None" using assms(2) by (auto simp: case_prod_beta elim: display_step.elims)
  then show ?thesis using display_from [OF _ assms(2)] by simp
qed

section \<open>Transport\<close>

text \<open>\<open>_transport\<close>: without the compiled modules, an error that says how to get them.\<close>

definition transport :: "exn + 'm \<Rightarrow> exn + 'm" where
  "transport imported = (case imported of Inl e \<Rightarrow> Inl (if e = ImportE then OtherExn else e) | Inr m \<Rightarrow> Inr m)"

text \<open>The instrumented queue's \<open>put_nowait\<close> and \<open>get_nowait\<close>: as \<open>put\<close> and \<open>get\<close>, which in the model never wait.\<close>

definition iq_put_nowait :: "real \<Rightarrow> 'm \<Rightarrow> 'm iqueue \<Rightarrow> 'm iqueue \<times> (exn + unit)" where
  "iq_put_nowait now m q =
     (case bq_put (m, now) (iq_queue q) of
        (q1, Inr True) \<Rightarrow> (q\<lparr>iq_queue := q1, iq_items_put := iq_items_put q + 1\<rparr>, Inr ())
      | (q1, Inr False) \<Rightarrow> (q\<lparr>iq_queue := q1\<rparr>, Inl FullE)
      | (q1, Inl e) \<Rightarrow> (q\<lparr>iq_queue := q1\<rparr>, Inl e))"

definition iq_get_nowait :: "real \<Rightarrow> 'm iqueue \<Rightarrow> 'm iqueue \<times> (exn + 'm)" where
  "iq_get_nowait now q =
     (case bq_get (iq_queue q) of
        (q1, Inr (Some (m, put_time))) \<Rightarrow>
          (q\<lparr>iq_queue := q1, iq_total_transit := iq_total_transit q + (now - put_time), iq_items_got := iq_items_got q + 1\<rparr>, Inr m)
      | (q1, Inr None) \<Rightarrow> (q\<lparr>iq_queue := q1\<rparr>, Inl EmptyE)
      | (q1, Inl e) \<Rightarrow> (q\<lparr>iq_queue := q1\<rparr>, Inl e))"

lemma iq_nowait: "iq_put_nowait now m q = iq_put now m q" "iq_get_nowait now q = iq_get now q"
  by (simp_all only: iq_put_nowait_def iq_put_def iq_get_nowait_def iq_get_def)

section \<open>The web server's lifetime\<close>

text \<open>
  The reader of the final queue: kept while the queue is the same one, made anew after a start or restart;
  \<open>q\<close> identifies the last queue, if there is one. What the old reader had buffered is dropped.
\<close>

definition web_channel :: "nat option \<Rightarrow> (nat \<times> 'a in_channel) option \<Rightarrow> exn + nat \<times> 'a in_channel" where
  "web_channel q ch =
     (case q of
        None \<Rightarrow> Inl IndexE
      | Some i \<Rightarrow> (case ch of Some (j, c) \<Rightarrow> if i = j then Inr (j, c) else Inr (i, ic_new) | None \<Rightarrow> Inr (i, ic_new)))"

definition lifespan :: "real \<Rightarrow> (parent \<Rightarrow> parent) \<Rightarrow> (server \<times> parent \<Rightarrow> server \<times> parent) \<Rightarrow> server \<times> parent \<Rightarrow> server \<times> parent" where
  "lifespan now start serving = (\<lambda>(sv, p).
     case serving (sv\<lparr>sv_start := Some now\<rparr>, start p) of (sv1, p1) \<Rightarrow> (sv1, stop_parent None False p1))"

definition queue_depth :: "nat option \<Rightarrow> (nat \<Rightarrow> exn + nat) \<Rightarrow> nat option" where
  "queue_depth q qsize = (case q of None \<Rightarrow> None | Some i \<Rightarrow> (case qsize i of Inl _ \<Rightarrow> None | Inr n \<Rightarrow> Some n))"

end
