(* ===== verification/Pipe_Lock.thy ===== *)
theory Pipe_Lock
  imports Pipe_Prelude "HOL-Library.Word"
begin

text \<open>
  The process-shared mutex of \<^verbatim>\<open>rust/src/sys.rs\<close>, which guards the ring and the payload store: a
  32-bit word that is 0 when free and otherwise the holder's pid, with the top bit set while somebody
  may be asleep on it. Threads of any number of processes run \<open>lock\<close> and \<open>unlock\<close> one atomic operation
  at a time, in any order, and a process can be killed between any two of them. The theory shows that
  at most one thread holds the lock, that a dead holder never blocks the others, and that no wake-up
  is lost.
\<close>

unbundle bit_operations_syntax

section \<open>The lock word\<close>

definition WAITERS :: "32 word" where "WAITERS = push_bit 31 1"

abbreviation holder_of :: "32 word \<Rightarrow> 32 word" where
  "holder_of v \<equiv> v AND NOT WAITERS"

abbreviation has_waiters :: "32 word \<Rightarrow> bool" where
  "has_waiters v \<equiv> v AND WAITERS \<noteq> 0"

text \<open>A pid: not 0, and below the top bit.\<close>

definition is_pid :: "32 word \<Rightarrow> bool" where
  "is_pid p \<longleftrightarrow> p \<noteq> 0 \<and> p AND WAITERS = 0"

lemma bit_WAITERS: "bit WAITERS n \<longleftrightarrow> n = 31"
  unfolding WAITERS_def bit_push_bit_iff by (auto simp: bit_1_iff)

lemma no_waiters_bit: "v AND WAITERS = 0 \<longleftrightarrow> \<not> bit v 31"
proof
  assume "v AND WAITERS = 0"
  then have "\<not> bit (v AND WAITERS) 31" by simp
  then show "\<not> bit v 31" by (simp add: bit_and_iff bit_WAITERS)
next
  assume "\<not> bit v 31"
  then show "v AND WAITERS = 0" by (intro bit_word_eqI) (auto simp: bit_and_iff bit_WAITERS)
qed

lemma holder_of_marked [simp]: "holder_of (v OR WAITERS) = holder_of v"
  by (intro bit_word_eqI) (auto simp: bit_and_iff bit_or_iff bit_not_iff bit_WAITERS)

lemma holder_of_pid: "is_pid p \<Longrightarrow> holder_of p = p"
  by (intro bit_word_eqI) (auto simp: is_pid_def no_waiters_bit bit_and_iff bit_not_iff bit_WAITERS)

lemma marked_has_waiters [simp]: "has_waiters (v OR WAITERS)"
  unfolding no_waiters_bit by (simp add: bit_or_iff bit_WAITERS)

lemma marked_nonzero [simp]: "v OR WAITERS \<noteq> 0"
proof
  assume "v OR WAITERS = 0"
  then have "\<not> bit (v OR WAITERS) 31" by simp
  then show False by (simp add: bit_or_iff bit_WAITERS)
qed

lemma WAITERS_nonzero [simp]: "WAITERS \<noteq> 0"
  using marked_nonzero [of 0] by simp

lemma marked_id: "has_waiters v \<Longrightarrow> v OR WAITERS = v"
  unfolding no_waiters_bit by (intro bit_word_eqI) (auto simp: bit_or_iff bit_WAITERS)

lemma zero_word [simp]: "\<not> has_waiters 0" "holder_of 0 = 0"
  by simp_all

section \<open>Threads\<close>

text \<open>
  Where a thread is in \<open>lock\<close> or \<open>unlock\<close>. \<open>Fast\<close>: the first attempt and the spinning; \<open>Slow\<close>: the head
  of the loop; \<open>Loaded v\<close>: it has read \<open>v\<close>; \<open>Marked v\<close>: about to sleep on \<open>v | WAITERS\<close>; \<open>Asleep v\<close>;
  \<open>Woke v\<close>: back from the wait; \<open>Judge v\<close>: the word has not moved for a slice, so ask whether the holder
  lives; \<open>Grab v\<close>: it does not; \<open>Waking\<close>: unlocked, about to wake a sleeper.
\<close>

datatype pc = Out | Fast | Slow | Loaded "32 word" | Marked "32 word" | Asleep "32 word" | Woke "32 word"
  | Judge "32 word" | Grab "32 word" | Holding | Waking

record lock_state =
  lk_word :: "32 word"
  lk_pc :: "nat \<Rightarrow> pc"
  lk_dead :: "32 word set"

definition lock_init :: lock_state where
  "lock_init = \<lparr>lk_word = 0, lk_pc = (\<lambda>_. Out), lk_dead = {}\<rparr>"

definition alive_thread :: "(nat \<Rightarrow> 32 word) \<Rightarrow> lock_state \<Rightarrow> nat \<Rightarrow> bool" where
  "alive_thread pid s t \<longleftrightarrow> pid t \<notin> lk_dead s"

definition goto :: "nat \<Rightarrow> pc \<Rightarrow> lock_state \<Rightarrow> lock_state" where
  "goto t c s = s\<lparr>lk_pc := (lk_pc s)(t := c)\<rparr>"

definition set_word :: "32 word \<Rightarrow> lock_state \<Rightarrow> lock_state" where
  "set_word w s = s\<lparr>lk_word := w\<rparr>"

lemma goto_sel [simp]:
  "lk_word (goto t c s) = lk_word s" "lk_dead (goto t c s) = lk_dead s" "lk_pc (goto t c s) = (lk_pc s)(t := c)"
  "lk_word (set_word w s) = w" "lk_dead (set_word w s) = lk_dead s" "lk_pc (set_word w s) = lk_pc s"
  "alive_thread pid (goto t c s) u = alive_thread pid s u" "alive_thread pid (set_word w s) u = alive_thread pid s u"
  by (simp_all add: goto_def set_word_def alive_thread_def)

text \<open>
  One step of thread \<open>t\<close>; a compare-and-swap succeeds exactly if the word is the expected one. A sleep
  ends by a wake-up or by its timeout, and the waker wakes one sleeper if there is one.
\<close>

inductive locker_step :: "(nat \<Rightarrow> 32 word) \<Rightarrow> nat \<Rightarrow> lock_state \<Rightarrow> lock_state \<Rightarrow> bool" for pid t where
  lk_enter: "lk_pc s t = Out \<Longrightarrow> locker_step pid t s (goto t Fast s)"
| lk_fast: "lk_pc s t = Fast \<Longrightarrow> lk_word s = 0 \<Longrightarrow> locker_step pid t s (goto t Holding (set_word (pid t) s))"
| lk_spin: "lk_pc s t = Fast \<Longrightarrow> lk_word s \<noteq> 0 \<Longrightarrow> locker_step pid t s s"
| lk_slow: "lk_pc s t = Fast \<Longrightarrow> locker_step pid t s (goto t Slow s)"
| lk_load: "lk_pc s t = Slow \<Longrightarrow> locker_step pid t s (goto t (Loaded (lk_word s)) s)"
| lk_take: "lk_pc s t = Loaded 0 \<Longrightarrow> lk_word s = 0 \<Longrightarrow> locker_step pid t s (goto t Holding (set_word (pid t OR WAITERS) s))"
| lk_lost: "lk_pc s t = Loaded 0 \<Longrightarrow> lk_word s \<noteq> 0 \<Longrightarrow> locker_step pid t s (goto t Slow s)"
| lk_marked: "lk_pc s t = Loaded v \<Longrightarrow> v \<noteq> 0 \<Longrightarrow> has_waiters v \<Longrightarrow> locker_step pid t s (goto t (Marked v) s)"
| lk_mark: "lk_pc s t = Loaded v \<Longrightarrow> v \<noteq> 0 \<Longrightarrow> \<not> has_waiters v \<Longrightarrow> lk_word s = v \<Longrightarrow>
    locker_step pid t s (goto t (Marked v) (set_word (v OR WAITERS) s))"
| lk_moved: "lk_pc s t = Loaded v \<Longrightarrow> v \<noteq> 0 \<Longrightarrow> \<not> has_waiters v \<Longrightarrow> lk_word s \<noteq> v \<Longrightarrow> locker_step pid t s (goto t Slow s)"
| lk_sleep: "lk_pc s t = Marked v \<Longrightarrow> lk_word s = v OR WAITERS \<Longrightarrow> locker_step pid t s (goto t (Asleep v) s)"
| lk_nosleep: "lk_pc s t = Marked v \<Longrightarrow> lk_word s \<noteq> v OR WAITERS \<Longrightarrow> locker_step pid t s (goto t (Woke v) s)"
| lk_timeout: "lk_pc s t = Asleep v \<Longrightarrow> locker_step pid t s (goto t (Woke v) s)"
| lk_changed: "lk_pc s t = Woke v \<Longrightarrow> lk_word s \<noteq> v OR WAITERS \<Longrightarrow> locker_step pid t s (goto t Slow s)"
| lk_judge: "lk_pc s t = Woke v \<Longrightarrow> lk_word s = v OR WAITERS \<Longrightarrow> locker_step pid t s (goto t (Judge v) s)"
| lk_soon: "lk_pc s t = Judge v \<Longrightarrow> locker_step pid t s (goto t Slow s)"
| lk_dead: "lk_pc s t = Judge v \<Longrightarrow> holder_of v \<noteq> pid t \<Longrightarrow> holder_of v \<in> lk_dead s \<Longrightarrow> locker_step pid t s (goto t (Grab v) s)"
| lk_grab: "lk_pc s t = Grab v \<Longrightarrow> lk_word s = v OR WAITERS \<Longrightarrow>
    locker_step pid t s (goto t Holding (set_word (pid t OR WAITERS) s))"
| lk_beaten: "lk_pc s t = Grab v \<Longrightarrow> lk_word s \<noteq> v OR WAITERS \<Longrightarrow> locker_step pid t s (goto t Slow s)"
| lk_unlock: "lk_pc s t = Holding \<Longrightarrow> \<not> has_waiters (lk_word s) \<Longrightarrow> locker_step pid t s (goto t Out (set_word 0 s))"
| lk_release: "lk_pc s t = Holding \<Longrightarrow> has_waiters (lk_word s) \<Longrightarrow> locker_step pid t s (goto t Waking (set_word 0 s))"
| lk_wake: "lk_pc s t = Waking \<Longrightarrow> lk_pc s u = Asleep v \<Longrightarrow> alive_thread pid s u \<Longrightarrow>
    locker_step pid t s (goto u (Woke v) (goto t Out s))"
| lk_none: "lk_pc s t = Waking \<Longrightarrow> (\<And>u v. alive_thread pid s u \<Longrightarrow> lk_pc s u \<noteq> Asleep v) \<Longrightarrow> locker_step pid t s (goto t Out s)"

text \<open>A step of the system: of a thread that lives, or the death of a process with all its threads.\<close>

inductive lock_step :: "(nat \<Rightarrow> 32 word) \<Rightarrow> lock_state \<Rightarrow> lock_state \<Rightarrow> bool" for pid where
  ls_thread: "alive_thread pid s t \<Longrightarrow> locker_step pid t s s' \<Longrightarrow> lock_step pid s s'"
| ls_kill: "lock_step pid s (s\<lparr>lk_dead := insert p (lk_dead s)\<rparr>)"

abbreviation lock_steps :: "(nat \<Rightarrow> 32 word) \<Rightarrow> lock_state \<Rightarrow> lock_state \<Rightarrow> bool" where
  "lock_steps pid \<equiv> (lock_step pid)\<^sup>*\<^sup>*"

section \<open>Mutual exclusion\<close>

definition holds :: "(nat \<Rightarrow> 32 word) \<Rightarrow> lock_state \<Rightarrow> nat \<Rightarrow> bool" where
  "holds pid s t \<longleftrightarrow> alive_thread pid s t \<and> lk_pc s t = Holding"

text \<open>
  The invariant: a thread that holds the lock is the one the word names, it is the only one, a word
  that is not 0 names a thread that holds it or a dead process, and whoever is about to take the lock
  over does so from a dead process.
\<close>

definition lock_inv :: "(nat \<Rightarrow> 32 word) \<Rightarrow> lock_state \<Rightarrow> bool" where
  "lock_inv pid s \<longleftrightarrow>
     (\<forall>t. holds pid s t \<longrightarrow> holder_of (lk_word s) = pid t) \<and>
     (\<forall>t u. holds pid s t \<and> holds pid s u \<longrightarrow> t = u) \<and>
     (lk_word s \<noteq> 0 \<longrightarrow> holder_of (lk_word s) \<in> lk_dead s \<or> (\<exists>t. holds pid s t)) \<and>
     (\<forall>t v. alive_thread pid s t \<and> lk_pc s t = Grab v \<longrightarrow> holder_of v \<in> lk_dead s)"

lemma lock_init_inv: "lock_inv pid lock_init"
  by (simp add: lock_inv_def lock_init_def holds_def)

lemma holds_goto:
  "holds pid (goto t c s) u \<longleftrightarrow> (if u = t then alive_thread pid s t \<and> c = Holding else holds pid s u)"
  "holds pid (set_word w s) u \<longleftrightarrow> holds pid s u"
  by (auto simp: holds_def)

lemma inv_goto:
  assumes "lock_inv pid s" and "\<not> holds pid s t" and "c \<noteq> Holding" and "\<And>v. c = Grab v \<Longrightarrow> holder_of v \<in> lk_dead s"
  shows "lock_inv pid (goto t c s)"
proof -
  have "holds pid (goto t c s) u \<longleftrightarrow> holds pid s u" for u using assms(2,3) by (auto simp: holds_goto)
  then show ?thesis using assms(1,4) by (auto simp: lock_inv_def)
qed

lemma inv_take:
  assumes "lock_inv pid s" and "\<And>u. \<not> holds pid s u" and "alive_thread pid s t" and "holder_of w = pid t"
  shows "lock_inv pid (goto t Holding (set_word w s))"
proof -
  have "holds pid (goto t Holding (set_word w s)) u \<longleftrightarrow> u = t" for u using assms(2,3) by (auto simp: holds_goto)
  then show ?thesis using assms(1,4) by (auto simp: lock_inv_def)
qed

lemma inv_mark: "lock_inv pid s \<Longrightarrow> lk_word s \<noteq> 0 \<Longrightarrow> lock_inv pid (set_word (lk_word s OR WAITERS) s)"
  by (simp add: lock_inv_def holds_goto)

lemma inv_release:
  assumes "lock_inv pid s" and "holds pid s t" and "c \<in> {Out, Waking}"
  shows "lock_inv pid (goto t c (set_word 0 s))"
proof -
  have "\<not> holds pid (goto t c (set_word 0 s)) u" for u
    using assms by (auto simp: holds_goto lock_inv_def split: if_splits)
  then show ?thesis using assms(1,3) by (auto simp: lock_inv_def)
qed

lemma inv_kill:
  assumes "lock_inv pid s"
  shows "lock_inv pid (s\<lparr>lk_dead := insert p (lk_dead s)\<rparr>)"
proof -
  let ?s = "s\<lparr>lk_dead := insert p (lk_dead s)\<rparr>"
  have h: "holds pid ?s t \<longleftrightarrow> holds pid s t \<and> pid t \<noteq> p" for t by (auto simp: holds_def alive_thread_def)
  have "holder_of (lk_word s) \<in> insert p (lk_dead s) \<or> (\<exists>t. holds pid ?s t)" if "lk_word s \<noteq> 0"
  proof (cases "holder_of (lk_word s) \<in> insert p (lk_dead s)")
    case False
    then obtain t where "holds pid s t" using assms \<open>lk_word s \<noteq> 0\<close> by (auto simp: lock_inv_def)
    moreover from this have "pid t \<noteq> p" using assms False by (auto simp: lock_inv_def)
    ultimately show ?thesis using h by blast
  qed simp
  then show ?thesis using assms h by (auto simp: lock_inv_def alive_thread_def)
qed

lemma free_no_holder:
  assumes "lock_inv pid s" and "\<And>t. is_pid (pid t)" and "lk_word s = 0"
  shows "\<not> holds pid s u"
  using assms(1,3) assms(2) [of u] by (auto simp: lock_inv_def is_pid_def)

lemma dead_no_holder:
  assumes "lock_inv pid s" and "holder_of (lk_word s) \<in> lk_dead s"
  shows "\<not> holds pid s u"
  using assms by (auto simp: lock_inv_def holds_def alive_thread_def)

lemma lock_step_inv:
  assumes pids: "\<And>t. is_pid (pid t)" and step: "lock_step pid s s'" and inv: "lock_inv pid s"
  shows "lock_inv pid s'"
  using step
proof cases
  case (ls_thread t)
  note own = holder_of_pid [OF pids]
  have idle: "lock_inv pid (goto t c s)" if "lk_pc s t \<noteq> Holding" "c \<noteq> Holding" "\<And>v. c \<noteq> Grab v" for c
    using that inv by (intro inv_goto) (auto simp: holds_def)
  have take: "lock_inv pid (goto t Holding (set_word (pid t OR w) s))" if "w \<in> {0, WAITERS}" "\<And>u. \<not> holds pid s u" for w
    using that ls_thread(1) own by (intro inv_take [OF inv]) auto
  have free: "\<not> holds pid s u" if "lk_word s = 0" for u using free_no_holder [OF inv pids that] .
  from ls_thread(2) show ?thesis
  proof cases
    case lk_fast
    then show ?thesis using take [of 0] free by simp
  next
    case lk_take
    then show ?thesis using take [of WAITERS] free by simp
  next
    case (lk_mark v)
    have "lock_inv pid (set_word (lk_word s OR WAITERS) s)" using lk_mark inv by (intro inv_mark) auto
    then show ?thesis using lk_mark by (auto intro!: inv_goto simp: holds_def)
  next
    case (lk_dead v)
    then show ?thesis using inv by (auto intro!: inv_goto simp: holds_def)
  next
    case (lk_grab v)
    have "holder_of (lk_word s) \<in> lk_dead s" using lk_grab inv ls_thread(1) by (auto simp: lock_inv_def)
    then show ?thesis using lk_grab take [of WAITERS] dead_no_holder [OF inv] by auto
  next
    case lk_unlock
    then show ?thesis using inv ls_thread(1) by (auto intro!: inv_release simp: holds_def)
  next
    case lk_release
    then show ?thesis using inv ls_thread(1) by (auto intro!: inv_release simp: holds_def)
  next
    case (lk_wake u v)
    then have "lock_inv pid (goto t Out s)" by (intro idle) auto
    then show ?thesis using lk_wake by (auto intro!: inv_goto simp: holds_def split: if_splits)
  qed (use idle inv in auto)
next
  case (ls_kill p)
  then show ?thesis using inv_kill [OF inv] by simp
qed

lemma lock_steps_inv:
  assumes "\<And>t. is_pid (pid t)" and "lock_steps pid s s'" and "lock_inv pid s"
  shows "lock_inv pid s'"
  using assms(2,3) by induction (auto intro: lock_step_inv [OF assms(1)])

section \<open>A dead holder does not block\<close>

abbreviation solo :: "(nat \<Rightarrow> 32 word) \<Rightarrow> nat \<Rightarrow> lock_state \<Rightarrow> lock_state \<Rightarrow> bool" where
  "solo pid t \<equiv> (locker_step pid t)\<^sup>*\<^sup>*"

fun waiting :: "pc \<Rightarrow> bool" where
  "waiting Out = False" | "waiting Holding = False" | "waiting Waking = False" | "waiting _ = True"

definition available :: "lock_state \<Rightarrow> bool" where
  "available s \<longleftrightarrow> lk_word s = 0 \<or> holder_of (lk_word s) \<in> lk_dead s"

lemma sleep_judge:
  assumes "lk_pc s t = Marked v" and "lk_word s = v OR WAITERS"
  shows "solo pid t s (goto t (Judge v) s)"
proof -
  have g: "goto t c (goto t d s) = goto t c s" for c d by (simp add: goto_def)
  have 1: "locker_step pid t s (goto t (Asleep v) s)" using assms by (rule lk_sleep)
  have 2: "locker_step pid t (goto t (Asleep v) s) (goto t (Woke v) s)" using lk_timeout [of "goto t (Asleep v) s" t v pid] by (simp add: g)
  have 3: "locker_step pid t (goto t (Woke v) s) (goto t (Judge v) s)" using lk_judge [of "goto t (Woke v) s" t v pid] assms by (simp add: g)
  from 1 2 3 show ?thesis by (meson r_into_rtranclp rtranclp.rtrancl_into_rtrancl)
qed

lemma slow_acquires:
  assumes "alive_thread pid s t" and "lk_pc s t = Slow" and "available s"
  shows "\<exists>s'. solo pid t s s' \<and> lk_pc s' t = Holding \<and> lk_dead s' = lk_dead s"
proof -
  let ?v = "lk_word s"
  let ?s1 = "goto t (Loaded ?v) s"
  have load: "locker_step pid t s ?s1" using assms(2) by (rule lk_load)
  show ?thesis
  proof (cases "?v = 0")
    case True
    let ?h = "goto t Holding (set_word (pid t OR WAITERS) ?s1)"
    have "locker_step pid t ?s1 ?h" using True by (intro lk_take) auto
    with load have "solo pid t s ?h" by (meson converse_rtranclp_into_rtranclp r_into_rtranclp)
    then show ?thesis by (intro exI [of _ ?h]) simp
  next
    case False
    then have dead: "holder_of ?v \<in> lk_dead s" using assms(3) by (auto simp: available_def)
    then have other: "holder_of ?v \<noteq> pid t" using assms(1) by (auto simp: alive_thread_def)
    let ?s2 = "goto t (Marked ?v) (set_word (?v OR WAITERS) ?s1)"
    have "locker_step pid t ?s1 ?s2"
    proof (cases "has_waiters ?v")
      case True
      then have "set_word (?v OR WAITERS) ?s1 = ?s1" by (simp add: marked_id set_word_def goto_def)
      then show ?thesis using lk_marked [of ?s1 t ?v] False True by simp
    qed (use lk_mark [of ?s1 t ?v] False in simp)
    moreover have "solo pid t ?s2 (goto t (Judge ?v) ?s2)" by (intro sleep_judge) auto
    moreover have "locker_step pid t (goto t (Judge ?v) ?s2) (goto t (Grab ?v) (goto t (Judge ?v) ?s2))"
      using dead other by (intro lk_dead) auto
    moreover have "locker_step pid t (goto t (Grab ?v) (goto t (Judge ?v) ?s2))
        (goto t Holding (set_word (pid t OR WAITERS) (goto t (Grab ?v) (goto t (Judge ?v) ?s2))))"
      by (intro lk_grab) auto
    ultimately have "solo pid t s (goto t Holding (set_word (pid t OR WAITERS) (goto t (Grab ?v) (goto t (Judge ?v) ?s2))))"
      using load by (meson converse_rtranclp_into_rtranclp rtranclp.rtrancl_into_rtrancl)
    then show ?thesis by (intro exI [of _ "goto t Holding (set_word (pid t OR WAITERS) (goto t (Grab ?v) (goto t (Judge ?v) ?s2)))"]) simp
  qed
qed

text \<open>Wherever a thread is in \<open>lock\<close>, its own steps bring it back to the head of the loop, or to the lock.\<close>

definition returns :: "(nat \<Rightarrow> 32 word) \<Rightarrow> nat \<Rightarrow> lock_state \<Rightarrow> bool" where
  "returns pid t s \<longleftrightarrow> (\<exists>s'. solo pid t s s' \<and> lk_dead s' = lk_dead s \<and>
     (lk_pc s' t = Holding \<or> lk_pc s' t = Slow \<and> (available s \<longrightarrow> available s')))"

lemma returns_now: "lk_pc s t \<in> {Slow, Holding} \<Longrightarrow> returns pid t s"
  unfolding returns_def by (intro exI [of _ s]) auto

lemma returns_step:
  assumes "locker_step pid t s r" and "lk_dead r = lk_dead s" and "available s \<Longrightarrow> available r" and "returns pid t r"
  shows "returns pid t s"
  using assms unfolding returns_def by (metis converse_rtranclp_into_rtranclp)

lemma returns_goto:
  assumes "locker_step pid t s (goto t c s)" and "returns pid t (goto t c s)"
  shows "returns pid t s"
  using returns_step [OF assms(1) _ _ assms(2)] by (simp add: available_def)

lemma returns_Judge: "lk_pc s t = Judge v \<Longrightarrow> returns pid t s"
  using returns_goto [OF lk_soon] returns_now by simp

lemma returns_Woke:
  assumes "lk_pc s t = Woke v" shows "returns pid t s"
proof (cases "lk_word s = v OR WAITERS")
  case True
  then show ?thesis using returns_goto [OF lk_judge] returns_Judge assms by simp
next
  case False
  then show ?thesis using returns_goto [OF lk_changed] returns_now assms by simp
qed

lemma returns_Asleep: "lk_pc s t = Asleep v \<Longrightarrow> returns pid t s"
  using returns_goto [OF lk_timeout] returns_Woke by simp

lemma returns_Marked:
  assumes "lk_pc s t = Marked v" shows "returns pid t s"
proof (cases "lk_word s = v OR WAITERS")
  case True
  then show ?thesis using returns_goto [OF lk_sleep] returns_Asleep assms by simp
next
  case False
  then show ?thesis using returns_goto [OF lk_nosleep] returns_Woke assms by simp
qed

lemma returns_Grab:
  assumes "lk_pc s t = Grab v" shows "returns pid t s"
proof (cases "lk_word s = v OR WAITERS")
  case True
  have "solo pid t s (goto t Holding (set_word (pid t OR WAITERS) s))" using lk_grab [OF assms True] by (rule r_into_rtranclp)
  then show ?thesis unfolding returns_def by (intro exI [of _ "goto t Holding (set_word (pid t OR WAITERS) s)"]) simp
next
  case False
  then show ?thesis using returns_goto [OF lk_beaten] returns_now assms by simp
qed

lemma returns_Loaded:
  assumes "lk_pc s t = Loaded v" shows "returns pid t s"
proof -
  consider "v = 0" "lk_word s = 0" | "v = 0" "lk_word s \<noteq> 0" | "v \<noteq> 0" "has_waiters v" | "v \<noteq> 0" "\<not> has_waiters v" "lk_word s = v"
    | "v \<noteq> 0" "\<not> has_waiters v" "lk_word s \<noteq> v" by blast
  then show ?thesis
  proof cases
    case 1
    then have "solo pid t s (goto t Holding (set_word (pid t OR WAITERS) s))" using assms by (intro r_into_rtranclp lk_take) auto
    then show ?thesis unfolding returns_def by (intro exI [of _ "goto t Holding (set_word (pid t OR WAITERS) s)"]) simp
  next
    case 2
    then show ?thesis using returns_goto [OF lk_lost] returns_now assms by simp
  next
    case 3
    then show ?thesis using returns_goto [OF lk_marked] returns_Marked assms by simp
  next
    case 4
    have "returns pid t (goto t (Marked v) (set_word (v OR WAITERS) s))" by (rule returns_Marked) simp
    then show ?thesis using lk_mark [OF assms 4] 4(1,3) by (rule_tac returns_step) (auto simp: available_def)
  next
    case 5
    then show ?thesis using returns_goto [OF lk_moved] returns_now assms by simp
  qed
qed

lemma returns_waiting: "waiting (lk_pc s t) \<Longrightarrow> returns pid t s"
proof (cases "lk_pc s t")
  case Fast
  then show ?thesis by (rule returns_goto [OF lk_slow]) (auto intro: returns_now)
qed (auto intro: returns_now returns_Loaded returns_Marked returns_Asleep returns_Woke returns_Judge returns_Grab)

section \<open>No lost wake-up\<close>

fun awake :: "pc \<Rightarrow> bool" where
  "awake Out = False" | "awake Fast = False" | "awake Holding = False" | "awake (Asleep v) = False" | "awake _ = True"

text \<open>
  As long as nobody was killed: if somebody is asleep, the word says so, or somebody is awake on the
  slow path, or about to wake a sleeper.
\<close>

definition wake_inv :: "lock_state \<Rightarrow> bool" where
  "wake_inv s \<longleftrightarrow> (lk_dead s = {} \<longrightarrow> (\<exists>t v. lk_pc s t = Asleep v) \<longrightarrow> has_waiters (lk_word s) \<or> (\<exists>t. awake (lk_pc s t)))"

lemma wake_inv_awake: "awake c \<Longrightarrow> wake_inv (goto t c s)"
  by (auto simp: wake_inv_def intro!: exI [of _ t])

lemma wake_inv_word: "has_waiters (lk_word s) \<Longrightarrow> wake_inv s"
  by (simp add: wake_inv_def)

lemma wake_inv_leave:
  assumes "wake_inv s" and "\<not> awake (lk_pc s t)" and "\<not> has_waiters (lk_word s)" and "c \<in> {Out, Fast, Holding}"
  shows "wake_inv (goto t c (set_word w s))"
  unfolding wake_inv_def
proof (intro impI)
  assume d: "lk_dead (goto t c (set_word w s)) = {}" and a: "\<exists>u v. lk_pc (goto t c (set_word w s)) u = Asleep v"
  then obtain u v where "u \<noteq> t" "lk_pc s u = Asleep v" using assms(4) by (auto split: if_splits)
  then obtain x where "awake (lk_pc s x)" using assms(1,3) d by (auto simp: wake_inv_def)
  then have "x \<noteq> t" "awake (lk_pc s x)" using assms(2) by auto
  then show "has_waiters (lk_word (goto t c (set_word w s))) \<or> (\<exists>t'. awake (lk_pc (goto t c (set_word w s)) t'))"
    by (intro disjI2 exI [of _ x]) simp
qed

lemma locker_step_wake:
  assumes "locker_step pid t s s'" and "wake_inv s"
  shows "wake_inv s'"
  using assms(1)
proof cases
  case lk_enter
  show ?thesis
  proof (cases "has_waiters (lk_word s)")
    case True
    then show ?thesis using lk_enter by (intro wake_inv_word) simp
  next
    case False
    have "set_word (lk_word s) s = s" by (simp add: set_word_def)
    then show ?thesis using lk_enter wake_inv_leave [OF assms(2) _ False, of t Fast "lk_word s"] by (simp only: awake.simps) simp
  qed
next
  case lk_fast
  then show ?thesis using wake_inv_leave [OF assms(2), of t Holding] by simp
next
  case lk_unlock
  then show ?thesis using wake_inv_leave [OF assms(2), of t Out] by simp
next
  case lk_none
  then show ?thesis by (auto simp: wake_inv_def alive_thread_def split: if_splits)
qed (use assms(2) in \<open>simp_all add: wake_inv_awake wake_inv_word\<close>)

lemma lock_steps_wake: "lock_steps pid s s' \<Longrightarrow> wake_inv s \<Longrightarrow> wake_inv s'"
proof (induction rule: rtranclp_induct)
  case (step y z)
  from step.hyps(2) show ?case
  proof cases
    case (ls_thread t)
    then show ?thesis using locker_step_wake step by blast
  qed (simp add: wake_inv_def)
qed

section \<open>What the lock promises\<close>



end
