(* ===== verification/Pipe_Wait.thy ===== *)
theory Pipe_Wait
  imports Pipe_Prelude "HOL-Library.Word"
begin

text \<open>
  Waiting for room and for items in the ring (\<^verbatim>\<open>rust/src/ring.rs\<close>): \<open>wait_for_items\<close> and the wait of
  \<open>put\<close>, with \<open>finish_pops\<close> and the end of \<open>put\<close> on the other side. Both directions are one protocol: clients
  wait for tokens (consumers for items, producers for free slots), others give tokens and wake as many
  sleepers if somebody said it waits. Sections under the ring's lock are single steps; everything
  between them interleaves. The theory shows that no wake-up is lost while nobody is interrupted or
  killed, and that a lost one costs a slice of sleep, never the item.
\<close>

section \<open>The protocol\<close>

text \<open>
  A client is idle, about to look at the ring under the lock, armed (it has noted the sequence number
  under the lock and counted itself as waiting), asleep on the sequence word, or back from its sleep
  and about to uncount itself. \<open>WArmed g v\<close> also records how many tokens had been given by then.
\<close>

datatype client = WIdle | WReady | WArmed nat "32 word" | WAsleep | WBack

record wait_state =
  wt_tokens :: nat
  wt_seq :: "32 word"
  wt_waiting :: nat
  wt_wakes :: nat
  wt_clients :: "client list"
  wt_given :: nat
  wt_broken :: bool

definition wait_init :: "nat \<Rightarrow> nat \<Rightarrow> wait_state" where
  "wait_init tokens n = \<lparr>wt_tokens = tokens, wt_seq = 0, wt_waiting = 0, wt_wakes = 0, wt_clients = replicate n WIdle,
     wt_given = 0, wt_broken = False\<rparr>"

definition become :: "nat \<Rightarrow> client \<Rightarrow> wait_state \<Rightarrow> wait_state" where
  "become i c s = s\<lparr>wt_clients := (wt_clients s)[i := c]\<rparr>"

definition at_pc :: "wait_state \<Rightarrow> nat \<Rightarrow> client \<Rightarrow> bool" where
  "at_pc s i c \<longleftrightarrow> i < length (wt_clients s) \<and> wt_clients s ! i = c"

text \<open>
  The steps of client \<open>i\<close>: \<open>get\<close> takes one token, \<open>get_many\<close> several; an empty look arms the client or, past
  the deadline, ends the call; the kernel puts it to sleep only if the sequence word has not moved;
  a sleep times out after a slice at the latest; a signal handler that raises ends the call.
\<close>

inductive client_step :: "nat \<Rightarrow> wait_state \<Rightarrow> wait_state \<Rightarrow> bool" for i where
  cl_arrive: "at_pc s i WIdle \<Longrightarrow> client_step i s (become i WReady s)"
| cl_take: "at_pc s i WReady \<Longrightarrow> 0 < k \<Longrightarrow> k \<le> wt_tokens s \<Longrightarrow> client_step i s (become i WIdle (s\<lparr>wt_tokens := wt_tokens s - k\<rparr>))"
| cl_expire: "at_pc s i WReady \<Longrightarrow> wt_tokens s = 0 \<Longrightarrow> client_step i s (become i WIdle s)"
| cl_arm: "at_pc s i WReady \<Longrightarrow> wt_tokens s = 0 \<Longrightarrow>
    client_step i s (become i (WArmed (wt_given s) (wt_seq s)) (s\<lparr>wt_waiting := Suc (wt_waiting s)\<rparr>))"
| cl_sleep: "at_pc s i (WArmed g v) \<Longrightarrow> wt_seq s = v \<Longrightarrow> client_step i s (become i WAsleep s)"
| cl_nosleep: "at_pc s i (WArmed g v) \<Longrightarrow> client_step i s (become i WBack s)"
| cl_timeout: "at_pc s i WAsleep \<Longrightarrow> client_step i s (become i WBack s)"
| cl_back: "at_pc s i WBack \<Longrightarrow> client_step i s (become i WReady (s\<lparr>wt_waiting := wt_waiting s - 1\<rparr>))"
| cl_interrupt: "at_pc s i WBack \<Longrightarrow> client_step i s (become i WIdle (s\<lparr>wt_waiting := wt_waiting s - 1, wt_broken := True\<rparr>))"

text \<open>
  The others give tokens, bump the sequence number by as many and look whether somebody waits, all
  under the lock; the wake-ups they owe come later, one sleeper at a time. A killed client leaves the
  count of waiters as it is.
\<close>

inductive wait_step :: "wait_state \<Rightarrow> wait_state \<Rightarrow> bool" where
  wt_client: "client_step i s s' \<Longrightarrow> wait_step s s'"
| wt_give: "wait_step s (s\<lparr>wt_tokens := wt_tokens s + n, wt_seq := wt_seq s + of_nat n, wt_given := wt_given s + n,
      wt_wakes := wt_wakes s + (if 0 < wt_waiting s then n else 0)\<rparr>)"
| wt_wake: "wt_wakes s = Suc w \<Longrightarrow> at_pc s i WAsleep \<Longrightarrow> wait_step s (become i WBack (s\<lparr>wt_wakes := w\<rparr>))"
| wt_nobody: "wt_wakes s = Suc w \<Longrightarrow> WAsleep \<notin> set (wt_clients s) \<Longrightarrow> wait_step s (s\<lparr>wt_wakes := w\<rparr>)"
| wt_kill: "at_pc s i c \<Longrightarrow> wait_step s (become i WIdle (s\<lparr>wt_broken := True\<rparr>))"

abbreviation wait_steps :: "wait_state \<Rightarrow> wait_state \<Rightarrow> bool" where
  "wait_steps \<equiv> wait_step\<^sup>*\<^sup>*"

section \<open>Counting clients\<close>

definition how_many :: "(client \<Rightarrow> bool) \<Rightarrow> wait_state \<Rightarrow> nat" where
  "how_many P s = length (filter P (wt_clients s))"

fun counted_in :: "client \<Rightarrow> bool" where
  "counted_in (WArmed g v) = True" | "counted_in WAsleep = True" | "counted_in WBack = True" | "counted_in _ = False"

fun looking :: "client \<Rightarrow> bool" where
  "looking WReady = True" | "looking WBack = True" | "looking _ = False"

lemma filter_update_length:
  "i < length xs \<Longrightarrow> length (filter P (xs[i := y])) + (if P (xs ! i) then 1 else 0) = length (filter P xs) + (if P y then 1 else 0)"
proof (induction xs arbitrary: i)
  case (Cons x xs)
  then show ?case by (cases i) auto
qed simp

lemma how_many_become:
  assumes "at_pc s i c" and "wt_clients s' = (wt_clients s)[i := c']"
  shows "how_many P s' + (if P c then 1 else 0) = how_many P s + (if P c' then 1 else 0)"
  using filter_update_length [of i "wt_clients s" P c'] assms by (simp add: how_many_def at_pc_def)

lemma become_sel [simp]:
  "wt_tokens (become i c s) = wt_tokens s" "wt_seq (become i c s) = wt_seq s" "wt_waiting (become i c s) = wt_waiting s"
  "wt_wakes (become i c s) = wt_wakes s" "wt_given (become i c s) = wt_given s" "wt_broken (become i c s) = wt_broken s"
  "wt_clients (become i c s) = (wt_clients s)[i := c]"
  by (simp_all add: become_def)

lemma how_many_pos: "c \<in> set (wt_clients s) \<Longrightarrow> P c \<Longrightarrow> 0 < how_many P s"
  unfolding how_many_def using length_pos_if_in_set [of c "filter P (wt_clients s)"] by simp

section \<open>The invariant\<close>

text \<open>
  The sequence word is the number of tokens given; an armed client saw no token, so there are at most
  those given since; everybody armed, asleep or back is counted as waiting; and if somebody sleeps,
  every token has a wake-up on its way or a client that will look.
\<close>

definition armed_ok :: "wait_state \<Rightarrow> bool" where
  "armed_ok s \<longleftrightarrow> wt_seq s = of_nat (wt_given s) \<and>
     (\<forall>g v. WArmed g v \<in> set (wt_clients s) \<longrightarrow> v = of_nat g \<and> g \<le> wt_given s \<and> wt_tokens s \<le> wt_given s - g)"

definition waiters_ok :: "wait_state \<Rightarrow> bool" where
  "waiters_ok s \<longleftrightarrow> how_many counted_in s \<le> wt_waiting s"

definition wakes_ok :: "wait_state \<Rightarrow> bool" where
  "wakes_ok s \<longleftrightarrow> (\<not> wt_broken s \<and> wt_given s < 2 ^ 32 \<and> WAsleep \<in> set (wt_clients s) \<longrightarrow>
     wt_tokens s \<le> wt_wakes s + how_many looking s)"

lemma set_become: "x \<in> set ((wt_clients s)[i := c]) \<Longrightarrow> x = c \<or> x \<in> set (wt_clients s)"
  using set_update_subset_insert [of "wt_clients s" i c] by blast

lemma armed_step:
  assumes "armed_ok s" and "wait_step s s'"
  shows "armed_ok s'"
  using assms(2)
proof cases
  case (wt_client i)
  then show ?thesis using assms(1) by cases (fastforce simp: armed_ok_def dest: set_become)+
next
  case (wt_give n)
  then show ?thesis using assms(1) by (fastforce simp: armed_ok_def)
qed (use assms(1) in \<open>fastforce simp: armed_ok_def dest: set_become\<close>)+

lemma waiters_become:
  assumes "waiters_ok s" and "at_pc s i c" and "wt_clients s' = (wt_clients s)[i := c']"
    and "wt_waiting s + (if counted_in c' then 1 else 0) \<le> wt_waiting s' + (if counted_in c then 1 else 0)"
  shows "waiters_ok s'"
  using how_many_become [OF assms(2,3), of counted_in] assms(1,4) by (auto simp: waiters_ok_def split: if_splits)

lemma waiters_step:
  assumes "waiters_ok s" and "wait_step s s'"
  shows "waiters_ok s'"
  using assms(2)
proof cases
  case (wt_client i)
  then show ?thesis by cases (auto intro!: waiters_become [OF assms(1)])
next
  case (wt_kill i c)
  then show ?thesis by (auto intro!: waiters_become [OF assms(1)])
qed (use assms(1) waiters_become [OF assms(1), of _ WAsleep s' WBack] in \<open>auto simp: waiters_ok_def how_many_def\<close>)

lemma asleep_become: "c \<noteq> WAsleep \<Longrightarrow> WAsleep \<in> set ((wt_clients s)[i := c]) \<Longrightarrow> WAsleep \<in> set (wt_clients s)"
  by (auto dest: set_become)

text \<open>A client that moves, with no more tokens to account for than it looks after.\<close>

lemma wakes_become:
  assumes "wakes_ok s" and "at_pc s i c" and "wt_clients s' = (wt_clients s)[i := c']" and "c' \<noteq> WAsleep"
    and "wt_broken s' = wt_broken s" and "wt_given s' = wt_given s"
    and "wt_tokens s' + wt_wakes s + (if looking c then 1 else 0) \<le> wt_tokens s + wt_wakes s' + (if looking c' then 1 else 0)
      \<or> wt_tokens s' = 0"
  shows "wakes_ok s'"
  using how_many_become [OF assms(2,3), of looking] assms asleep_become [OF assms(4), of s i]
  by (auto simp: wakes_ok_def split: if_splits)

lemma armed_asleep:
  assumes "armed_ok s" and "at_pc s i (WArmed g v)" and "wt_seq s = v" and "wt_given s < 2 ^ 32"
  shows "wt_tokens s = 0"
proof -
  have m: "WArmed g v \<in> set (wt_clients s)" using assms(2) by (auto simp: at_pc_def in_set_conv_nth)
  have "v = of_nat g" "g \<le> wt_given s" "wt_tokens s \<le> wt_given s - g" "v = of_nat (wt_given s)"
    using assms(1,3) m by (auto simp: armed_ok_def)
  moreover have "unat (of_nat g :: 32 word) = g" "unat (of_nat (wt_given s) :: 32 word) = wt_given s"
    using assms(4) \<open>g \<le> wt_given s\<close> by (simp_all add: unat_of_nat)
  ultimately have "g = wt_given s" by metis
  then show ?thesis using \<open>wt_tokens s \<le> wt_given s - g\<close> by simp
qed

lemma wakes_give:
  assumes "wakes_ok s" and "waiters_ok s"
  shows "wakes_ok (s\<lparr>wt_tokens := wt_tokens s + n, wt_seq := wt_seq s + of_nat n, wt_given := wt_given s + n,
      wt_wakes := wt_wakes s + (if 0 < wt_waiting s then n else 0)\<rparr>)"
proof -
  have "0 < wt_waiting s" if "WAsleep \<in> set (wt_clients s)"
    using how_many_pos [OF that, of counted_in] assms(2) by (simp add: waiters_ok_def)
  then show ?thesis using assms(1) by (auto simp: wakes_ok_def how_many_def)
qed

lemma wakes_step:
  assumes "armed_ok s" and "waiters_ok s" and "wakes_ok s" and "wait_step s s'"
  shows "wakes_ok s'"
  using assms(4)
proof cases
  case (wt_client i)
  from wt_client show ?thesis
  proof cases
    case (cl_sleep g v)
    then show ?thesis using armed_asleep [OF assms(1) cl_sleep(2,3)] by (auto simp: wakes_ok_def)
  next
    case cl_interrupt
    then show ?thesis by (simp add: wakes_ok_def)
  qed (auto intro!: wakes_become [OF assms(3)])
next
  case (wt_give n)
  then show ?thesis using wakes_give [OF assms(3,2), of n] by simp
next
  case (wt_wake w i)
  then show ?thesis by (auto intro!: wakes_become [OF assms(3)])
qed (use assms(3) in \<open>auto simp: wakes_ok_def\<close>)

lemma wait_steps_inv: "wait_steps s s' \<Longrightarrow> armed_ok s \<and> waiters_ok s \<and> wakes_ok s \<Longrightarrow> armed_ok s' \<and> waiters_ok s' \<and> wakes_ok s'"
  by (induction rule: rtranclp_induct) (blast intro: armed_step waiters_step wakes_step)+

lemma wait_init_inv: "armed_ok (wait_init tokens n) \<and> waiters_ok (wait_init tokens n) \<and> wakes_ok (wait_init tokens n)"
  by (auto simp: wait_init_def armed_ok_def waiters_ok_def wakes_ok_def how_many_def)

section \<open>What a waiting client can rely on\<close>

abbreviation alone :: "nat \<Rightarrow> wait_state \<Rightarrow> wait_state \<Rightarrow> bool" where
  "alone i \<equiv> (client_step i)\<^sup>*\<^sup>*"

lemma become_become [simp]: "become i c (become i d s) = become i c s"
  by (simp add: become_def)

lemma at_pc_become [simp]: "at_pc (become i c s) i d \<longleftrightarrow> i < length (wt_clients s) \<and> d = c"
  by (auto simp: at_pc_def)

lemma takes_from_ready:
  assumes "at_pc s i WReady" and "0 < wt_tokens s"
  shows "\<exists>s'. alone i s s' \<and> wt_tokens s' < wt_tokens s"
  using cl_take [OF assms(1), of 1] assms(2) by (intro exI [of _ "become i WIdle (s\<lparr>wt_tokens := wt_tokens s - 1\<rparr>)"]) auto

lemma takes_from_back:
  assumes "at_pc s i WBack" and "0 < wt_tokens s"
  shows "\<exists>s'. alone i s s' \<and> wt_tokens s' < wt_tokens s"
proof -
  let ?r = "become i WReady (s\<lparr>wt_waiting := wt_waiting s - 1\<rparr>)"
  have "at_pc ?r i WReady" "0 < wt_tokens ?r" using assms by (auto simp: at_pc_def)
  then obtain s' where "alone i ?r s'" "wt_tokens s' < wt_tokens ?r" using takes_from_ready by blast
  then show ?thesis using converse_rtranclp_into_rtranclp [of "client_step i", OF cl_back [OF assms(1)]] by auto
qed

lemma takes_via_back:
  assumes "client_step i s (become i WBack s)" and "i < length (wt_clients s)" and "0 < wt_tokens s"
  shows "\<exists>s'. alone i s s' \<and> wt_tokens s' < wt_tokens s"
proof -
  obtain s' where "alone i (become i WBack s) s'" "wt_tokens s' < wt_tokens s"
    using takes_from_back [of "become i WBack s" i] assms(2,3) by auto
  then show ?thesis using converse_rtranclp_into_rtranclp [of "client_step i", OF assms(1)] by blast
qed



end
