(* ===== verification/Pipe_Fleet.thy ===== *)
theory Pipe_Fleet
  imports Pipe_Chain
begin

text \<open>
  A stage with any number of workers while its upstream stage is still running. The workers share
  the input queue, the done event of the stage before and their own stage's counter, event and
  output queue (\<open>_worker_run\<close> and \<open>_finish_worker\<close> of \<^verbatim>\<open>src/pipe/workers.py\<close>, wired by \<open>start\<close> of
  \<^verbatim>\<open>src/pipe/lifecycle.py\<close>). The atomic events are a put and the done event of upstream, the answer of
  the input queue to one worker, the rest of that worker's iteration, and its coordination at the end.
  What is shown: the only way to lose an item is a worker that leaves on an answer older than the
  done event; without it the stage processes every item once, each worker in the order of the queue;
  the stage can always end; and pipelines of such stages compute what their stages compute.
\<close>

section \<open>The state and the events\<close>

datatype place = Looping | Leaving | Gone

text \<open>
  The last three fields are history: everything upstream has put, for each worker whether it holds an
  answer \<open>Empty\<close> from before the done event, and whether a worker has left on such an answer.
\<close>

record 'a fleet =
  fl_in :: "'a msg list"
  fl_upstream :: bool
  fl_workers :: "'a wstate list"
  fl_place :: "place list"
  fl_sync :: "'a stage_sync"
  fl_put :: "'a msg list"
  fl_stale :: "bool list"
  fl_raced :: bool

definition fleet_start :: "'a stage_run \<Rightarrow> nat \<Rightarrow> 'a fleet" where
  "fleet_start sr n = \<lparr>fl_in = [], fl_upstream = False, fl_workers = replicate n (worker_start sr []),
     fl_place = replicate n Looping,
     fl_sync = \<lparr>sy_counter = Some 0, sy_done = Some False, sy_queue = Some \<lparr>bq_maxsize = 0, bq_items = []\<rparr>\<rparr>,
     fl_put = [], fl_stale = replicate n False, fl_raced = False\<rparr>"

text \<open>
  What a worker has put during its turn goes to the output queue of the stage. The log of the port
  holds the messages of one turn only.
\<close>

definition hand_over :: "'a wstate \<Rightarrow> 'a stage_sync \<Rightarrow> 'a wstate \<times> 'a stage_sync" where
  "hand_over s sy =
     (case ws_port s of
        None \<Rightarrow> (s, sy)
      | Some p \<Rightarrow> (s\<lparr>ws_port := Some (p\<lparr>op_log := []\<rparr>)\<rparr>,
          sy\<lparr>sy_queue := map_option (\<lambda>q. q\<lparr>bq_items := bq_items q @ op_log p\<rparr>) (sy_queue sy)\<rparr>))"

datatype 'a fleet_ev = UpPut "'a msg" | UpDone | Fetch nat | Turn nat "'a iter_obs" | Finish nat

text \<open>
  A worker asks the queue only when its channel holds nothing; the answer waits in its script until
  the rest of the iteration takes it. That rest reads the done event as it is by then.
\<close>

fun fleet_step :: "'a stage_run \<Rightarrow> 'a fleet_ev \<Rightarrow> 'a fleet \<Rightarrow> 'a fleet option" where
  "fleet_step sr (UpPut m) fl =
     (if fl_upstream fl then None else Some (fl\<lparr>fl_in := fl_in fl @ [m], fl_put := fl_put fl @ [m]\<rparr>))"
| "fleet_step sr UpDone fl =
     (if fl_upstream fl then None
      else Some (fl\<lparr>fl_upstream := True, fl_stale := map (\<lambda>s. ws_q s = [Inr None]) (fl_workers fl)\<rparr>))"
| "fleet_step sr (Fetch i) fl =
     (if i < length (fl_workers fl) \<and> fl_place fl ! i = Looping \<and> ws_q (fl_workers fl ! i) = []
         \<and> ic_buf (ws_in (fl_workers fl ! i)) = [] then
        let s = fl_workers fl ! i in
        case fl_in fl of
          [] \<Rightarrow> Some (fl\<lparr>fl_workers := (fl_workers fl)[i := s\<lparr>ws_q := [Inr None]\<rparr>], fl_stale := (fl_stale fl)[i := False]\<rparr>)
        | m # ms \<Rightarrow> Some (fl\<lparr>fl_in := ms, fl_workers := (fl_workers fl)[i := s\<lparr>ws_q := [Inr (Some m)]\<rparr>]\<rparr>)
      else None)"
| "fleet_step sr (Turn i ob) fl =
     (if i < length (fl_workers fl) \<and> fl_place fl ! i = Looping
         \<and> (ws_q (fl_workers fl ! i) \<noteq> [] \<or> ic_buf (ws_in (fl_workers fl ! i)) \<noteq> []) then
        (case iteration (sr_cfg sr) (ob\<lparr>io_upstream := fl_upstream fl\<rparr>) (fl_workers fl ! i) of
           Next s \<Rightarrow>
             (case hand_over s (fl_sync fl) of (s1, sy) \<Rightarrow>
                Some (fl\<lparr>fl_workers := (fl_workers fl)[i := s1], fl_sync := sy, fl_stale := (fl_stale fl)[i := False]\<rparr>))
         | Leave s \<Rightarrow>
             (case worker_epilogue (sr_cfg sr) ob (HookItems []) s of
                (s0, None) \<Rightarrow>
                  (case hand_over s0 (fl_sync fl) of (s1, sy) \<Rightarrow>
                     Some (fl\<lparr>fl_workers := (fl_workers fl)[i := s1], fl_place := (fl_place fl)[i := Leaving], fl_sync := sy,
                              fl_raced := fl_raced fl \<or> fl_stale fl ! i\<rparr>))
              | (s0, Some e) \<Rightarrow> None)
         | _ \<Rightarrow> None)
      else None)"
| "fleet_step sr (Finish i) fl =
     (if i < length (fl_workers fl) \<and> fl_place fl ! i = Leaving then
        Some (fl\<lparr>fl_place := (fl_place fl)[i := Gone],
                 fl_sync := finish_worker (Some (length (fl_workers fl))) False 1 [] (fl_sync fl)\<rparr>)
      else None)"

fun fleet_run :: "'a stage_run \<Rightarrow> 'a fleet_ev list \<Rightarrow> 'a fleet \<Rightarrow> 'a fleet option" where
  "fleet_run sr [] fl = Some fl"
| "fleet_run sr (ev # evs) fl = (case fleet_step sr ev fl of None \<Rightarrow> None | Some fl1 \<Rightarrow> fleet_run sr evs fl1)"

text \<open>The output queue, and the events considered: calm iterations, regular messages.\<close>

definition fleet_out :: "'a fleet \<Rightarrow> 'a msg list" where
  "fleet_out fl = (case sy_queue (fl_sync fl) of None \<Rightarrow> [] | Some q \<Rightarrow> bq_items q)"

fun ev_ok :: "('a val \<Rightarrow> 'a outcome) \<Rightarrow> 'a fleet_ev \<Rightarrow> bool" where
  "ev_ok f (UpPut m) \<longleftrightarrow> payloads m \<noteq> [] \<and> (\<forall>x \<in> set (payloads m). plain x)"
| "ev_ok f (Turn i ob) \<longleftrightarrow> calm f ob"
| "ev_ok f _ \<longleftrightarrow> True"

lemma fleet_run_append [simp]:
  "fleet_run sr (evs @ evs') fl = (case fleet_run sr evs fl of None \<Rightarrow> None | Some fl1 \<Rightarrow> fleet_run sr evs' fl1)"
  by (induction evs arbitrary: fl) (auto split: option.splits)

section \<open>One turn of a worker\<close>

definition made :: "('a val \<Rightarrow> 'a outcome) \<Rightarrow> 'a val list \<Rightarrow> 'a val list" where
  "made f xs = concat (map (outputs f) (filter (\<lambda>x. \<not> is_end x) xs))"

lemma made_simps [simp]: "made f [] = []" "made f (xs @ ys) = made f xs @ made f ys"
  by (simp_all add: made_def)

text \<open>An answer is asked for only when nothing is left in the channel.\<close>

definition holds_answer :: "'a wstate \<Rightarrow> bool" where
  "holds_answer s \<longleftrightarrow> ws_q s = [] \<or> ic_buf (ws_in s) = [] \<and> length (ws_q s) = 1"

definition ws_log :: "'a wstate \<Rightarrow> 'a msg list" where
  "ws_log s = (case ws_port s of None \<Rightarrow> [] | Some p \<Rightarrow> op_log p)"

lemma take_input_one:
  assumes "input_ok s" and "holds_answer s" and "ws_q s \<noteq> [] \<or> ic_buf (ws_in s) \<noteq> []" and "take_input s = (s1, r)"
  shows "ws_q s1 = []" and "r = Inl EmptyE \<Longrightarrow> ws_q s = [Inr None] \<and> ic_buf (ws_in s) = []"
proof -
  consider (buf) y ys where "ic_buf (ws_in s) = y # ys" "ws_q s = []" | (none) "ic_buf (ws_in s) = []" "ws_q s = [Inr None]"
    | (some) m where "ic_buf (ws_in s) = []" "ws_q s = [Inr (Some m)]" "payloads m \<noteq> []"
    using assms(1-3) by (cases "ic_buf (ws_in s)"; cases "ws_q s") (auto simp: input_ok_def holds_answer_def)
  then have "ws_q s1 = [] \<and> (r = Inl EmptyE \<longrightarrow> ws_q s = [Inr None] \<and> ic_buf (ws_in s) = [])"
  proof cases
    case buf
    with assms(1,4) show ?thesis by (auto simp: take_input_def ic_get_def popleft_def input_ok_def)
  next
    case none
    with assms(4) show ?thesis by (auto simp: take_input_def ic_get_def script_get_def)
  next
    case some
    with assms(1,4) show ?thesis
      by (cases m; cases "payloads m") (auto simp: take_input_def ic_get_def script_get_def popleft_def input_ok_def)
  qed
  then show "ws_q s1 = []" and "r = Inl EmptyE \<Longrightarrow> ws_q s = [Inr None] \<and> ic_buf (ws_in s) = []" by auto
qed

lemma fleet_turn:
  assumes "stage_ok sr" and "calm (sr_fun sr) ob" and "has_port s" and "input_ok s" and "holds_answer s"
    and "ws_q s \<noteq> [] \<or> ic_buf (ws_in s) \<noteq> []"
  obtains (item) x s' where "pending_in s = x # pending_in s'" "iteration (sr_cfg sr) ob s = Next s'" "ws_q s' = []"
      "has_port s'" "input_ok s'" "out s' = out s @ made (sr_fun sr) [x]" "ws_empty s' = 0"
    | (empty) s' where "ws_q s = [Inr None]" "pending_in s = []" "pending_in s' = []" "ws_q s' = []"
      "iteration (sr_cfg sr) ob s = (if io_upstream ob \<and> c_threshold (sr_cfg sr) \<le> ws_empty s' then Leave s' else Next s')"
      "has_port s'" "input_ok s'" "out s' = out s" "ws_empty s' = Suc (ws_empty s)"
proof -
  let ?f = "sr_fun sr" and ?cfg = "sr_cfg sr"
  have c: "\<not> c_root ?cfg" "mild ?f" "\<not> c_raise_errors ?cfg" "\<not> 0 < c_batch_size ?cfg" using assms(1) by (auto simp: stage_ok_def)
  from iteration_middle [OF assms(3,2) c(1)] obtain s2 where
    s2: "iteration ?cfg ob s = middle_turn ?cfg ob s2" "has_port s2" "same_input s s2" "out s2 = out s" by blast
  have in2: "input_ok s2" "pending_in s2 = pending_in s" using s2(3) assms(4) by (simp_all add: same_input_simps)
  have q2: "ws_q s2 = ws_q s" "ws_in s2 = ws_in s" "ws_empty s2 = ws_empty s" using s2(3) by (simp_all add: same_input_def)
  have h2: "holds_answer s2" "ws_q s2 \<noteq> [] \<or> ic_buf (ws_in s2) \<noteq> []" using assms(5,6) q2 by (simp_all add: holds_answer_def)
  obtain s1 r where t: "take_input s2 = (s1, r)" by force
  note T = take_input_ok [OF in2(1) t] and O = take_input_one [OF in2(1) h2 t]
  have p1: "has_port s1" "out s1 = out s" using T s2(2,4) same_port_fields [of s1 s2] by auto
  show thesis
  proof (cases r)
    case (Inl e)
    with T O have e: "e = EmptyE" "pending_in s1 = pending_in s2" "input_ok s1" "ws_q s1 = []" "ws_q s = [Inr None]" "pending_in s = []"
      using q2 by (auto simp: pending_in_def answer_def)
    let ?s = "s1\<lparr>ws_empty := Suc (ws_empty s1)\<rparr>"
    have "iteration ?cfg ob s = (if io_upstream ob \<and> c_threshold ?cfg \<le> ws_empty ?s then Leave ?s else Next ?s)"
      using s2(1) t Inl e(1) by (simp add: middle_turn_def Let_def)
    then show thesis using e T p1 in2(2) q2 by (intro empty [of ?s]) auto
  next
    case (Inr x)
    with T have x: "pending_in s2 = x # pending_in s1" "\<not> is_worker_stop x" "input_ok s1" by auto
    let ?s = "s1\<lparr>ws_empty := 0\<rparr>"
    show thesis
    proof (cases "is_end x")
      case True
      have "iteration ?cfg ob s = Next ?s" using s2(1) t Inr x(2) True by (simp add: middle_turn_def Let_def)
      then show thesis using x p1 in2(2) O(1) True by (intro item [of x ?s]) (auto simp: made_def)
    next
      case False
      have "has_port ?s" using p1(1) by simp
      from call_and_handle_ok [OF this assms(2) c(2,3), of x 1] obtain s' where
        C: "continue_or ?cfg (call_and_handle ?cfg ob x 1 ?s) = Next s'" "has_port s'" "same_input ?s s'" "out s' = out ?s @ outputs ?f x"
        by blast
      have "iteration ?cfg ob s = Next s'" using s2(1) t Inr x(2) False C(1) c(4) by (simp add: middle_turn_def Let_def)
      moreover have "pending_in s' = pending_in s1" "input_ok s'" "ws_q s' = []" "ws_empty s' = 0"
        using same_input_simps [OF C(3)] x(3) O(1) C(3) by (simp_all add: same_input_def)
      ultimately show thesis using x C p1 in2(2) False by (intro item [of x s']) (auto simp: made_def)
    qed
  qed
qed

lemma hand_over_props:
  assumes "has_port s" and "hand_over s sy = (s1, sy1)"
  shows "has_port s1" "ws_log s1 = []" "out s = unchunk (ws_log s) @ out s1" "same_input s s1"
    "\<forall>m \<in> set (ws_log s). payloads m \<noteq> []"
    "sy1 = sy\<lparr>sy_queue := map_option (\<lambda>q. q\<lparr>bq_items := bq_items q @ ws_log s\<rparr>) (sy_queue sy)\<rparr>"
  using assms by (auto simp: hand_over_def has_port_def port_ok_def ws_log_def out_def sent_def same_input_def)

lemma epilogue_flushed:
  assumes "has_port s" and "calm f ob"
  obtains s' where "worker_epilogue cfg ob (HookItems []) s = (s', None)" "has_port s'" "same_input s s'"
    "out s' = out s" "unchunk (ws_log s') = out s"
proof -
  have "quiet (io_emit ob)" "io_flush_exn ob = None" using assms(2) by (auto simp: calm_def)
  from worker_epilogue_flushes [OF assms(1) this, of cfg "HookItems []"] obtain s' p where
    E: "worker_epilogue cfg ob (HookItems []) s = (s', None)" "ws_port s' = Some p" "port_ok p" "oc_pending (op_ch p) = []"
       "unchunk (op_log p) = out s" by auto
  have "same_input s s'"
    using E(1) by (auto simp: worker_epilogue_def same_input_def Let_def split: option.splits prod.splits)
  then show thesis using that [OF E(1)] E by (auto simp: has_port_def out_def sent_def ws_log_def)
qed

section \<open>The invariant\<close>

definition worker_ok :: "place \<Rightarrow> 'a wstate \<Rightarrow> bool" where
  "worker_ok pl s \<longleftrightarrow> has_port s \<and> input_ok s \<and> ws_log s = [] \<and> holds_answer s
     \<and> (pl \<noteq> Looping \<longrightarrow> pending_in s = [] \<and> ws_q s = [] \<and> out s = [])"

definition all_gone :: "'a fleet \<Rightarrow> bool" where
  "all_gone fl \<longleftrightarrow> fl_place fl \<noteq> [] \<and> (\<forall>p \<in> set (fl_place fl). p = Gone)"

text \<open>The shared objects of the stage: \<open>ms\<close> is what its workers have put, \<open>End\<close> comes last.\<close>

definition sync_ok :: "'a fleet \<Rightarrow> 'a msg list \<Rightarrow> bool" where
  "sync_ok fl ms \<longleftrightarrow> fl_sync fl = \<lparr>sy_counter = Some (length (filter (\<lambda>p. p = Gone) (fl_place fl))),
     sy_done = Some (all_gone fl), sy_queue = Some \<lparr>bq_maxsize = 0, bq_items = ms @ (if all_gone fl then [ItemM EndV] else [])\<rparr>\<rparr>"

text \<open>
  Where the payloads are: \<open>cs\<close> holds, for each worker, those it has taken. Everything put is on the
  queue, with a worker or taken, each worker has a subsequence of it, and what was taken is accounted
  for in the output.
\<close>

definition books :: "('a val \<Rightarrow> 'a outcome) \<Rightarrow> 'a fleet \<Rightarrow> 'a val list list \<Rightarrow> 'a msg list \<Rightarrow> bool" where
  "books f fl cs ms \<longleftrightarrow> length cs = length (fl_workers fl)
     \<and> mset (unchunk (fl_put fl)) = mset (unchunk (fl_in fl)) + mset (concat cs) + mset (concat (map pending_in (fl_workers fl)))
     \<and> (\<forall>i < length cs. subseq (cs ! i @ pending_in (fl_workers fl ! i) @ unchunk (fl_in fl)) (unchunk (fl_put fl)))
     \<and> mset (unchunk ms) + mset (concat (map out (fl_workers fl))) = mset (concat (map (made f) cs))
     \<and> (\<forall>m \<in> set ms. payloads m \<noteq> []) \<and> (\<forall>x \<in> set (unchunk (fl_put fl)). plain x)"

text \<open>
  A worker has left only after the done event; if nobody left on a stale answer, the queue is empty
  from the first answer \<open>Empty\<close> after the event on.
\<close>

definition no_loss :: "'a fleet \<Rightarrow> bool" where
  "no_loss fl \<longleftrightarrow> (\<forall>i < length (fl_workers fl).
     (fl_place fl ! i \<noteq> Looping \<longrightarrow> fl_upstream fl)
     \<and> (\<not> fl_raced fl \<and> fl_upstream fl
        \<and> (fl_place fl ! i \<noteq> Looping \<or> ws_q (fl_workers fl ! i) = [Inr None] \<and> \<not> fl_stale fl ! i) \<longrightarrow> fl_in fl = []))"

definition fleet_inv :: "'a stage_run \<Rightarrow> 'a fleet \<Rightarrow> bool" where
  "fleet_inv sr fl \<longleftrightarrow> length (fl_place fl) = length (fl_workers fl) \<and> length (fl_stale fl) = length (fl_workers fl)
     \<and> wellformed (fl_in fl) \<and> (\<forall>i < length (fl_workers fl). worker_ok (fl_place fl ! i) (fl_workers fl ! i))
     \<and> no_loss fl \<and> (\<exists>cs ms. sync_ok fl ms \<and> books (sr_fun sr) fl cs ms)"

lemma fleet_invI:
  assumes "sync_ok fl ms" and "books (sr_fun sr) fl cs ms" and "no_loss fl" and "wellformed (fl_in fl)"
    and "length (fl_place fl) = length (fl_workers fl)" and "length (fl_stale fl) = length (fl_workers fl)"
    and "\<And>i. i < length (fl_workers fl) \<Longrightarrow> worker_ok (fl_place fl ! i) (fl_workers fl ! i)"
  shows "fleet_inv sr fl"
  using assms unfolding fleet_inv_def by blast

lemma wellformed_simps [simp]:
  "wellformed []" "wellformed (m # ms) \<longleftrightarrow> payloads m \<noteq> [] \<and> (\<forall>x \<in> set (payloads m). plain x) \<and> wellformed ms"
  "wellformed (ms @ ms') \<longleftrightarrow> wellformed ms \<and> wellformed ms'"
  by (auto simp: wellformed_def)

lemma concat_replicate_Nil [simp]: "concat (replicate n []) = []"
  by (induction n) auto

lemma fleet_start_inv: "fleet_inv sr (fleet_start sr n)"
proof -
  have w: "worker_ok Looping (worker_start sr [])"
    using worker_start_input [of "[]" sr] by (auto simp: worker_ok_def holds_answer_def ws_log_def) (simp_all add: worker_start_def)
  have p: "pending_in (worker_start sr []) = []" "out (worker_start sr []) = []" "ws_q (worker_start sr []) = []"
    using worker_start_input [of "[]" sr] by (simp_all add: worker_start_def)
  have "all_gone (fleet_start sr n) = False" by (cases n) (simp_all add: all_gone_def fleet_start_def)
  then have "sync_ok (fleet_start sr n) []" by (simp add: sync_ok_def) (simp add: fleet_start_def)
  moreover have "books (sr_fun sr) (fleet_start sr n) (replicate n []) []"
    by (simp add: books_def fleet_start_def p map_replicate_const [symmetric])
  ultimately show ?thesis unfolding fleet_inv_def no_loss_def using w p by (auto simp: fleet_start_def)
qed

lemma fleet_put_inv:
  assumes "fleet_inv sr fl" and "ev_ok (sr_fun sr) (UpPut m)" and "fleet_step sr (UpPut m) fl = Some fl1"
  shows "fleet_inv sr fl1"
proof -
  have u: "\<not> fl_upstream fl" and fl1: "fl1 = fl\<lparr>fl_in := fl_in fl @ [m], fl_put := fl_put fl @ [m]\<rparr>"
    using assms(3) by (auto split: if_splits)
  from assms(1) obtain cs ms where I: "sync_ok fl ms" "books (sr_fun sr) fl cs ms" by (auto simp: fleet_inv_def)
  have "sync_ok fl1 ms" using I(1) by (simp add: sync_ok_def fl1 all_gone_def)
  moreover have "books (sr_fun sr) fl1 cs ms"
    using I(2) assms(2) by (auto simp: books_def fl1 simp flip: append_assoc intro: list_emb_append_mono)
  ultimately show ?thesis using assms(1,2) u by (auto simp: fleet_inv_def fl1 no_loss_def)
qed

lemma done_inv:
  assumes "fleet_inv sr fl" and "fleet_step sr UpDone fl = Some fl1"
  shows "fleet_inv sr fl1"
proof -
  have u: "\<not> fl_upstream fl"
    and fl1: "fl1 = fl\<lparr>fl_upstream := True, fl_stale := map (\<lambda>s. ws_q s = [Inr None]) (fl_workers fl)\<rparr>"
    using assms(2) by (auto split: if_splits)
  from assms(1) obtain cs ms where I: "sync_ok fl ms" "books (sr_fun sr) fl cs ms" by (auto simp: fleet_inv_def)
  have "sync_ok fl1 ms" "books (sr_fun sr) fl1 cs ms" using I by (simp_all add: sync_ok_def books_def fl1 all_gone_def)
  moreover have "\<forall>i < length (fl_workers fl). fl_place fl ! i = Looping" using assms(1) u by (auto simp: fleet_inv_def no_loss_def)
  ultimately show ?thesis using assms(1) by (auto simp: fleet_inv_def fl1 no_loss_def)
qed

text \<open>One worker moves the payloads \<open>xs\<close> from its input to what it has taken, and the messages \<open>l\<close> to the output.\<close>

lemma books_update:
  assumes "books f fl cs ms" and "i < length (fl_workers fl)"
    and "pending_in (fl_workers fl ! i) @ unchunk (fl_in fl) = xs @ pending_in s @ unchunk (fl_in fl1)"
    and "subseq (unchunk (fl_in fl1)) (unchunk (fl_in fl))"
    and "out (fl_workers fl ! i) @ made f xs = unchunk l @ out s" and "\<forall>m \<in> set l. payloads m \<noteq> []"
    and "fl_workers fl1 = (fl_workers fl)[i := s]" and "fl_put fl1 = fl_put fl"
  shows "books f fl1 (cs[i := cs ! i @ xs]) (ms @ l)"
proof -
  let ?ws = "fl_workers fl" and ?cs = "cs[i := cs ! i @ xs]"
  note B = assms(1) [unfolded books_def]
  have i: "i < length cs" "i < length ?ws" using B assms(2) by auto
  have "mset (concat (map pending_in (?ws[i := s]))) + mset (pending_in (?ws ! i)) = mset (concat (map pending_in ?ws)) + mset (pending_in s)"
    and C: "mset (concat ?cs) + mset (cs ! i) = mset (concat cs) + mset (cs ! i @ xs)"
    and O: "mset (concat (map out (?ws[i := s]))) + mset (out (?ws ! i)) = mset (concat (map out ?ws)) + mset (out s)"
    and W: "mset (concat (map (made f) ?cs)) + mset (made f (cs ! i)) = mset (concat (map (made f) cs)) + mset (made f (cs ! i @ xs))"
    using mset_concat_update [OF i(2), of pending_in s] mset_concat_update [OF i(1), of "\<lambda>x. x" "cs ! i @ xs"]
      mset_concat_update [OF i(2), of out s] mset_concat_update [OF i(1), of "made f" "cs ! i @ xs"] by simp_all
  moreover have "mset (pending_in (?ws ! i)) + mset (unchunk (fl_in fl)) = mset xs + mset (pending_in s) + mset (unchunk (fl_in fl1))"
    using arg_cong [OF assms(3), of mset] by (simp add: ac_simps)
  moreover have "mset (unchunk (fl_put fl)) = mset (unchunk (fl_in fl)) + mset (concat cs) + mset (concat (map pending_in ?ws))"
    using B by simp
  ultimately have "mset (unchunk (fl_put fl)) + mset (pending_in (?ws ! i)) + mset (cs ! i)
      = mset (unchunk (fl_in fl1)) + mset (concat ?cs) + mset (concat (map pending_in (?ws[i := s]))) + mset (pending_in (?ws ! i)) + mset (cs ! i)"
    by (smt (verit, ccfv_threshold) add.assoc add.commute mset_append)
  then have 1: "mset (unchunk (fl_put fl)) = mset (unchunk (fl_in fl1)) + mset (concat ?cs) + mset (concat (map pending_in (?ws[i := s])))"
    by simp
  have "mset (out (?ws ! i)) + mset (made f xs) = mset (unchunk l) + mset (out s)" using arg_cong [OF assms(5), of mset] by simp
  moreover have "mset (unchunk ms) + mset (concat (map out ?ws)) = mset (concat (map (made f) cs))" using B by simp
  ultimately have "mset (unchunk ms) + mset (unchunk l) + mset (concat (map out (?ws[i := s]))) + mset (out (?ws ! i)) + mset (made f (cs ! i))
      = mset (concat (map (made f) ?cs)) + mset (out (?ws ! i)) + mset (made f (cs ! i))"
    using O W by (smt (verit, ccfv_threshold) add.assoc add.commute mset_append made_simps(2))
  then have 2: "mset (unchunk (ms @ l)) + mset (concat (map out (?ws[i := s]))) = mset (concat (map (made f) ?cs))" by simp
  have 3: "subseq (?cs ! j @ pending_in ((?ws[i := s]) ! j) @ unchunk (fl_in fl1)) (unchunk (fl_put fl))" if "j < length cs" for j
  proof (cases "j = i")
    case True
    have "subseq (cs ! i @ pending_in (?ws ! i) @ unchunk (fl_in fl)) (unchunk (fl_put fl))" using B i(1) by blast
    with True i assms(3) show ?thesis by simp
  next
    case False
    have "subseq ((cs ! j @ pending_in (?ws ! j)) @ unchunk (fl_in fl1)) ((cs ! j @ pending_in (?ws ! j)) @ unchunk (fl_in fl))"
      using assms(4) by (intro list_emb_append_mono) auto
    with False B that show ?thesis by (auto intro: subseq_order.order_trans)
  qed
  show ?thesis using 1 2 3 B assms(6-8) by (auto simp: books_def)
qed

lemma fetch_inv:
  assumes "fleet_inv sr fl" and "fleet_step sr (Fetch i) fl = Some fl1"
  shows "fleet_inv sr fl1"
proof -
  let ?s = "fl_workers fl ! i"
  have i: "i < length (fl_workers fl)" "fl_place fl ! i = Looping" "ws_q ?s = []" "ic_buf (ws_in ?s) = []"
    using assms(2) by (auto split: if_splits)
  from assms(1) obtain cs ms where I: "sync_ok fl ms" "books (sr_fun sr) fl cs ms" by (auto simp: fleet_inv_def)
  have w: "worker_ok Looping ?s" and len: "length (fl_place fl) = length (fl_workers fl)" "length (fl_stale fl) = length (fl_workers fl)"
    using assms(1) i by (auto simp: fleet_inv_def)
  have p: "pending_in ?s = []" using i by (simp add: pending_in_def)
  define a where "a = (case fl_in fl of [] \<Rightarrow> None | m # _ \<Rightarrow> Some m)"
  define s where "s = ?s\<lparr>ws_q := [Inr a]\<rparr>"
  have fl1: "fl1 = fl\<lparr>fl_in := tl (fl_in fl), fl_workers := (fl_workers fl)[i := s],
      fl_stale := (if a = None then (fl_stale fl)[i := False] else fl_stale fl)\<rparr>"
    using assms(2) i by (auto simp: a_def s_def Let_def split: list.splits)
  have a: "\<And>m. a = Some m \<Longrightarrow> payloads m \<noteq> [] \<and> (\<forall>x \<in> set (payloads m). plain x)" "wellformed (tl (fl_in fl))"
      "pending_in s @ unchunk (tl (fl_in fl)) = unchunk (fl_in fl)"
    using assms(1) i by (cases "fl_in fl"; force simp: fleet_inv_def a_def s_def pending_in_def answer_def)+
  have "out s = out ?s" "ws_log s = ws_log ?s" "has_port s = has_port ?s" "ic_buf (ws_in s) = []"
    using i by (simp_all add: s_def out_def ws_log_def has_port_def)
  moreover have "input_ok s" using w a(1) i plain_no_stop by (cases a) (auto simp: worker_ok_def input_ok_def s_def pending_in_def answer_def)
  ultimately have "worker_ok Looping s" using w by (auto simp: worker_ok_def holds_answer_def s_def)
  moreover have "books (sr_fun sr) fl1 (cs[i := cs ! i @ []]) (ms @ [])"
  proof (rule books_update [OF I(2) i(1), of _ s])
    show "subseq (unchunk (fl_in fl1)) (unchunk (fl_in fl))" by (cases "fl_in fl") (auto simp: fl1)
  qed (use a(3) p \<open>out s = out ?s\<close> in \<open>simp_all add: fl1\<close>)
  moreover have "sync_ok fl1 ms" using I(1) by (simp add: sync_ok_def fl1 all_gone_def)
  moreover have "no_loss fl1"
  proof -
    have "ws_q s = [Inr None] \<longrightarrow> fl_in fl = []" by (simp add: s_def a_def split: list.splits)
    moreover have "fl_in fl = [] \<longrightarrow> a = None" by (simp add: a_def)
    ultimately show ?thesis
      using assms(1) i len by (auto simp: fleet_inv_def no_loss_def fl1 nth_list_update)
  qed
  ultimately show ?thesis
    using assms(1) a(2) i len by (intro fleet_invI [where fl = fl1 and ms = ms]) (auto simp: fleet_inv_def fl1 nth_list_update)
qed

text \<open>What a worker put in its turn is appended before \<open>End\<close>, which is not there while a worker is looping.\<close>

lemma hand_over_sync:
  assumes "sync_ok fl ms" and "i < length (fl_place fl)" and "fl_place fl ! i = Looping" and "p \<noteq> Gone"
    and "fl_place fl1 = (fl_place fl)[i := p]"
    and "fl_sync fl1 = (fl_sync fl)\<lparr>sy_queue := map_option (\<lambda>q. q\<lparr>bq_items := bq_items q @ l\<rparr>) (sy_queue (fl_sync fl))\<rparr>"
  shows "sync_ok fl1 (ms @ l)"
proof -
  have "\<not> all_gone fl" using nth_mem [OF assms(2)] assms(3) by (auto simp: all_gone_def)
  moreover have "p \<in> set (fl_place fl1)" using assms(2,5) by (simp add: set_update_memI)
  then have "\<not> all_gone fl1" using assms(4) by (auto simp: all_gone_def)
  moreover have "length (filter (\<lambda>p. p = Gone) (fl_place fl1)) = length (filter (\<lambda>p. p = Gone) (fl_place fl))"
    using length_filter_update [OF assms(2), of "\<lambda>p. p = Gone" p] assms(3-5) by simp
  ultimately show ?thesis using assms(1,6) by (simp add: sync_ok_def)
qed

lemma move_inv:
  assumes inv: "fleet_inv sr fl" and i: "i < length (fl_workers fl)" "fl_place fl ! i = Looping"
    and fl1: "fl1 = fl\<lparr>fl_workers := (fl_workers fl)[i := s1], fl_place := (fl_place fl)[i := p], fl_sync := sy,
      fl_stale := st, fl_raced := rc\<rparr>" and p: "p \<noteq> Gone"
    and h: "hand_over s (fl_sync fl) = (s1, sy)" and s: "has_port s" "input_ok s" "ws_q s = []"
    and x: "pending_in (fl_workers fl ! i) = xs @ pending_in s" "out s = out (fl_workers fl ! i) @ made (sr_fun sr) xs"
    and fin: "p \<noteq> Looping \<longrightarrow> pending_in s = [] \<and> out s1 = []"
    and st: "length st = length (fl_workers fl)" and nl: "no_loss fl1"
  shows "fleet_inv sr fl1"
proof -
  from inv obtain cs ms where I: "sync_ok fl ms" "books (sr_fun sr) fl cs ms" by (auto simp: fleet_inv_def)
  have len: "length (fl_place fl) = length (fl_workers fl)" using inv by (simp add: fleet_inv_def)
  note H = hand_over_props [OF s(1) h]
  have s1: "input_ok s1" "pending_in s1 = pending_in s" "ws_q s1 = []"
    using H(4) s by (simp_all add: same_input_simps) (simp add: same_input_def)
  have "books (sr_fun sr) fl1 (cs[i := cs ! i @ xs]) (ms @ ws_log s)"
    using x s1 H by (intro books_update [OF I(2) i(1)]) (simp_all add: fl1)
  moreover have "sync_ok fl1 (ms @ ws_log s)"
    using i len p H(6) by (intro hand_over_sync [OF I(1)]) (simp_all add: fl1)
  moreover have "worker_ok p s1" using H s1 fin by (auto simp: worker_ok_def holds_answer_def)
  ultimately show ?thesis
    using inv i len st nl by (intro fleet_invI [where fl = fl1]) (auto simp: fleet_inv_def fl1 nth_list_update)
qed

lemma turn_inv:
  assumes "fleet_inv sr fl" and "stage_ok sr" and "ev_ok (sr_fun sr) (Turn i ob)" and "fleet_step sr (Turn i ob) fl = Some fl1"
  shows "fleet_inv sr fl1"
proof -
  let ?s = "fl_workers fl ! i" and ?ob = "ob\<lparr>io_upstream := fl_upstream fl\<rparr>" and ?f = "sr_fun sr"
  have i: "i < length (fl_workers fl)" "fl_place fl ! i = Looping" "ws_q ?s \<noteq> [] \<or> ic_buf (ws_in ?s) \<noteq> []"
    using assms(4) by (auto split: if_splits)
  have w: "has_port ?s" "input_ok ?s" "holds_answer ?s"
    and len: "length (fl_place fl) = length (fl_workers fl)" "length (fl_stale fl) = length (fl_workers fl)"
    using assms(1) i by (auto simp: fleet_inv_def worker_ok_def)
  have pl: "(fl_place fl)[i := Looping] = fl_place fl" using i(2) by (metis list_update_id)
  have c: "calm ?f ?ob" "calm ?f ob" using assms(3) by (simp_all add: calm_def)
  show ?thesis
  proof (rule fleet_turn [OF assms(2) c(1) w(1-3) i(3)], goal_cases item empty)
    case (item x s)
    obtain s1 sy where h: "hand_over s (fl_sync fl) = (s1, sy)" by force
    have fl1: "fl1 = fl\<lparr>fl_workers := (fl_workers fl)[i := s1], fl_place := (fl_place fl)[i := Looping], fl_sync := sy,
        fl_stale := (fl_stale fl)[i := False], fl_raced := fl_raced fl\<rparr>"
      using assms(4) i item h pl by (cases fl) auto
    have "ws_q s1 = []" using hand_over_props(4) [OF item(4) h] item(3) by (simp add: same_input_def)
    then have "no_loss fl1" using assms(1) i len by (auto simp: fleet_inv_def no_loss_def fl1 nth_list_update)
    with move_inv [OF assms(1) i(1,2) fl1 _ h item(4,5,3), of "[x]"] item len show ?thesis by simp
  next
    case (empty s)
    show ?thesis
    proof (cases "fl_upstream fl \<and> c_threshold (sr_cfg sr) \<le> ws_empty s")
      case False
      obtain s1 sy where h: "hand_over s (fl_sync fl) = (s1, sy)" by force
      have fl1: "fl1 = fl\<lparr>fl_workers := (fl_workers fl)[i := s1], fl_place := (fl_place fl)[i := Looping], fl_sync := sy,
          fl_stale := (fl_stale fl)[i := False], fl_raced := fl_raced fl\<rparr>"
        using assms(4) i empty h False pl by (cases fl) (auto split: if_splits)
      have "ws_q s1 = []" using hand_over_props(4) [OF empty(6) h] empty(4) by (simp add: same_input_def)
      then have "no_loss fl1" using assms(1) i len by (auto simp: fleet_inv_def no_loss_def fl1 nth_list_update)
      with move_inv [OF assms(1) i(1,2) fl1 _ h empty(6,7,4), of "[]"] empty len show ?thesis by simp
    next
      case True
      obtain s0 where E: "worker_epilogue (sr_cfg sr) ob (HookItems []) s = (s0, None)" "has_port s0" "same_input s s0"
        "out s0 = out s" "unchunk (ws_log s0) = out s" by (rule epilogue_flushed [OF empty(6) c(2)])
      obtain s1 sy where h: "hand_over s0 (fl_sync fl) = (s1, sy)" by force
      have fl1: "fl1 = fl\<lparr>fl_workers := (fl_workers fl)[i := s1], fl_place := (fl_place fl)[i := Leaving], fl_sync := sy,
          fl_stale := fl_stale fl, fl_raced := fl_raced fl \<or> fl_stale fl ! i\<rparr>"
        using assms(4) i empty h True E(1) by (cases fl) auto
      have s0: "input_ok s0" "ws_q s0 = []" "pending_in s0 = []"
        using E(3) empty by (simp_all add: same_input_simps) (simp add: same_input_def)
      have "out s1 = []" using hand_over_props(3) [OF E(2) h] E(4,5) by simp
      moreover have "no_loss fl1" using assms(1) i len True empty(1) by (auto simp: fleet_inv_def no_loss_def fl1 nth_list_update)
      ultimately show ?thesis using move_inv [OF assms(1) i(1,2) fl1 _ h E(2) s0(1,2), of "[]"] s0 E(4) empty len by simp
    qed
  qed
qed

lemma all_filter_iff: "length (filter P xs) = length xs \<longleftrightarrow> (\<forall>x \<in> set xs. P x)"
  using filter_length_eqD [of P xs] by (auto simp: filter_True)

lemma finish_inv:
  assumes "fleet_inv sr fl" and "fleet_step sr (Finish i) fl = Some fl1"
  shows "fleet_inv sr fl1"
proof -
  let ?n = "length (fl_workers fl)" and ?g = "\<lambda>fl. length (filter (\<lambda>p. p = Gone) (fl_place fl))"
  have i: "i < ?n" "fl_place fl ! i = Leaving"
    and fl1: "fl1 = fl\<lparr>fl_place := (fl_place fl)[i := Gone], fl_sync := finish_worker (Some ?n) False 1 [] (fl_sync fl)\<rparr>"
    using assms(2) by (auto split: if_splits)
  from assms(1) obtain cs ms where I: "sync_ok fl ms" "books (sr_fun sr) fl cs ms" by (auto simp: fleet_inv_def)
  have len: "length (fl_place fl) = ?n" using assms(1) by (simp add: fleet_inv_def)
  have g: "?g fl1 = Suc (?g fl)" using length_filter_update [of i "fl_place fl" "\<lambda>p. p = Gone" Gone] i len by (simp add: fl1)
  have "\<not> all_gone fl" using nth_mem [of i "fl_place fl"] i len by (auto simp: all_gone_def)
  moreover have "all_gone fl1 \<longleftrightarrow> \<not> Suc (?g fl) < ?n"
  proof -
    have l: "length (fl_place fl1) = ?n" "fl_place fl1 \<noteq> []" using len i(1) by (auto simp: fl1)
    have "all_gone fl1 \<longleftrightarrow> ?g fl1 = ?n" unfolding all_gone_def l(1) [symmetric] all_filter_iff [symmetric] using l(2) by blast
    then show ?thesis using g l(1) length_filter_le [of "\<lambda>p. p = Gone" "fl_place fl1"] by linarith
  qed
  ultimately have "sync_ok fl1 ms" using I(1) g
    by (auto simp: sync_ok_def finish_worker_def bq_put_def bq_full_def Let_def fl1)
  moreover have "books (sr_fun sr) fl1 cs ms" using I(2) by (simp add: books_def fl1)
  moreover have "no_loss fl1" using assms(1) i len by (auto simp: fleet_inv_def no_loss_def fl1 nth_list_update)
  ultimately show ?thesis
    using assms(1) i len by (intro fleet_invI [where fl = fl1]) (auto simp: fleet_inv_def fl1 nth_list_update worker_ok_def)
qed

lemma fleet_step_inv:
  assumes "stage_ok sr" and "fleet_inv sr fl" and "ev_ok (sr_fun sr) ev" and "fleet_step sr ev fl = Some fl1"
  shows "fleet_inv sr fl1"
  using assms fleet_put_inv done_inv fetch_inv turn_inv finish_inv by (cases ev) blast+

lemma fleet_run_inv:
  assumes "stage_ok sr" and "fleet_inv sr fl" and "\<forall>ev \<in> set evs. ev_ok (sr_fun sr) ev" and "fleet_run sr evs fl = Some fl1"
  shows "fleet_inv sr fl1"
  using assms(2-4)
proof (induction evs arbitrary: fl)
  case (Cons ev evs)
  then show ?case using fleet_step_inv [OF assms(1)] by (auto split: option.splits)
qed simp

section \<open>Nothing is lost, nothing twice\<close>

lemma mset_concat_map_cong: "mset xs = mset ys \<Longrightarrow> mset (concat (map g xs)) = mset (concat (map g ys))"
  by (simp add: mset_concat flip: mset_map) (metis (no_types, lifting) map_map mset_map sum_mset_sum_list)

lemma made_mset: "mset xs = mset ys \<Longrightarrow> mset (made f xs) = mset (made f ys)"
  unfolding made_def by (intro mset_concat_map_cong) (metis mset_filter)

lemma made_concat: "concat (map (made f) cs) = made f (concat cs)"
  by (induction cs) simp_all

lemma made_regular:
  assumes "stage_ok sr" and "x \<in> set (made (sr_fun sr) xs)"
  shows "\<forall>x \<in> set xs. plain x \<Longrightarrow> plain x" and "\<not> is_end x"
  using assms outputs_no_end [of "sr_fun sr" xs] by (auto simp: made_def stage_ok_def outputs_def valid_item_def)

lemma fleet_run_length:
  assumes "fleet_run sr evs fl = Some fl1"
  shows "length (fl_workers fl1) = length (fl_workers fl)"
  using assms
proof (induction evs arbitrary: fl)
  case (Cons ev evs)
  then obtain fl0 where 0: "fleet_step sr ev fl = Some fl0" "fleet_run sr evs fl0 = Some fl1" by (auto split: option.splits)
  have "length (fl_workers fl0) = length (fl_workers fl)"
    using 0(1) by (cases ev) (auto simp: Let_def split: if_splits list.splits turn.splits prod.splits option.splits)
  with Cons.IH [OF 0(2)] show ?case by simp
qed simp

lemma gone_state:
  assumes "fleet_inv sr fl" and "all_gone fl" and "stage_ok sr" and "\<not> fl_raced fl"
  obtains cs ms where "length cs = length (fl_workers fl)" "\<forall>c \<in> set cs. subseq c (unchunk (fl_put fl))"
    "mset (concat cs) = mset (unchunk (fl_put fl))" "fleet_out fl = ms @ [ItemM EndV]" "sy_done (fl_sync fl) = Some True"
    "mset (unchunk ms) = mset (made (sr_fun sr) (unchunk (fl_put fl)))" "wellformed (fleet_out fl)"
proof -
  from assms(1) obtain cs ms where I: "sync_ok fl ms" "books (sr_fun sr) fl cs ms" by (auto simp: fleet_inv_def)
  have len: "length (fl_place fl) = length (fl_workers fl)" using assms(1) by (simp add: fleet_inv_def)
  have g: "i < length (fl_workers fl) \<Longrightarrow> fl_place fl ! i = Gone" for i using assms(2) len by (auto simp: all_gone_def)
  have w: "pending_in s = []" "out s = []" if "s \<in> set (fl_workers fl)" for s
    using that assms(1) g by (auto simp: in_set_conv_nth fleet_inv_def worker_ok_def)
  have 0: "concat (map pending_in (fl_workers fl)) = []" "concat (map out (fl_workers fl)) = []" using w by simp_all
  have "fl_workers fl \<noteq> []" using assms(2) len by (auto simp: all_gone_def)
  then have "fl_in fl = []" using assms(1,4) g [of 0] by (auto simp: fleet_inv_def no_loss_def)
  then have m: "mset (concat cs) = mset (unchunk (fl_put fl))"
    and o: "mset (unchunk ms) = mset (made (sr_fun sr) (unchunk (fl_put fl)))"
    using I(2) 0 made_mset [of "concat cs" "unchunk (fl_put fl)"] by (auto simp: books_def made_concat)
  have "subseq c (unchunk (fl_put fl))" if "c \<in> set cs" for c
    using that I(2) w(1) [OF nth_mem] by (fastforce simp: in_set_conv_nth books_def \<open>fl_in fl = []\<close>)
  moreover have "set (unchunk ms) = set (made (sr_fun sr) (unchunk (fl_put fl)))" using o by (metis set_mset_mset)
  then have "wellformed (ms @ [ItemM EndV])"
    using I(2) made_regular(1) [OF assms(3)] by (auto simp: wellformed_def books_def)
  ultimately show thesis using that [of cs ms] I assms(2) m o by (auto simp: books_def sync_ok_def fleet_out_def)
qed


section \<open>The stage can always end\<close>

text \<open>
  After the done event: a turn or a fetch of worker \<open>i\<close> takes it closer to leaving, however the others
  stand. The rank counts what is ahead of it, the empty polls it still needs, and the poll to come.
\<close>

definition rank :: "'a stage_run \<Rightarrow> nat \<Rightarrow> 'a fleet \<Rightarrow> nat \<times> nat \<times> nat" where
  "rank sr i fl = (let s = fl_workers fl ! i in
     (length (unchunk (fl_in fl)) + length (fl_in fl) + length (pending_in s), c_threshold (sr_cfg sr) - ws_empty s, 1 - length (ws_q s)))"

abbreviation rank_less :: "('a stage_run \<times> nat) \<Rightarrow> ('a fleet \<times> 'a fleet) set" where
  "rank_less c \<equiv> inv_image (less_than <*lex*> less_than <*lex*> less_than) (rank (fst c) (snd c))"

text \<open>What such steps leave alone: everything upstream did, the places of the others, their answers.\<close>

definition beside :: "nat \<Rightarrow> 'a fleet \<Rightarrow> 'a fleet \<Rightarrow> bool" where
  "beside i fl fl1 \<longleftrightarrow> fl_upstream fl1 = fl_upstream fl \<and> fl_put fl1 = fl_put fl
     \<and> (\<forall>j. j \<noteq> i \<longrightarrow> fl_place fl1 ! j = fl_place fl ! j \<and> fl_stale fl1 ! j = fl_stale fl ! j)
     \<and> (\<not> fl_stale fl ! i \<longrightarrow> \<not> fl_stale fl1 ! i \<and> fl_raced fl1 = fl_raced fl)"

lemma beside_trans: "beside i fl fl1 \<Longrightarrow> beside i fl1 fl2 \<Longrightarrow> beside i fl fl2"
  by (auto simp: beside_def)

lemma fetch_closer:
  assumes "stage_ok sr" and "fleet_inv sr fl" and "calm (sr_fun sr) ob" and "fl_upstream fl"
    and "i < length (fl_workers fl)" and "fl_place fl ! i = Looping"
    and True: "ws_q (fl_workers fl ! i) = [] \<and> ic_buf (ws_in (fl_workers fl ! i)) = []"
  obtains ev fl1 where "ev_ok (sr_fun sr) ev" "fleet_step sr ev fl = Some fl1" "beside i fl fl1"
    "fl_place fl1 ! i = Leaving \<or> fl_place fl1 ! i = Looping \<and> (fl1, fl) \<in> rank_less (sr, i)"
proof -
  let ?s = "fl_workers fl ! i"
  have w: "length (fl_stale fl) = length (fl_workers fl)" using assms(2) by (simp add: fleet_inv_def)
  have p: "pending_in ?s = []" using True by (simp add: pending_in_def)
  show thesis
  proof (cases "fl_in fl")
    case Nil
    let ?fl = "fl\<lparr>fl_workers := (fl_workers fl)[i := ?s\<lparr>ws_q := [Inr None]\<rparr>], fl_stale := (fl_stale fl)[i := False]\<rparr>"
    have "fleet_step sr (Fetch i) fl = Some ?fl" using Nil True assms(5,6) by (simp add: Let_def)
    moreover have "(?fl, fl) \<in> rank_less (sr, i)"
      using True assms(5) Nil by (simp add: rank_def Let_def pending_in_def answer_def)
    moreover have "beside i fl ?fl" using assms(5) w by (simp add: beside_def)
    ultimately show thesis using that [of "Fetch i" ?fl] assms(6) by simp
  next
    case (Cons m ms)
    let ?fl = "fl\<lparr>fl_in := ms, fl_workers := (fl_workers fl)[i := ?s\<lparr>ws_q := [Inr (Some m)]\<rparr>]\<rparr>"
    have "fleet_step sr (Fetch i) fl = Some ?fl" using Cons True assms(5,6) by (simp add: Let_def)
    moreover have "(?fl, fl) \<in> rank_less (sr, i)"
      using True assms(5) Cons p by (simp add: rank_def Let_def pending_in_def answer_def)
    moreover have "beside i fl ?fl" by (simp add: beside_def)
    ultimately show thesis using that [of "Fetch i" ?fl] assms(6) by simp
  qed
qed

lemma turn_closer:
  assumes "stage_ok sr" and "fleet_inv sr fl" and "calm (sr_fun sr) ob" and "fl_upstream fl"
    and "i < length (fl_workers fl)" and "fl_place fl ! i = Looping"
    and ne: "ws_q (fl_workers fl ! i) \<noteq> [] \<or> ic_buf (ws_in (fl_workers fl ! i)) \<noteq> []"
  obtains ev fl1 where "ev_ok (sr_fun sr) ev" "fleet_step sr ev fl = Some fl1" "beside i fl fl1"
    "fl_place fl1 ! i = Leaving \<or> fl_place fl1 ! i = Looping \<and> (fl1, fl) \<in> rank_less (sr, i)"
proof -
  let ?s = "fl_workers fl ! i"
  have w: "has_port ?s" "input_ok ?s" "holds_answer ?s" "length (fl_place fl) = length (fl_workers fl)"
      "length (fl_stale fl) = length (fl_workers fl)"
    using assms(2,5) by (auto simp: fleet_inv_def worker_ok_def)
  have c: "calm (sr_fun sr) (ob\<lparr>io_upstream := fl_upstream fl\<rparr>)" using assms(3) by (simp add: calm_def)
  show thesis
  proof (rule fleet_turn [OF assms(1) c w(1-3) ne], goal_cases item empty)
    case (item x s)
    obtain s1 sy where h: "hand_over s (fl_sync fl) = (s1, sy)" by force
    have s1: "pending_in s1 = pending_in s" using hand_over_props(4) [OF item(4) h] by (simp add: same_input_simps)
    let ?fl = "fl\<lparr>fl_workers := (fl_workers fl)[i := s1], fl_sync := sy, fl_stale := (fl_stale fl)[i := False]\<rparr>"
    have "fleet_step sr (Turn i ob) fl = Some ?fl" using assms(5,6) ne item h by simp
    moreover have "(?fl, fl) \<in> rank_less (sr, i)" using item(1) s1 assms(5) by (simp add: rank_def Let_def)
    moreover have "beside i fl ?fl" using assms(5) w(5) by (simp add: beside_def)
    ultimately show thesis using that [of "Turn i ob" ?fl] assms(3,6) by simp
  next
    case (empty s)
    show thesis
    proof (cases "c_threshold (sr_cfg sr) \<le> ws_empty s")
      case False
      obtain s1 sy where h: "hand_over s (fl_sync fl) = (s1, sy)" by force
      have s1: "pending_in s1 = pending_in s" "ws_empty s1 = ws_empty s"
        using hand_over_props(4) [OF empty(6) h] by (simp_all add: same_input_simps) (simp add: same_input_def)
      let ?fl = "fl\<lparr>fl_workers := (fl_workers fl)[i := s1], fl_sync := sy, fl_stale := (fl_stale fl)[i := False]\<rparr>"
      have "fleet_step sr (Turn i ob) fl = Some ?fl" using assms(4-6) ne empty h False by simp
      moreover have "(?fl, fl) \<in> rank_less (sr, i)" using empty s1 assms(5) False by (simp add: rank_def Let_def)
      moreover have "beside i fl ?fl" using assms(5) w(5) by (simp add: beside_def)
      ultimately show thesis using that [of "Turn i ob" ?fl] assms(3,6) by simp
    next
      case True
      obtain s0 where E: "worker_epilogue (sr_cfg sr) ob (HookItems []) s = (s0, None)" by (rule epilogue_flushed [OF empty(6) assms(3)])
      obtain s1 sy where h: "hand_over s0 (fl_sync fl) = (s1, sy)" by force
      let ?fl = "fl\<lparr>fl_workers := (fl_workers fl)[i := s1], fl_place := (fl_place fl)[i := Leaving], fl_sync := sy,
          fl_raced := fl_raced fl \<or> fl_stale fl ! i\<rparr>"
      have "fleet_step sr (Turn i ob) fl = Some ?fl" using assms(4-6) ne empty h E True by simp
      moreover have "beside i fl ?fl" by (simp add: beside_def)
      ultimately show thesis using that [of "Turn i ob" ?fl] assms(3,5) w(4) by simp
    qed
  qed
qed

lemmas worker_closer = fetch_closer turn_closer

text \<open>So worker \<open>i\<close> can be brought to leave, then all of them, and then they finish.\<close>

lemma worker_leaves:
  assumes "stage_ok sr" and "fleet_inv sr fl" and "calm (sr_fun sr) ob" and "fl_upstream fl"
    and "i < length (fl_workers fl)" and "fl_place fl ! i = Looping"
  shows "\<exists>evs fl1. (\<forall>ev \<in> set evs. ev_ok (sr_fun sr) ev) \<and> fleet_run sr evs fl = Some fl1 \<and> beside i fl fl1 \<and> fl_place fl1 ! i = Leaving"
proof -
  have "wf (rank_less (sr, i))" by (intro wf_inv_image wf_lex_prod wf_less_than)
  then show ?thesis using assms(2,4-6)
  proof (induction fl rule: wf_induct_rule)
    case (less fl)
    obtain ev fl1 where e: "ev_ok (sr_fun sr) ev" "fleet_step sr ev fl = Some fl1" "beside i fl fl1"
      "fl_place fl1 ! i = Leaving \<or> fl_place fl1 ! i = Looping \<and> (fl1, fl) \<in> rank_less (sr, i)"
      using worker_closer [OF assms(1) less.prems(1) assms(3) less.prems(2-4)] by (metis (lifting))
    have run: "fleet_run sr (ev # evs) fl = fleet_run sr evs fl1" for evs using e(2) by simp
    show ?case
    proof (cases "fl_place fl1 ! i = Leaving")
      case True
      have "\<forall>ev \<in> set [ev]. ev_ok (sr_fun sr) ev" "fleet_run sr [ev] fl = Some fl1" using e(1,2) by simp_all
      with True e(3) show ?thesis by blast
    next
      case False
      have "fleet_inv sr fl1" using fleet_step_inv [OF assms(1) less.prems(1) e(1,2)] .
      moreover have "fl_upstream fl1" using e(3) less.prems(2) by (simp add: beside_def)
      moreover have "length (fl_workers fl1) = length (fl_workers fl)" using fleet_run_length [of sr "[ev]" fl] e(2) by simp
      ultimately obtain evs fl2 where "\<forall>ev \<in> set evs. ev_ok (sr_fun sr) ev" "fleet_run sr evs fl1 = Some fl2" "beside i fl1 fl2" "fl_place fl2 ! i = Leaving"
        using less.IH [of fl1] e(4) False less.prems(3) by auto
      then have "(\<forall>ev \<in> set (ev # evs). ev_ok (sr_fun sr) ev) \<and> fleet_run sr (ev # evs) fl = Some fl2 \<and> beside i fl fl2 \<and> fl_place fl2 ! i = Leaving"
        using e(1,3) run beside_trans by auto
      then show ?thesis by blast
    qed
  qed
qed

lemma worker_gone:
  assumes "stage_ok sr" and "fleet_inv sr fl" and "fl_upstream fl" and "i < length (fl_workers fl)"
  shows "\<exists>evs fl1. (\<forall>ev \<in> set evs. ev_ok (sr_fun sr) ev) \<and> fleet_run sr evs fl = Some fl1 \<and> beside i fl fl1 \<and> fl_place fl1 ! i = Gone"
proof -
  have c: "calm (sr_fun sr) (sr_last sr)" using assms(1) by (simp add: stage_ok_def)
  have last: ?thesis if "\<forall>ev \<in> set evs. ev_ok (sr_fun sr) ev" "fleet_run sr evs fl = Some fl1" "beside i fl fl1" "fl_place fl1 ! i = Leaving" for evs fl1
  proof -
    have len: "length (fl_workers fl1) = length (fl_workers fl)" "length (fl_place fl1) = length (fl_workers fl1)"
      using fleet_run_length [OF that(2)] fleet_run_inv [OF assms(1,2) that(1,2)] by (simp_all add: fleet_inv_def)
    let ?fl = "fl1\<lparr>fl_place := (fl_place fl1)[i := Gone], fl_sync := finish_worker (Some (length (fl_workers fl1))) False 1 [] (fl_sync fl1)\<rparr>"
    have "fleet_run sr (evs @ [Finish i]) fl = Some ?fl" using that(2,4) assms(4) len by simp
    moreover have "beside i fl ?fl" using that(3) by (simp add: beside_def)
    moreover have "\<forall>ev \<in> set (evs @ [Finish i]). ev_ok (sr_fun sr) ev" using that(1) by simp
    moreover have "fl_place ?fl ! i = Gone" using assms(4) len by simp
    ultimately show ?thesis by blast
  qed
  show ?thesis
  proof (cases "fl_place fl ! i")
    case Looping
    from worker_leaves [OF assms(1,2) c assms(3,4) this] last show ?thesis by blast
  next
    case Leaving
    then show ?thesis using last [of "[]" fl] by (simp add: beside_def)
  next
    case Gone
    then show ?thesis by (intro exI [of _ "[]"] exI [of _ fl]) (simp add: beside_def)
  qed
qed

definition no_stale :: "'a fleet \<Rightarrow> bool" where
  "no_stale fl \<longleftrightarrow> (\<forall>i < length (fl_workers fl). \<not> fl_stale fl ! i)"

lemma workers_gone:
  assumes "stage_ok sr" and "fleet_inv sr fl" and "fl_upstream fl" and "k \<le> length (fl_workers fl)"
  shows "\<exists>evs fl1. (\<forall>ev \<in> set evs. ev_ok (sr_fun sr) ev) \<and> fleet_run sr evs fl = Some fl1 \<and> (\<forall>j < k. fl_place fl1 ! j = Gone)
    \<and> fl_upstream fl1 \<and> fl_put fl1 = fl_put fl \<and> (no_stale fl \<longrightarrow> no_stale fl1 \<and> fl_raced fl1 = fl_raced fl)"
  using assms(4)
proof (induction k)
  case 0
  then show ?case using assms(3) by (intro exI [of _ "[]"] exI [of _ fl]) simp
next
  case (Suc k)
  then obtain evs fl1 where 1: "\<forall>ev \<in> set evs. ev_ok (sr_fun sr) ev" "fleet_run sr evs fl = Some fl1" "\<forall>j < k. fl_place fl1 ! j = Gone"
    "fl_upstream fl1" "fl_put fl1 = fl_put fl" "no_stale fl \<longrightarrow> no_stale fl1 \<and> fl_raced fl1 = fl_raced fl" by auto
  have i1: "fleet_inv sr fl1" "k < length (fl_workers fl1)"
    using fleet_run_inv [OF assms(1,2) 1(1,2)] fleet_run_length [OF 1(2)] Suc.prems by simp_all
  from worker_gone [OF assms(1) i1(1) 1(4) i1(2)] obtain evs' fl2 where
    2: "\<forall>ev \<in> set evs'. ev_ok (sr_fun sr) ev" "fleet_run sr evs' fl1 = Some fl2" "beside k fl1 fl2" "fl_place fl2 ! k = Gone" by blast
  have "fleet_run sr (evs @ evs') fl = Some fl2" "\<forall>ev \<in> set (evs @ evs'). ev_ok (sr_fun sr) ev" using 1 2 by auto
  moreover have "\<forall>j < Suc k. fl_place fl2 ! j = Gone" using 1(3) 2(3,4) by (auto simp: beside_def less_Suc_eq)
  moreover have "no_stale fl \<longrightarrow> no_stale fl2 \<and> fl_raced fl2 = fl_raced fl"
    using 1(6) 2(3) i1(2) fleet_run_length [OF 2(2)] by (auto simp: no_stale_def beside_def)
  moreover have "fl_upstream fl2" "fl_put fl2 = fl_put fl" using 1(4,5) 2(3) by (simp_all add: beside_def)
  ultimately show ?case by blast
qed

lemma stage_ends:
  assumes "stage_ok sr" and "fleet_inv sr fl" and "fl_upstream fl" and "fl_workers fl \<noteq> []"
  shows "\<exists>evs fl1. (\<forall>ev \<in> set evs. ev_ok (sr_fun sr) ev) \<and> fleet_run sr evs fl = Some fl1 \<and> all_gone fl1
    \<and> fl_put fl1 = fl_put fl \<and> (no_stale fl \<longrightarrow> fl_raced fl1 = fl_raced fl)"
proof -
  from workers_gone [OF assms(1-3) order_refl] obtain evs fl1 where
    1: "\<forall>ev \<in> set evs. ev_ok (sr_fun sr) ev" "fleet_run sr evs fl = Some fl1" "\<forall>j < length (fl_workers fl). fl_place fl1 ! j = Gone"
       "fl_put fl1 = fl_put fl" "no_stale fl \<longrightarrow> fl_raced fl1 = fl_raced fl" by blast
  have "length (fl_place fl1) = length (fl_workers fl)"
    using fleet_run_length [OF 1(2)] fleet_run_inv [OF assms(1,2) 1(1,2)] by (simp add: fleet_inv_def)
  then have "all_gone fl1" using 1(3) assms(4) by (auto simp: all_gone_def in_set_conv_nth)
  with 1 show ?thesis by blast
qed


lemma feed_run:
  assumes "\<not> fl_upstream fl"
  shows "fleet_run sr (map UpPut ms) fl = Some (fl\<lparr>fl_in := fl_in fl @ ms, fl_put := fl_put fl @ ms\<rparr>)"
  using assms by (induction ms arbitrary: fl) simp_all

lemma fleet_exists:
  assumes "stage_ok sr" and "0 < n" and "wellformed ms"
  shows "\<exists>evs fl. (\<forall>ev \<in> set evs. ev_ok (sr_fun sr) ev) \<and> fleet_run sr evs (fleet_start sr n) = Some fl \<and> all_gone fl
    \<and> \<not> fl_raced fl \<and> fl_put fl = ms"
proof -
  let ?evs = "map UpPut ms @ [UpDone]"
  define fl where "fl = (fleet_start sr n)\<lparr>fl_in := ms, fl_put := ms, fl_upstream := True, fl_stale := replicate n False\<rparr>"
  have "fleet_run sr (map UpPut ms) (fleet_start sr n) = Some ((fleet_start sr n)\<lparr>fl_in := ms, fl_put := ms\<rparr>)"
    using feed_run [of "fleet_start sr n" sr ms] by (simp add: fleet_start_def)
  then have run: "fleet_run sr ?evs (fleet_start sr n) = Some fl"
    by (simp add: fl_def fleet_start_def worker_start_def)
  have ok: "\<forall>ev \<in> set ?evs. ev_ok (sr_fun sr) ev" using assms(3) by (auto simp: wellformed_def unchunk_def)
  have inv: "fleet_inv sr fl" using fleet_run_inv [OF assms(1) fleet_start_inv ok run] .
  have f: "fl_upstream fl" "fl_workers fl \<noteq> []" "no_stale fl" "\<not> fl_raced fl" "fl_put fl = ms"
    using assms(2) by (auto simp: fl_def fleet_start_def no_stale_def)
  from stage_ends [OF assms(1) inv f(1,2)] obtain evs fl1 where
    1: "\<forall>ev \<in> set evs. ev_ok (sr_fun sr) ev" "fleet_run sr evs fl = Some fl1" "all_gone fl1"
       "fl_put fl1 = fl_put fl" "no_stale fl \<longrightarrow> fl_raced fl1 = fl_raced fl" by blast
  have "(\<forall>ev \<in> set (?evs @ evs). ev_ok (sr_fun sr) ev) \<and> fleet_run sr (?evs @ evs) (fleet_start sr n) = Some fl1"
    using ok 1 run by (auto simp del: append_assoc)
  with 1 f show ?thesis by blast
qed



section \<open>A stale answer\<close>

text \<open>An idle worker counts its empty polls, without end, as long as upstream is not done.\<close>

lemma idle_polls:
  assumes "stage_ok sr" and "calm (sr_fun sr) ob"
  shows "\<exists>fl s. fleet_run sr (concat (replicate k [Fetch 0, Turn 0 ob])) (fleet_start sr 1) = Some fl
    \<and> fl_workers fl = [s] \<and> fl_place fl = [Looping] \<and> \<not> fl_upstream fl \<and> fl_in fl = [] \<and> fl_put fl = [] \<and> length (fl_stale fl) = 1
    \<and> ws_q s = [] \<and> ic_buf (ws_in s) = [] \<and> ws_empty s = k \<and> has_port s \<and> input_ok s"
proof (induction k)
  case 0
  show ?case using worker_start_input [of "[]" sr]
    by (intro exI [of _ "fleet_start sr 1"] exI [of _ "worker_start sr []"]) (simp add: fleet_start_def, simp add: worker_start_def ic_new_def)
next
  case (Suc k)
  then obtain fl s where IH: "fleet_run sr (concat (replicate k [Fetch 0, Turn 0 ob])) (fleet_start sr 1) = Some fl"
    and fl: "fl_workers fl = [s]" "fl_place fl = [Looping]" "\<not> fl_upstream fl" "fl_in fl = []" "fl_put fl = []" "length (fl_stale fl) = 1"
    and s: "ws_q s = []" "ic_buf (ws_in s) = []" "ws_empty s = k" "has_port s" "input_ok s" by blast
  let ?s = "s\<lparr>ws_q := [Inr None]\<rparr>"
  have w: "has_port ?s" "input_ok ?s" "holds_answer ?s" "ws_q ?s \<noteq> [] \<or> ic_buf (ws_in ?s) \<noteq> []"
    using s by (simp_all add: has_port_def input_ok_def holds_answer_def pending_in_def answer_def)
  have c: "calm (sr_fun sr) (ob\<lparr>io_upstream := False\<rparr>)" using assms(2) by (simp add: calm_def)
  obtain s' where T: "iteration (sr_cfg sr) (ob\<lparr>io_upstream := False\<rparr>) ?s = Next s'" "ws_q s' = []" "pending_in s' = []"
      "has_port s'" "input_ok s'" "ws_empty s' = Suc k"
    by (rule fleet_turn [OF assms(1) c w]) (use s in \<open>auto simp: pending_in_def answer_def\<close>)
  obtain s1 sy where h: "hand_over s' (fl_sync fl) = (s1, sy)" by force
  note H = hand_over_props [OF T(4) h]
  define fl1 where "fl1 = fl\<lparr>fl_workers := [s1], fl_sync := sy, fl_stale := (fl_stale fl)[0 := False]\<rparr>"
  have "fleet_run sr (concat (replicate k [Fetch 0, Turn 0 ob]) @ [Fetch 0, Turn 0 ob]) (fleet_start sr 1) = Some fl1"
    using IH fl s T h by (simp add: fl1_def Let_def)
  moreover have "concat (replicate (Suc k) [Fetch 0, Turn 0 ob]) = concat (replicate k [Fetch 0, Turn 0 ob]) @ [Fetch 0, Turn 0 ob]"
    using replicate_append_same [of k "[Fetch 0, Turn 0 ob]"] by (metis concat.simps(1,2) concat_append append_Nil2 replicate_Suc)
  moreover have "ws_q s1 = []" "ic_buf (ws_in s1) = []" "ws_empty s1 = Suc k" "input_ok s1"
    using H(4) T same_input_simps(2) [OF H(4)] by (simp_all add: same_input_def pending_in_def)
  ultimately show ?case using fl H(1) by (intro exI [of _ fl1] exI [of _ s1]) (simp add: fl1_def)
qed

lemma nothing_made:
  assumes "fleet_inv sr fl" and "mset (unchunk (fl_put fl)) = mset (unchunk (fl_in fl))"
  shows "fleet_out fl = (if all_gone fl then [ItemM EndV] else [])"
proof -
  from assms(1) obtain cs ms where I: "sync_ok fl ms" "books (sr_fun sr) fl cs ms" by (auto simp: fleet_inv_def)
  have c: "concat cs = []" using I(2) assms(2) by (auto simp: books_def)
  have "mset (unchunk ms) + mset (concat (map out (fl_workers fl))) = mset (made (sr_fun sr) (concat cs))"
    using I(2) by (simp add: books_def made_concat)
  then have "unchunk ms = []" unfolding c by simp
  then have "ms = []" using I(2) by (cases ms) (auto simp: books_def)
  with I(1) show ?thesis by (simp add: sync_ok_def fleet_out_def)
qed

text \<open>
  C35: counting empty polls from before the done event can lose the end of the stream. A worker that
  has been idle for \<open>EMPTY_THRESHOLD\<close> polls or more gets one more answer \<open>Empty\<close>; before it looks at the event, upstream
  puts its last message and \<open>End\<close> and sets the event; the worker then leaves at once. The stage reports
  itself done, with \<open>End\<close> as its only output and the message still on its input queue.
\<close>

theorem stale_poll_loses_message:
  assumes "stage_ok sr" and "payloads m \<noteq> []" and "\<forall>x \<in> set (payloads m). plain x" and "c_threshold (sr_cfg sr) \<le> Suc k"
  shows "\<exists>fl. fleet_run sr (concat (replicate k [Fetch 0, Turn 0 (sr_last sr)])
        @ [Fetch 0, UpPut m, UpPut (ItemM EndV), UpDone, Turn 0 (sr_last sr), Finish 0]) (fleet_start sr 1) = Some fl
    \<and> all_gone fl \<and> sy_done (fl_sync fl) = Some True \<and> fl_in fl = [m, ItemM EndV] \<and> fleet_out fl = [ItemM EndV] \<and> fl_raced fl"
proof -
  have c: "calm (sr_fun sr) (sr_last sr)" using assms(1) by (simp add: stage_ok_def)
  let ?idle = "concat (replicate k [Fetch 0, Turn 0 (sr_last sr)])" and ?ob = "(sr_last sr)\<lparr>io_upstream := True\<rparr>"
  let ?evs = "[Fetch 0, UpPut m, UpPut (ItemM EndV), UpDone, Turn 0 (sr_last sr), Finish 0]"
  from idle_polls [OF assms(1) c, of k] obtain fl s where
    run: "fleet_run sr ?idle (fleet_start sr 1) = Some fl"
    and fl: "fl_workers fl = [s]" "fl_place fl = [Looping]" "\<not> fl_upstream fl" "fl_in fl = []" "fl_put fl = []" "length (fl_stale fl) = 1"
    and s: "ws_q s = []" "ic_buf (ws_in s) = []" "ws_empty s = k" "has_port s" "input_ok s" by blast
  let ?s = "s\<lparr>ws_q := [Inr None]\<rparr>"
  have w: "has_port ?s" "input_ok ?s" "holds_answer ?s" "ws_q ?s \<noteq> [] \<or> ic_buf (ws_in ?s) \<noteq> []"
    using s by (simp_all add: has_port_def input_ok_def holds_answer_def pending_in_def answer_def)
  have c': "calm (sr_fun sr) ?ob" using c by (simp add: calm_def)
  obtain s' where T: "iteration (sr_cfg sr) ?ob ?s = Leave s'" "has_port s'"
    by (rule fleet_turn [OF assms(1) c' w]) (use s assms(4) in \<open>auto simp: pending_in_def answer_def\<close>)
  obtain s0 where E: "worker_epilogue (sr_cfg sr) (sr_last sr) (HookItems []) s' = (s0, None)" by (rule epilogue_flushed [OF T(2) c])
  obtain s1 sy where h: "hand_over s0 (fl_sync fl) = (s1, sy)" by force
  obtain fl1 where f1: "fleet_run sr (?idle @ ?evs) (fleet_start sr 1) = Some fl1" "fl_place fl1 = [Gone]" "fl_in fl1 = [m, ItemM EndV]"
      "fl_put fl1 = [m, ItemM EndV]" "fl_raced fl1"
    using run fl s T E h by (simp add: Let_def)
  have "\<forall>ev \<in> set (?idle @ ?evs). ev_ok (sr_fun sr) ev" using c assms(2,3) by (auto simp: set_replicate_conv_if)
  from fleet_run_inv [OF assms(1) fleet_start_inv this f1(1)] have inv: "fleet_inv sr fl1" .
  have g: "all_gone fl1" using f1(2) by (simp add: all_gone_def)
  then have "sy_done (fl_sync fl1) = Some True" using inv by (auto simp: fleet_inv_def sync_ok_def)
  moreover have "fleet_out fl1 = [ItemM EndV]" using nothing_made [OF inv] f1 g by simp
  ultimately show ?thesis using f1 g by blast
qed

theorem stale_poll_loses_message_witness:
  "\<exists>fl. fleet_run (sample_stage 0) (concat (replicate 2 [Fetch 0, Turn 0 (sr_last (sample_stage 0))])
        @ [Fetch 0, UpPut (ItemM (Obj 7)), UpPut (ItemM EndV), UpDone, Turn 0 (sr_last (sample_stage 0)), Finish 0])
        (fleet_start (sample_stage 0) 1) = Some fl
    \<and> fl_in fl = [ItemM (Obj 7), ItemM EndV] \<and> fleet_out fl = [ItemM EndV]"
proof -
  have "c_threshold (sr_cfg (sample_stage 0)) \<le> Suc 2" using sample_run_ok(8) by (simp add: sample_stage_def)
  from stale_poll_loses_message [OF sample_stage_ok _ _ this, of "ItemM (Obj 7)"] show ?thesis by auto
qed

section \<open>Pipelines of such stages\<close>

text \<open>
  Each stage runs beside the next one: what it puts on its output queue, in that order and at any
  time, is what the next stage's upstream puts.
\<close>

inductive fleet_stages :: "('a stage_run \<times> nat) list \<Rightarrow> 'a msg list \<Rightarrow> 'a msg list \<Rightarrow> bool" where
  fleets_end: "fleet_stages [] ms ms"
| fleets_stage: "fleet_run sr evs (fleet_start sr n) = Some fl \<Longrightarrow> \<forall>ev \<in> set evs. ev_ok (sr_fun sr) ev \<Longrightarrow>
     all_gone fl \<Longrightarrow> \<not> fl_raced fl \<Longrightarrow> fl_put fl = ms \<Longrightarrow> fleet_stages srs (fleet_out fl) ms' \<Longrightarrow>
     fleet_stages ((sr, n) # srs) ms ms'"

inductive_cases fleets_NilE: "fleet_stages [] ms ms'"
inductive_cases fleets_ConsE: "fleet_stages ((sr, n) # srs) ms ms'"

definition no_ends :: "'a msg list \<Rightarrow> 'a val list" where
  "no_ends ms = filter (\<lambda>x. \<not> is_end x) (unchunk ms)"

lemma through_mset: "mset xs = mset ys \<Longrightarrow> mset (through fs xs) = mset (through fs ys)"
proof (induction fs arbitrary: xs ys)
  case (Cons f fs)
  show ?case using Cons.IH [OF mset_concat_map_cong [OF Cons.prems]] by simp
qed simp

lemma fleet_stages_made:
  assumes "fleet_stages srs ms ms'" and "\<forall>(sr, n) \<in> set srs. stage_ok sr" and "wellformed ms"
  shows "wellformed ms' \<and> mset (no_ends ms') = mset (through (map (sr_fun \<circ> fst) srs) (no_ends ms))"
  using assms
proof (induction rule: fleet_stages.induct)
  case (fleets_stage sr evs n fl ms srs ms')
  have ok: "stage_ok sr" "\<forall>(sr, n) \<in> set srs. stage_ok sr" using fleets_stage.prems(1) by auto
  have inv: "fleet_inv sr fl" using fleet_run_inv [OF ok(1) fleet_start_inv fleets_stage.hyps(2,1)] .
  obtain ms1 where o: "fleet_out fl = ms1 @ [ItemM EndV]" "mset (unchunk ms1) = mset (made (sr_fun sr) (unchunk ms))" "wellformed (fleet_out fl)"
    by (rule gone_state [OF inv fleets_stage.hyps(3) ok(1) fleets_stage.hyps(4)]) (use fleets_stage.hyps(5) in blast)
  have "\<forall>x \<in> set (unchunk ms1). \<not> is_end x" using made_regular(2) [OF ok(1)] o(2) by (metis set_mset_mset)
  then have "mset (no_ends (fleet_out fl)) = mset (made (sr_fun sr) (unchunk ms))" using o(1,2) by (simp add: no_ends_def filter_True)
  from through_mset [OF this]
  have "mset (through (map (sr_fun \<circ> fst) srs) (no_ends (fleet_out fl))) = mset (through (map (sr_fun \<circ> fst) ((sr, n) # srs)) (no_ends ms))"
    by (simp only: made_def no_ends_def list.map comp_def fst_conv through.simps)
  with fleets_stage.IH [OF ok(2) o(3)] show ?case by (simp only:)
qed simp

lemma fleet_stages_exist:
  assumes "\<forall>(sr, n) \<in> set srs. stage_ok sr \<and> 0 < n" and "wellformed ms"
  shows "\<exists>ms'. fleet_stages srs ms ms'"
  using assms
proof (induction srs arbitrary: ms)
  case Nil
  then show ?case by (blast intro: fleets_end)
next
  case (Cons c srs)
  obtain sr n where c: "c = (sr, n)" by force
  have ok: "stage_ok sr" "0 < n" "\<forall>(sr, n) \<in> set srs. stage_ok sr \<and> 0 < n" using Cons.prems(1) c by auto
  from fleet_exists [OF ok(1,2) Cons.prems(2)] obtain evs fl where
    r: "\<forall>ev \<in> set evs. ev_ok (sr_fun sr) ev" "fleet_run sr evs (fleet_start sr n) = Some fl" "all_gone fl" "\<not> fl_raced fl" "fl_put fl = ms" by blast
  have "fleet_inv sr fl" using fleet_run_inv [OF ok(1) fleet_start_inv r(1,2)] .
  then have "wellformed (fleet_out fl)" by (rule gone_state [OF _ r(3) ok(1) r(4)])
  from Cons.IH [OF ok(3) this] fleets_stage [OF r(2,1,3-5)] c show ?case by blast
qed

lemma fleet_pipeline_yields:
  assumes "\<forall>(sr, n) \<in> set srs. stage_ok sr" and "wellformed ms" and "unchunk ms = root_items src @ [EndV]" and "fleet_stages srs ms ms'"
  shows "\<exists>st. read_all ms' = Complete st \<and> mset (it_yielded st) = mset (through (map (sr_fun \<circ> fst) srs) (root_items src))"
proof -
  have m: "wellformed ms'" "mset (no_ends ms') = mset (through (map (sr_fun \<circ> fst) srs) (no_ends ms))"
    using fleet_stages_made [OF assms(4)] assms(1,2) by blast+
  have "no_ends ms = root_items src" using assms(3) root_items_no_end [of _ src] by (simp add: no_ends_def filter_True)
  moreover have "\<forall>m \<in> set ms'. payloads m \<noteq> []" using m(1) by (simp add: wellformed_def)
  ultimately show ?thesis using read_all_yields m(2) by (metis no_ends_def)
qed



end
