(* ===== verification/Pipe_Thread_Run.thy ===== *)
theory Pipe_Thread_Run
  imports Pipe_Pool Pipe_Exit Pipe_Fleet
begin

text \<open>
  The rest of \<open>_threaded_worker_run\<close> (\<^verbatim>\<open>src/pipe/workers.py\<close>): a threaded stage with a \<open>run()\<close> of its own, the
  \<open>pull\<close> and \<open>put\<close> it is given, and the end of the process. What is shown: its \<open>pull\<close> is that of a process
  worker but for the old chunk, which it never flushes; what \<open>run()\<close> puts is on the queue, in order, before
  the worker is counted; and what \<open>on_park\<close> returns at the end is dropped.
\<close>

section \<open>Pulling\<close>

text \<open>A round of the loop sees \<open>should_stop\<close>, \<open>thread_stop\<close> and \<open>upstream_done\<close>.\<close>

fun thread_pull ::
  "int \<Rightarrow> (bool \<times> bool \<times> bool) list \<Rightarrow> 'a val list \<Rightarrow> 'a wstate \<Rightarrow> 'a wstate \<times> (exn + 'a val list) option" where
  "thread_pull n [] items s = (s, None)"
| "thread_pull n ((stop, thread_stop, upstream) # obs) items s =
     (if n \<le> int (length items) \<or> stop \<or> thread_stop then (s, Some (Inr items))
      else case take_input s of
        (s1, Inl e) \<Rightarrow>
          (if e = EmptyE then
             if items \<noteq> [] then (s1, Some (Inr items))
             else if upstream then (s1, Some (Inr []))
             else thread_pull n obs items s1
           else (s1, Some (Inl e)))
      | (s1, Inr raw) \<Rightarrow>
          (if is_worker_stop raw then (s1\<lparr>ws_back := ws_back s1 @ [ItemM WorkerStopV]\<rparr>, Some (Inr items))
           else if is_end raw then thread_pull n obs items s1
           else thread_pull n obs (items @ [raw]) s1))"

definition portless :: "'a wstate \<Rightarrow> 'a wstate" where
  "portless s = s\<lparr>ws_port := None\<rparr>"

lemma take_input_portless:
  "take_input (portless s) = (case take_input s of (s1, r) \<Rightarrow> (portless s1, r))"
  by (auto simp: take_input_def portless_def split: prod.splits)

lemma pull_end_portless: "pull_end now fx items (portless s) = (portless s, Some (Inr items))"
  by (simp add: pull_end_def portless_def)

text \<open>
  The equivalence of the two: a thread pulls what a process worker without an output channel pulls. The
  output channel stays as it is, so a partial chunk waits for the next \<open>put\<close> or for the end, however old it is,
  while the \<open>pull\<close> of a process worker flushes it.
\<close>

theorem thread_pull_as_pull:
  assumes "thread_pull n obs items s = (s', r)"
  shows "pull now fx n (map (\<lambda>(stop, thread_stop, upstream). (stop \<or> thread_stop, upstream)) obs) items (portless s) = (portless s', r)
    \<and> ws_port s' = ws_port s"
  using assms
proof (induction n obs items s rule: thread_pull.induct)
  case (2 n stop thread_stop upstream obs items s)
  note run = 2(4)
  show ?case
  proof (cases "n \<le> int (length items) \<or> stop \<or> thread_stop")
    case True
    then show ?thesis using run pull_end_portless [of now fx items s] by auto
  next
    case False
    obtain s1 ans where t: "take_input s = (s1, ans)" by force
    note IH = 2(1-3) [OF False t [symmetric]]
    have port: "ws_port s1 = ws_port s" by (rule take_input_same [OF t])
    show ?thesis
    proof (cases ans)
      case (Inl e)
      then show ?thesis using run IH(1) False t port by (auto simp: take_input_portless pull_end_portless split: if_splits)
    next
      case (Inr raw)
      have pb: "portless s1\<lparr>ws_back := b\<rparr> = portless (s1\<lparr>ws_back := b\<rparr>)" "ws_back (portless s1) = ws_back s1" for b
        by (simp_all add: portless_def)
      show ?thesis using run IH(2,3) [OF Inr] False t port Inr
        by (auto simp: take_input_portless pb pull_end_portless split: if_splits)
    qed
  qed
qed simp

section \<open>A threaded stage with its own run()\<close>

text \<open>\<open>_put\<close>: \<open>None\<close> is skipped; there is no check for tensors on the GPU.\<close>

definition thread_put :: "emit_obs \<Rightarrow> 'a val \<Rightarrow> 'a out_port \<Rightarrow> 'a out_port \<times> exn option" where
  "thread_put eo item p =
     (if item = NoneV then (p, None) else port_put (eo_exn eo) p (oc_send (eo_t1 eo) (eo_t2 eo) item (op_ch p)))"

text \<open>
  \<open>run()\<close> is the sequence of values it puts and the exception it ends with, if any; an exception of a put ends it
  as well. It is called once, whatever the number of threads, and outside any handler: when it raises, neither
  the last chunk is flushed nor the worker counted. \<open>reads\<close> are the values of \<open>should_stop\<close> seen afterwards.
\<close>

fun run_puts :: "(nat \<Rightarrow> emit_obs) \<Rightarrow> nat \<Rightarrow> 'a val list \<Rightarrow> exn option \<Rightarrow> 'a out_port \<Rightarrow> 'a out_port \<times> exn option" where
  "run_puts eos k [] fin p = (p, fin)"
| "run_puts eos k (x # xs) fin p =
     (case thread_put (eos k) x p of
        (p1, None) \<Rightarrow> run_puts eos (Suc k) xs fin p1
      | (p1, Some e) \<Rightarrow> (p1, Some e))"

definition threaded_custom_run ::
  "(nat \<Rightarrow> emit_obs) \<Rightarrow> exn option \<Rightarrow> 'a val list \<times> exn option \<Rightarrow> nat \<Rightarrow> bool \<Rightarrow> nat \<Rightarrow> bool list
    \<Rightarrow> 'a wstate \<Rightarrow> 'a stage_sync \<Rightarrow> 'a stage_sync \<times> (exn + nat option)" where
  "threaded_custom_run eos flush_exn run worker_count is_final expected_consumers reads s sy =
     (case ws_port s of
        None \<Rightarrow>
          (case snd run of
             Some e \<Rightarrow> (sy, Inl e)
           | None \<Rightarrow> (finish_worker (Some worker_count) is_final expected_consumers [] sy, Inr (stay_alive reads)))
      | Some p \<Rightarrow>
          (case run_puts eos 0 (fst run) (snd run) p of
             (p1, Some e) \<Rightarrow> (snd (hand_over (s\<lparr>ws_port := Some p1\<rparr>) sy), Inl e)
           | (p1, None) \<Rightarrow>
               (case port_flush flush_exn p1 of
                  (p2, Some e) \<Rightarrow> (snd (hand_over (s\<lparr>ws_port := Some p2\<rparr>) sy), Inl e)
                | (p2, None) \<Rightarrow>
                    (finish_worker (Some worker_count) is_final expected_consumers [] (snd (hand_over (s\<lparr>ws_port := Some p2\<rparr>) sy)),
                     Inr (stay_alive reads)))))"

text \<open>The end of every other threaded worker: \<open>on_park\<close> has no channel to send through.\<close>

definition threaded_exit :: "('a val \<Rightarrow> shape) \<Rightarrow> bool \<Rightarrow> 'a exit_obs \<Rightarrow> exn + 'a exit_result" where
  "threaded_exit view profile ob = worker_exit view profile ob None"

lemma thread_put_correct:
  assumes "port_ok p" and "thread_put eo x p = (p', res)"
  shows "port_ok p'" and "res = None \<Longrightarrow> sent p' = sent p @ (if x = NoneV then [] else [x])" and "eo_exn eo = None \<Longrightarrow> res = None"
  using port_put_step [of p "Send (eo_t1 eo) (eo_t2 eo) x" _ "eo_exn eo" p' res] assms by (auto simp: thread_put_def split: if_splits)

lemma run_puts_correct:
  assumes "port_ok p" and "run_puts eos k xs fin p = (p', res)"
  shows "port_ok p' \<and> (res = None \<longrightarrow> sent p' = sent p @ filter (\<lambda>x. x \<noteq> NoneV) xs) \<and> (quiet eos \<longrightarrow> res = fin)"
  using assms
proof (induction xs arbitrary: k p)
  case (Cons x xs)
  obtain p1 r where e: "thread_put (eos k) x p = (p1, r)" by force
  note E = thread_put_correct [OF Cons.prems(1) e]
  show ?case
  proof (cases r)
    case None
    then have "run_puts eos (Suc k) xs fin p1 = (p', res)" using Cons.prems(2) e by simp
    from Cons.IH [OF E(1) this] E(2) None show ?thesis by auto
  next
    case (Some e)
    then show ?thesis using Cons.prems(2) \<open>thread_put (eos k) x p = (p1, r)\<close> E(1,3) by auto
  qed
qed simp

text \<open>
  What a threaded \<open>run()\<close> puts reaches the queue whole and in order, and before any \<open>End\<close> of this worker; when it
  raises, the worker is not counted and the stage does not end through it.
\<close>

theorem threaded_run_delivers:
  assumes "ws_port s = Some p" and "port_ok p" and "sent p = []" and "quiet eos"
    and "sy = \<lparr>sy_counter = Some c, sy_done = Some False, sy_queue = Some \<lparr>bq_maxsize = 0, bq_items = q\<rparr>\<rparr>"
    and "threaded_custom_run eos None (xs, fin) n is_final consumers reads s sy = (sy', r)"
  shows "case fin of
      Some e \<Rightarrow> r = Inl e \<and> sy_counter sy' = Some c \<and> sy_done sy' = Some False
    | None \<Rightarrow> r = Inr (stay_alive reads) \<and> sy_counter sy' = Some (Suc c) \<and> sy_done sy' = Some (n \<le> Suc c)
        \<and> (\<exists>ms. unchunk ms = filter (\<lambda>x. x \<noteq> NoneV) xs \<and> sy_queue sy' = Some \<lparr>bq_maxsize = 0,
             bq_items = q @ ms @ (if n \<le> Suc c then replicate (if is_final then consumers else 1) (ItemM EndV) else [])\<rparr>)"
proof -
  obtain p1 res where rp: "run_puts eos 0 xs fin p = (p1, res)" by force
  have R: "port_ok p1" "res = None \<Longrightarrow> sent p1 = filter (\<lambda>x. x \<noteq> NoneV) xs" "res = fin"
    using run_puts_correct [OF assms(2) rp] assms(3,4) by auto
  show ?thesis
  proof (cases fin)
    case (Some e)
    then show ?thesis using assms(1,5,6) rp R(3) by (auto simp: threaded_custom_run_def hand_over_def)
  next
    case None
    obtain p2 e where f: "port_flush None p1 = (p2, e)" by force
    note F = port_flush_correct [OF R(1) f]
    have e: "e = None" using F(3) by simp
    have "unchunk (op_log p2) = filter (\<lambda>x. x \<noteq> NoneV) xs" using F(2) [OF e] F(4) R(2,3) None by (simp add: sent_def)
    moreover have "sy' = finish_worker (Some n) is_final consumers [] (sy\<lparr>sy_queue := Some \<lparr>bq_maxsize = 0, bq_items = q @ op_log p2\<rparr>\<rparr>)"
      "r = Inr (stay_alive reads)"
      using assms(1,5,6) rp R(3) None f e by (auto simp: threaded_custom_run_def hand_over_def)
    ultimately show ?thesis using None assms(5) by (auto simp: finish_worker_def put_ends_room Let_def)
  qed
qed

lemma threaded_exit_discards:
  assumes "threaded_exit view profile ob = Inr r"
  shows "xr_port r = None" and "xo_ready ob \<Longrightarrow> po_hook (xo_park ob) = HookItems items \<Longrightarrow> xr_discarded r = length (valid_items items)"
  using assms by (auto simp: threaded_exit_def worker_exit_def park_release_gpu_def Let_def split: park_hook.splits if_splits)

end
