(* ===== verification/Pipe_Recipes.thy ===== *)
theory Pipe_Recipes
  imports Pipe_Fleet
begin

text \<open>
  The stages of the example programs (\<^verbatim>\<open>examples/\<close>): sources, stages that collect items into batches,
  splitting audio into chunks, encoding and reassembling them, grouping by key. Decoders, models, stores
  and random numbers are parameters. What a stage returns is read the way the run loop
  reads it: a list is several items, \<open>None\<close> is nothing.
\<close>

section \<open>Stages that collect\<close>

text \<open>What a returned value becomes downstream.\<close>

definition emitted :: "'a val \<Rightarrow> 'a val list" where
  "emitted r = valid_items (result_list r)"

text \<open>The calls one worker makes of a stage with a state, and the flush when the input has ended.\<close>

fun calls :: "('x \<Rightarrow> 's \<Rightarrow> 's \<times> 'y list) \<Rightarrow> 'x list \<Rightarrow> 's \<Rightarrow> 's \<times> 'y list" where
  "calls call [] s = (s, [])"
| "calls call (x # xs) s = (case call x s of (s1, ys) \<Rightarrow> case calls call xs s1 of (s2, zs) \<Rightarrow> (s2, ys @ zs))"

definition stream :: "('x \<Rightarrow> 's \<Rightarrow> 's \<times> 'y list) \<Rightarrow> ('s \<Rightarrow> 's \<times> 'y list) \<Rightarrow> 'x list \<Rightarrow> 's \<Rightarrow> 'y list" where
  "stream call flush xs s = (case calls call xs s of (s1, ys) \<Rightarrow> ys @ snd (flush s1))"

text \<open>
  Several examples keep a buffer that is emptied when it has reached a size and once more at the
  end. The interface: what a call and the flush do to the buffer, and what is made of a full one. The
  law of the client: the items are cut into consecutive batches, all but the last of them full.
\<close>

locale collecting =
  fixes size :: "'s \<Rightarrow> int" and buffer :: "'s \<Rightarrow> 'x list" and call :: "'x \<Rightarrow> 's \<Rightarrow> 's \<times> 'y list"
    and flush :: "'s \<Rightarrow> 's \<times> 'y list" and make :: "'x list \<Rightarrow> 'y list" and rest :: "'x list \<Rightarrow> 'y list"
  assumes call_size: "size (fst (call x s)) = size s"
    and call_keeps: "int (Suc (length (buffer s))) < size s \<Longrightarrow> buffer (fst (call x s)) = buffer s @ [x] \<and> snd (call x s) = []"
    and call_full: "size s \<le> int (Suc (length (buffer s))) \<Longrightarrow> buffer (fst (call x s)) = [] \<and> snd (call x s) = make (buffer s @ [x])"
    and flush_rest: "snd (flush s) = (if buffer s = [] then [] else rest (buffer s))"
begin

lemma calls_batches:
  assumes "int (length (buffer s)) < max 1 (size s)"
  shows "\<exists>bs. concat bs @ buffer (fst (calls call xs s)) = buffer s @ xs \<and> snd (calls call xs s) = concat (map make bs)
    \<and> (\<forall>b \<in> set bs. int (length b) = max 1 (size s)) \<and> int (length (buffer (fst (calls call xs s)))) < max 1 (size s)"
  using assms
proof (induction xs arbitrary: s)
  case Nil
  then show ?case by (intro exI [of _ "[]"]) simp
next
  case (Cons x xs)
  obtain s1 ys where c: "call x s = (s1, ys)" by force
  then have sz: "size s1 = size s" using call_size [of x s] by simp
  obtain s2 zs where r: "calls call xs s1 = (s2, zs)" by force
  show ?case
  proof (cases "size s \<le> int (Suc (length (buffer s)))")
    case True
    then have s1: "buffer s1 = []" "ys = make (buffer s @ [x])" using call_full [of s x] c by simp_all
    moreover have "0 < max 1 (size s)" by simp
    ultimately obtain bs where
      "concat bs @ buffer s2 = xs" "zs = concat (map make bs)" "\<forall>b \<in> set bs. int (length b) = max 1 (size s)" "int (length (buffer s2)) < max 1 (size s)"
      using Cons.IH [of s1] r sz by auto
    then show ?thesis using c r s1 True Cons.prems by (intro exI [of _ "(buffer s @ [x]) # bs"]) auto
  next
    case False
    then have s1: "buffer s1 = buffer s @ [x]" "ys = []" using call_keeps [of s x] c by simp_all
    then have "int (length (buffer s1)) < max 1 (size s1)" using sz False by simp
    from Cons.IH [OF this] r s1 c sz show ?thesis by auto
  qed
qed

lemma stream_parts:
  assumes "buffer s = []"
  obtains bs r where "concat bs @ r = xs" "stream call flush xs s = concat (map make bs) @ (if r = [] then [] else rest r)"
    "\<forall>b \<in> set bs. int (length b) = max 1 (size s)" "int (length r) < max 1 (size s)"
proof -
  have "int (length (buffer s)) < max 1 (size s)" using assms by simp
  from calls_batches [OF this, of xs] obtain bs where
    B: "concat bs @ buffer (fst (calls call xs s)) = xs" "snd (calls call xs s) = concat (map make bs)"
       "\<forall>b \<in> set bs. int (length b) = max 1 (size s)" "int (length (buffer (fst (calls call xs s)))) < max 1 (size s)" using assms by auto
  show ?thesis by (rule that [OF B(1) _ B(3,4)]) (use B(2) flush_rest in \<open>simp add: stream_def case_prod_beta\<close>)
qed

text \<open>When the flush treats its batch like a call, the last batch is only shorter.\<close>

lemma stream_batches:
  assumes "rest = make" and "buffer s = []"
  shows "\<exists>bs. concat bs = xs \<and> stream call flush xs s = concat (map make bs) \<and> (\<forall>b \<in> set bs. b \<noteq> [] \<and> int (length b) \<le> max 1 (size s))
    \<and> (\<forall>b \<in> set (butlast bs). int (length b) = max 1 (size s))"
proof -
  from stream_parts [OF assms(2), of xs] obtain bs r where
    B: "concat bs @ r = xs" "stream call flush xs s = concat (map make bs) @ (if r = [] then [] else rest r)"
       "\<forall>b \<in> set bs. int (length b) = max 1 (size s)" "int (length r) < max 1 (size s)" by blast
  have ne: "b \<noteq> []" if "b \<in> set bs" for b using that B(3) by force
  have full: "\<forall>b \<in> set (butlast bs). int (length b) = max 1 (size s)" using B(3) in_set_butlastD by metis
  show ?thesis
  proof (cases "r = []")
    case True
    then have "concat bs = xs" "stream call flush xs s = concat (map make bs)" using B(1,2) by simp_all
    then show ?thesis using full B(3) ne by (metis order_refl)
  next
    case False
    then have "concat (bs @ [r]) = xs" "stream call flush xs s = concat (map make (bs @ [r]))" using B(1,2) assms(1) by simp_all
    moreover have "\<forall>b \<in> set (bs @ [r]). b \<noteq> [] \<and> int (length b) \<le> max 1 (size s)" using ne B(3,4) False by fastforce
    ultimately show ?thesis using B(3) by (metis butlast_snoc)
  qed
qed

end

text \<open>\<open>Collate\<close> of \<^verbatim>\<open>multi_stage_encode.py\<close> returns a list that holds the batch.\<close>

record 'a collate =
  cl_size :: int
  cl_buffer :: "'a val list"

definition collate_new :: "int \<Rightarrow> 'a collate" where
  "collate_new n = \<lparr>cl_size = n, cl_buffer = []\<rparr>"

definition collate_call :: "'a val \<Rightarrow> 'a collate \<Rightarrow> 'a collate \<times> 'a val" where
  "collate_call item c =
     (let c1 = c\<lparr>cl_buffer := cl_buffer c @ [item]\<rparr> in
      if cl_size c1 \<le> int (length (cl_buffer c1)) then (c1\<lparr>cl_buffer := []\<rparr>, ListV [ListV (cl_buffer c1)]) else (c1, NoneV))"

text \<open>Its flush leaves the buffer as it is.\<close>

definition collate_flush :: "'a collate \<Rightarrow> 'a collate \<times> 'a val list" where
  "collate_flush c = (c, if cl_buffer c \<noteq> [] then [ListV (cl_buffer c)] else [])"

text \<open>\<open>Batcher\<close> of \<^verbatim>\<open>gpu_inference.py\<close> returns the batch itself.\<close>

definition gpu_batcher_call :: "'a val \<Rightarrow> 'a collate \<Rightarrow> 'a collate \<times> 'a val" where
  "gpu_batcher_call item c =
     (let c1 = c\<lparr>cl_buffer := cl_buffer c @ [item]\<rparr> in
      if cl_size c1 \<le> int (length (cl_buffer c1)) then (c1\<lparr>cl_buffer := []\<rparr>, ListV (cl_buffer c1)) else (c1, NoneV))"

definition gpu_batcher_flush :: "'a collate \<Rightarrow> 'a collate \<times> 'a val list" where
  "gpu_batcher_flush c = (if cl_buffer c \<noteq> [] then (c\<lparr>cl_buffer := []\<rparr>, cl_buffer c) else (c, []))"

text \<open>
  \<open>BatchDownloader\<close> and \<open>BatchUploader\<close> of \<^verbatim>\<open>batch_s3_upload.py\<close>. The store is a parameter: \<open>get\<close> is
  the download of one item, \<open>None\<close> if it raises; \<open>put\<close> is the upload of a batch, with the keys that reached
  the store and the exception \<open>gather\<close> passes on, if one upload raised.
\<close>

record ('a, 'b) s3_stage =
  s3_size :: int
  s3_buffer :: "'a list"
  s3_uploaded :: nat
  s3_keys :: "'b list"

definition s3_new :: "int \<Rightarrow> ('a, 'b) s3_stage" where
  "s3_new n = \<lparr>s3_size = n, s3_buffer = [], s3_uploaded = 0, s3_keys = []\<rparr>"

definition download_batch :: "('a \<Rightarrow> 'c option) \<Rightarrow> 'a list \<Rightarrow> 'c list" where
  "download_batch get items = List.map_filter get items"

definition downloader_flush :: "('a \<Rightarrow> 'c option) \<Rightarrow> ('a, 'b) s3_stage \<Rightarrow> ('a, 'b) s3_stage \<times> 'c list" where
  "downloader_flush get s =
     (if s3_buffer s = [] then (s, []) else (s\<lparr>s3_buffer := []\<rparr>, download_batch get (s3_buffer s)))"

definition downloader_call :: "('a \<Rightarrow> 'c option) \<Rightarrow> 'a \<Rightarrow> ('a, 'b) s3_stage \<Rightarrow> ('a, 'b) s3_stage \<times> 'c list" where
  "downloader_call get item s =
     (let s1 = s\<lparr>s3_buffer := s3_buffer s @ [item]\<rparr> in
      if s3_size s1 \<le> int (length (s3_buffer s1)) then downloader_flush get s1 else (s1, []))"

definition uploader_flush ::
  "('a list \<Rightarrow> 'b list \<times> exn option) \<Rightarrow> ('a, 'b) s3_stage \<Rightarrow> ('a, 'b) s3_stage \<times> (exn + 'a list)" where
  "uploader_flush put s =
     (if s3_buffer s = [] then (s, Inr [])
      else let items = s3_buffer s; s1 = s\<lparr>s3_buffer := []\<rparr> in
       case put items of
         (keys, Some e) \<Rightarrow> (s1\<lparr>s3_keys := s3_keys s1 @ keys\<rparr>, Inl e)
       | (keys, None) \<Rightarrow> (s1\<lparr>s3_keys := s3_keys s1 @ keys, s3_uploaded := s3_uploaded s1 + length items\<rparr>, Inr items))"

definition uploader_call ::
  "('a list \<Rightarrow> 'b list \<times> exn option) \<Rightarrow> 'a \<Rightarrow> ('a, 'b) s3_stage \<Rightarrow> ('a, 'b) s3_stage \<times> (exn + 'a list)" where
  "uploader_call put item s =
     (let s1 = s\<lparr>s3_buffer := s3_buffer s @ [item]\<rparr> in
      if s3_size s1 \<le> int (length (s3_buffer s1)) then uploader_flush put s1 else (s1, Inr []))"

text \<open>What goes downstream of a call that may raise.\<close>

definition got :: "'s \<times> (exn + 'y list) \<Rightarrow> 's \<times> 'y list" where
  "got p = (case p of (s, Inr ys) \<Rightarrow> (s, ys) | (s, Inl _) \<Rightarrow> (s, []))"

text \<open>A call as the run loop reads it, and a flush.\<close>

definition returning :: "('a val \<Rightarrow> 's \<Rightarrow> 's \<times> 'a val) \<Rightarrow> 'a val \<Rightarrow> 's \<Rightarrow> 's \<times> 'a val list" where
  "returning call x s = (case call x s of (s1, r) \<Rightarrow> (s1, emitted r))"

definition flushing :: "('s \<Rightarrow> 's \<times> 'a val list) \<Rightarrow> 's \<Rightarrow> 's \<times> 'a val list" where
  "flushing flush s = (case flush s of (s1, rs) \<Rightarrow> (s1, filter (\<lambda>r. r \<noteq> NoneV) rs))"

lemmas reading_defs = returning_def flushing_def emitted_def result_list_def Let_def

interpretation ct: collecting cl_size cl_buffer "returning collate_call" "flushing collate_flush" "\<lambda>b. [ListV b]" "\<lambda>b. [ListV b]"
  by unfold_locales (auto simp: collate_call_def collate_flush_def reading_defs)

interpretation gb: collecting cl_size cl_buffer "returning gpu_batcher_call" "flushing gpu_batcher_flush" valid_items "filter (\<lambda>r. r \<noteq> NoneV)"
  by unfold_locales (auto simp: gpu_batcher_call_def gpu_batcher_flush_def reading_defs)

interpretation dl: collecting s3_size s3_buffer "downloader_call get" "downloader_flush get" "download_batch get" "download_batch get" for get
  by unfold_locales (auto simp: downloader_call_def downloader_flush_def Let_def)

interpretation ul: collecting s3_size s3_buffer "\<lambda>x s. got (uploader_call put x s)" "\<lambda>s. got (uploader_flush put s)"
  "\<lambda>b. if snd (put b) = None then b else []" "\<lambda>b. if snd (put b) = None then b else []" for put
  by unfold_locales (auto simp: uploader_call_def uploader_flush_def got_def Let_def split: prod.splits option.splits)

text \<open>Batching does not show in what is downloaded; an upload that raises costs its whole batch.\<close>

lemma s3_new_empty: "s3_buffer (s3_new n) = []"
  by (simp add: s3_new_def)

lemma downloads_each:
  assumes "s3_buffer s = []"
  shows "stream (downloader_call get) (downloader_flush get) xs s = List.map_filter get xs"
proof -
  have "concat (map (download_batch get) bs) = List.map_filter get (concat bs)" for bs
    by (induction bs) (simp_all add: download_batch_def)
  with dl.stream_batches [OF refl assms, of xs get] show ?thesis by metis
qed

lemma uploads_whole_batches:
  assumes "s3_buffer s = []"
  shows "\<exists>bs. concat bs = xs \<and> (\<forall>b \<in> set (butlast bs). int (length b) = max 1 (s3_size s))
    \<and> stream (\<lambda>x s. got (uploader_call put x s)) (\<lambda>s. got (uploader_flush put s)) xs s = concat (filter (\<lambda>b. snd (put b) = None) bs)"
proof -
  have "concat (map (\<lambda>b. if snd (put b) = None then b else []) bs) = concat (filter (\<lambda>b. snd (put b) = None) bs)" for bs
    by (induction bs) simp_all
  with ul.stream_batches [OF refl assms, of xs put] show ?thesis by metis
qed

section \<open>Inference on batches\<close>

text \<open>
  The stages of \<^verbatim>\<open>gpu_inference.py\<close>. A dict has its keys as fields, an absent key is \<open>None\<close>. The decoder,
  and padding with the model, are parameters.
\<close>

record ('w, 'e) gpu_item =
  gi_path :: string
  gi_idx :: nat
  gi_wav :: "'w list option"
  gi_duration :: "real option"
  gi_embedding :: "'e option"

definition item_source_call :: "string list \<Rightarrow> nat \<Rightarrow> nat \<times> ('w, 'e) gpu_item val" where
  "item_source_call paths idx =
     (if length paths \<le> idx then (idx, EndV)
      else (Suc idx, Obj \<lparr>gi_path = paths ! idx, gi_idx = idx, gi_wav = None, gi_duration = None, gi_embedding = None\<rparr>))"

definition load_audio :: "(string \<Rightarrow> exn + 'w list) \<Rightarrow> ('w, 'e) gpu_item val \<Rightarrow> ('w, 'e) gpu_item outcome" where
  "load_audio decode v =
     (case v of
        Obj it \<Rightarrow> (case decode (gi_path it) of
           Inl e \<Rightarrow> Raise e
         | Inr w \<Rightarrow> Ret (Obj (it\<lparr>gi_wav := Some w, gi_duration := Some (real (length w) / 16000)\<rparr>)))
      | _ \<Rightarrow> Raise TypeE)"

text \<open>
  \<open>[item["wav"] for item in batch]\<close>: an element that is not a dict cannot be indexed by a name, and a
  dict without the key raises as well.
\<close>

fun wavs_of :: "('w, 'e) gpu_item val list \<Rightarrow> exn + ('w list \<times> ('w, 'e) gpu_item) list" where
  "wavs_of [] = Inr []"
| "wavs_of (v # vs) =
     (case v of
        Obj it \<Rightarrow> (case gi_wav it of
           None \<Rightarrow> Inl OtherExn
         | Some w \<Rightarrow> (case wavs_of vs of Inl e \<Rightarrow> Inl e | Inr ps \<Rightarrow> Inr ((w, it) # ps)))
      | _ \<Rightarrow> Inl TypeE)"

text \<open>
  \<open>GPUEncoder.__call__\<close>. When its argument is one dict, the comprehension runs over the keys of the
  dict, and a key cannot be indexed by a name.
\<close>

definition embedded :: "'e \<Rightarrow> 'w list \<times> ('w, 'e) gpu_item \<Rightarrow> ('w, 'e) gpu_item val" where
  "embedded e p = Obj ((snd p)\<lparr>gi_wav := None, gi_embedding := Some e\<rparr>)"

definition gpu_encoder_call :: "('w list list \<Rightarrow> exn + 'e list) \<Rightarrow> ('w, 'e) gpu_item val \<Rightarrow> ('w, 'e) gpu_item outcome" where
  "gpu_encoder_call model batch =
     (case batch of
        ListV vs \<Rightarrow> (case wavs_of vs of
           Inl e \<Rightarrow> Raise e
         | Inr ps \<Rightarrow> (case model (map fst ps) of
              Inl e \<Rightarrow> Raise e
            | Inr es \<Rightarrow> if length es < length ps then Raise IndexE
                else Ret (ListV (map2 embedded es ps))))
      | _ \<Rightarrow> Raise TypeE)"

definition idx_of :: "('w, 'e) gpu_item val \<Rightarrow> nat option" where
  "idx_of v = (case v of Obj it \<Rightarrow> Some (gi_idx it) | _ \<Rightarrow> None)"

definition loaded :: "('w, 'e) gpu_item val \<Rightarrow> bool" where
  "loaded v \<longleftrightarrow> (case v of Obj it \<Rightarrow> gi_wav it \<noteq> None | _ \<Rightarrow> False)"

lemma wavs_of_loaded:
  "\<forall>v \<in> set vs. loaded v \<Longrightarrow> \<exists>ps. wavs_of vs = Inr ps \<and> length ps = length vs \<and> map (\<lambda>p. Some (gi_idx (snd p))) ps = map idx_of vs"
proof (induction vs)
  case (Cons v vs)
  then obtain it w ps where "v = Obj it" "gi_wav it = Some w" "wavs_of vs = Inr ps" "length ps = length vs"
    "map (\<lambda>p. Some (gi_idx (snd p))) ps = map idx_of vs" by (auto simp: loaded_def split: val.splits)
  then show ?case by (simp add: idx_of_def)
qed simp

lemma embedded_valid: "valid_items (map2 embedded es ps) = map2 embedded es ps"
  by (induction es ps rule: list_induct2') (simp_all add: embedded_def)

lemma loaded_valid: "loaded v \<Longrightarrow> valid_item v" "\<not> loaded NoneV"
  by (cases v) (simp_all add: loaded_def)

lemma encoder_on_batch:
  assumes "\<forall>v \<in> set vs. loaded v" and "\<exists>es. model (map fst (case wavs_of vs of Inr ps \<Rightarrow> ps)) = Inr es \<and> length es = length vs"
  shows "map idx_of (outputs (gpu_encoder_call model) (ListV vs)) = map idx_of vs"
proof -
  obtain ps where ps: "wavs_of vs = Inr ps" "length ps = length vs" "map (\<lambda>p. Some (gi_idx (snd p))) ps = map idx_of vs"
    using wavs_of_loaded [OF assms(1)] by blast
  then obtain es where es: "model (map fst ps) = Inr es" "length es = length ps" using assms(2) by auto
  have "outputs (gpu_encoder_call model) (ListV vs) = map2 embedded es ps"
    using ps es embedded_valid [of es ps] by (simp add: outputs_def gpu_encoder_call_def result_list_def)
  moreover have "map idx_of (map2 embedded es ps) = map (\<lambda>p. Some (gi_idx (snd p))) ps"
    using es(2) by (induction es ps rule: list_induct2) (simp_all add: idx_of_def embedded_def)
  ultimately show ?thesis using ps(3) by simp
qed

text \<open>
  \<open>Batcher\<close> of the inference example returns a batch as the list itself, which the run loop takes for
  several items: whatever the batch size, the stage passes the items on one by one, the encoder
  raises on each, and nothing comes out. Behind \<open>Collate\<close> of the encoding example, which returns a list
  holding the batch, the same encoder gives every item back, in order, when the model answers
  a batch with one embedding per item.
\<close>

theorem batches_reach_encoder_only_wrapped:
  assumes "\<forall>v \<in> set vs. loaded v" and "\<forall>ws. ws \<noteq> [] \<longrightarrow> (\<exists>es. model ws = Inr es \<and> length es = length ws)"
  shows "stream (returning gpu_batcher_call) (flushing gpu_batcher_flush) vs (collate_new n) = vs
    \<and> concat (map (outputs (gpu_encoder_call model)) (stream (returning gpu_batcher_call) (flushing gpu_batcher_flush) vs (collate_new n))) = []
    \<and> map idx_of (concat (map (outputs (gpu_encoder_call model)) (stream (returning collate_call) (flushing collate_flush) vs (collate_new n))))
      = map idx_of vs"
proof (intro conjI)
  have empty: "cl_buffer (collate_new n) = []" by (simp add: collate_new_def)
  have valid: "valid_items ws = ws" "filter (\<lambda>r. r \<noteq> NoneV) ws = ws" if "set ws \<subseteq> set vs" for ws
    using assms(1) that loaded_valid by (induction ws) auto
  obtain bs r where br: "concat bs @ r = vs"
    "stream (returning gpu_batcher_call) (flushing gpu_batcher_flush) vs (collate_new n)
      = concat (map valid_items bs) @ (if r = [] then [] else filter (\<lambda>r. r \<noteq> NoneV) r)"
    by (rule gb.stream_parts [OF empty, of vs]) blast
  then have "map valid_items bs = bs" "filter (\<lambda>r. r \<noteq> NoneV) r = r" by (auto intro!: map_idI valid)
  with br show out: "stream (returning gpu_batcher_call) (flushing gpu_batcher_flush) vs (collate_new n) = vs" by auto
  have "outputs (gpu_encoder_call model) v = []" if "v \<in> set vs" for v
    using assms(1) that by (auto simp: loaded_def outputs_def gpu_encoder_call_def split: val.splits)
  then show "concat (map (outputs (gpu_encoder_call model)) (stream (returning gpu_batcher_call) (flushing gpu_batcher_flush) vs (collate_new n))) = []"
    unfolding out by (induction vs) auto
  obtain cs where cs: "concat cs = vs" "\<forall>b \<in> set cs. b \<noteq> []"
    "stream (returning collate_call) (flushing collate_flush) vs (collate_new n) = concat (map (\<lambda>b. [ListV b]) cs)"
    using ct.stream_batches [OF refl empty] by blast
  have "map idx_of (outputs (gpu_encoder_call model) (ListV b)) = map idx_of b" if "b \<in> set cs" for b
  proof (rule encoder_on_batch)
    show "\<forall>v \<in> set b. loaded v" using assms(1) that cs(1) by auto
    then obtain ps where ps: "wavs_of b = Inr ps" "length ps = length b" using wavs_of_loaded by blast
    moreover have "b \<noteq> []" using cs(2) that by blast
    ultimately have "map fst ps \<noteq> []" by auto
    with assms(2) have "\<exists>es. model (map fst ps) = Inr es \<and> length es = length (map fst ps)" by blast
    with ps show "\<exists>es. model (map fst (case wavs_of b of Inr ps \<Rightarrow> ps)) = Inr es \<and> length es = length b" by simp
  qed
  then have "concat (map (\<lambda>b. map idx_of (outputs (gpu_encoder_call model) (ListV b))) cs) = map idx_of (concat cs)"
    by (induction cs) auto
  then show "map idx_of (concat (map (outputs (gpu_encoder_call model)) (stream (returning collate_call) (flushing collate_flush) vs (collate_new n))))
    = map idx_of vs" unfolding cs(1,3) by (simp add: map_concat comp_def)
qed

theorem batches_reach_encoder_only_wrapped_witness:
  "let vs = map (\<lambda>i. Obj \<lparr>gi_path = ''a.wav'', gi_idx = i, gi_wav = Some [i], gi_duration = Some 1, gi_embedding = None\<rparr>) [3, 1, 2];
     enc = gpu_encoder_call (\<lambda>ws. Inr (map sum_list ws)) in
   concat (map (outputs enc) (stream (returning gpu_batcher_call) (flushing gpu_batcher_flush) vs (collate_new 2))) = []
   \<and> map idx_of (concat (map (outputs enc) (stream (returning collate_call) (flushing collate_flush) vs (collate_new 2)))) = [Some 3, Some 1, Some 2]"
  using batches_reach_encoder_only_wrapped [of "map (\<lambda>i. Obj \<lparr>gi_path = ''a.wav'', gi_idx = i, gi_wav = Some [i], gi_duration = Some 1, gi_embedding = None\<rparr>) [3, 1, 2]"
      "\<lambda>ws. Inr (map sum_list ws)" 2]
  by (simp add: loaded_def idx_of_def)

end
