(* ===== verification/Pipe_Chunks.thy ===== *)
theory Pipe_Chunks
  imports Pipe_Recipes
begin

text \<open>
  The encoding example (\<^verbatim>\<open>examples/multi_stage_encode.py\<close>): audio is cut into padded chunks, the chunks are
  collected into batches, encoded on several devices, and put together again per id. The decoder,
  the codec, the file system and the database are parameters.
\<close>

section \<open>The stages\<close>

text \<open>The dicts between the stages; an absent key is \<open>None\<close>.\<close>

record ('k, 'w, 'c) chunk =
  ck_id :: 'k
  ck_idx :: nat
  ck_total :: int
  ck_wav :: "'w list option"
  ck_codes :: "'c list option"

definition pad_to :: "nat \<Rightarrow> 'w::zero list \<Rightarrow> 'w list" where
  "pad_to n w = (if length w < n then w @ replicate (n - length w) 0 else w)"

text \<open>
  \<open>chunk_audio\<close> on the decoded waveform: the starts are \<open>range(0, len(waveform), chunk_size)\<close>, and the total is
  written into every chunk when all are made. \<open>half\<close> is the conversion of one sample.
\<close>

definition cut_audio :: "('v::zero \<Rightarrow> 'w) \<Rightarrow> nat \<Rightarrow> 'k \<Rightarrow> 'v list \<Rightarrow> ('k, 'w, 'c) chunk list" where
  "cut_audio half chunk_size k waveform =
     (let starts = map (\<lambda>j. j * chunk_size) [0..<(length waveform + chunk_size - 1) div chunk_size];
          chunks = map (\<lambda>(j, i). \<lparr>ck_id = k, ck_idx = j, ck_total = -1,
                     ck_wav = Some (map half (pad_to chunk_size (take chunk_size (drop i waveform)))), ck_codes = None\<rparr>)
                   (enumerate 0 starts)
      in map (\<lambda>c. c\<lparr>ck_total := int (length chunks)\<rparr>) chunks)"

definition CHUNK_SIZE :: nat where "CHUNK_SIZE = 375 * 2048"

definition chunk_audio ::
  "('u \<Rightarrow> exn + 'v::zero list) \<Rightarrow> ('v \<Rightarrow> 'w) \<Rightarrow> 'k \<times> 'u \<Rightarrow> exn + ('k, 'w, 'c) chunk list" where
  "chunk_audio decode half item =
     (case decode (snd item) of Inl e \<Rightarrow> Inl e | Inr waveform \<Rightarrow> Inr (cut_audio half CHUNK_SIZE (fst item) waveform))"

text \<open>
  \<open>Encoder.__call__\<close>: stacking and encoding are the parameter \<open>encode\<close>. A chunk without samples
  raises a \<open>KeyError\<close>, too few codes an \<open>IndexError\<close>.
\<close>

definition coded :: "'c list \<Rightarrow> ('k, 'w, 'c) chunk \<Rightarrow> ('k, 'w, 'c) chunk" where
  "coded c item = item\<lparr>ck_wav := None, ck_codes := Some c\<rparr>"

definition encoder_call :: "('w list list \<Rightarrow> exn + 'c list list) \<Rightarrow> ('k, 'w, 'c) chunk list \<Rightarrow> exn + ('k, 'w, 'c) chunk list" where
  "encoder_call encode batch =
     (case those (map ck_wav batch) of
        None \<Rightarrow> Inl OtherExn
      | Some wavs \<Rightarrow> (case encode wavs of
           Inl e \<Rightarrow> Inl e
         | Inr codes \<Rightarrow> if length codes < length batch then Inl IndexE else Inr (map2 coded codes batch)))"

text \<open>
  \<open>Reassembler\<close>: the chunks seen per id, and what was saved. \<open>save\<close> is the file and the row of one id, with the
  exception it raises; by then the entry is gone.
\<close>

record 'c entry =
  en_chunks :: "(nat \<times> 'c list) list"
  en_total :: int

record ('k, 'c) reassembler =
  ra_pending :: "'k \<rightharpoonup> 'c entry"
  ra_saved :: "('k \<times> 'c list) list"
  ra_seconds :: real

definition reassembler_new :: "('k, 'c) reassembler" where
  "reassembler_new = \<lparr>ra_pending = Map.empty, ra_saved = [], ra_seconds = 0\<rparr>"

definition reassembler_call ::
  "('k \<Rightarrow> 'c list \<Rightarrow> exn option) \<Rightarrow> ('k, 'w, 'c) chunk \<Rightarrow> ('k, 'c) reassembler \<Rightarrow> ('k, 'c) reassembler \<times> (exn + 'k option)" where
  "reassembler_call save item r =
     (let k = ck_id item;
          r1 = (if ra_pending r k = None then r\<lparr>ra_pending := (ra_pending r)(k \<mapsto> \<lparr>en_chunks = [], en_total = ck_total item\<rparr>)\<rparr> else r);
          entry = the (ra_pending r1 k)
      in case ck_codes item of
           None \<Rightarrow> (r1, Inl OtherExn)
         | Some c \<Rightarrow>
             (let entry1 = entry\<lparr>en_chunks := en_chunks entry @ [(ck_idx item, c)]\<rparr> in
              if int (length (en_chunks entry1)) < en_total entry1
              then (r1\<lparr>ra_pending := (ra_pending r1)(k \<mapsto> entry1)\<rparr>, Inr None)
              else let r2 = r1\<lparr>ra_pending := (ra_pending r1)(k := None)\<rparr>;
                       codes = concat (map snd (sort_key fst (en_chunks entry1)))
                   in case save k codes of
                        Some e \<Rightarrow> (r2, Inl e)
                      | None \<Rightarrow> (r2\<lparr>ra_saved := ra_saved r2 @ [(k, codes)],
                                   ra_seconds := ra_seconds r2 + real (length codes) * 1024 / 22050\<rparr>, Inr (Some k))))"

definition reassembling :: "('k \<Rightarrow> 'c list \<Rightarrow> exn option) \<Rightarrow> ('k, 'w, 'c) chunk \<Rightarrow> ('k, 'c) reassembler \<Rightarrow> ('k, 'c) reassembler \<times> 'k list" where
  "reassembling save item r = (case reassembler_call save item r of
     (r1, Inr (Some k)) \<Rightarrow> (r1, [k]) | (r1, _) \<Rightarrow> (r1, []))"

section \<open>What the reassembler knows\<close>

definition seen :: "'k \<Rightarrow> ('k, 'w, 'c) chunk list \<Rightarrow> ('k, 'w, 'c) chunk list" where
  "seen k ys = filter (\<lambda>c. ck_id c = k) ys"

definition pieces :: "('k, 'w, 'c) chunk list \<Rightarrow> (nat \<times> 'c list) list" where
  "pieces ys = map (\<lambda>c. (ck_idx c, the (ck_codes c))) ys"

definition joined :: "('k, 'w, 'c) chunk list \<Rightarrow> 'c list" where
  "joined ys = concat (map snd (sort_key fst (pieces ys)))"

text \<open>
  After the chunks \<open>ys\<close>, of which an id has at most \<open>N\<close>: an id some but not all of whose chunks have arrived is
  pending with them, and exactly the complete ids have been saved, once each.
\<close>

definition reassembled :: "('k \<Rightarrow> nat) \<Rightarrow> ('k, 'w, 'c) chunk list \<Rightarrow> ('k, 'c) reassembler \<Rightarrow> bool" where
  "reassembled N ys r \<longleftrightarrow>
     (\<forall>k. ra_pending r k = (if seen k ys = [] \<or> N k \<le> length (seen k ys) then None
                           else Some \<lparr>en_chunks = pieces (seen k ys), en_total = int (N k)\<rparr>))
     \<and> distinct (map fst (ra_saved r))
     \<and> (\<forall>k v. (k, v) \<in> set (ra_saved r) \<longleftrightarrow> seen k ys \<noteq> [] \<and> N k \<le> length (seen k ys) \<and> v = joined (seen k ys))
     \<and> ra_seconds r = (\<Sum>(k, v) \<leftarrow> ra_saved r. real (length v) * 1024 / 22050)"

lemma seen_snoc: "seen k (ys @ [c]) = (if ck_id c = k then seen k ys @ [c] else seen k ys)"
  by (simp add: seen_def)

lemma pieces_snoc: "pieces (ys @ [c]) = pieces ys @ [(ck_idx c, the (ck_codes c))]" "length (pieces ys) = length ys" "pieces [] = []"
  by (simp_all add: pieces_def)

lemma calls_snoc:
  "calls call (xs @ [x]) s = (case calls call xs s of (s1, ys) \<Rightarrow> case call x s1 of (s2, zs) \<Rightarrow> (s2, ys @ zs))"
  by (induction xs arbitrary: s) (simp_all split: prod.splits)

text \<open>One call, in terms of what was seen.\<close>

lemma reassembling_step:
  assumes r: "reassembled N ys r" and c: "ck_total c = int (N (ck_id c))" "ck_codes c = Some v"
    and le: "length (seen (ck_id c) (ys @ [c])) \<le> N (ck_id c)" and save: "\<And>k v. save k v = None"
  shows "reassembling save c r =
    (if length (seen (ck_id c) (ys @ [c])) < N (ck_id c)
     then (r\<lparr>ra_pending := (ra_pending r)(ck_id c \<mapsto> \<lparr>en_chunks = pieces (seen (ck_id c) (ys @ [c])), en_total = int (N (ck_id c))\<rparr>)\<rparr>, [])
     else (r\<lparr>ra_pending := (ra_pending r)(ck_id c := None), ra_saved := ra_saved r @ [(ck_id c, joined (seen (ck_id c) (ys @ [c])))],
             ra_seconds := ra_seconds r + real (length (joined (seen (ck_id c) (ys @ [c])))) * 1024 / 22050\<rparr>, [ck_id c]))"
proof -
  have lt: "length (seen (ck_id c) ys) < N (ck_id c)" using le by (simp add: seen_snoc)
  have pend: "ra_pending r (ck_id c) = (if seen (ck_id c) ys = [] then None
      else Some \<lparr>en_chunks = pieces (seen (ck_id c) ys), en_total = int (N (ck_id c))\<rparr>)"
    using r lt by (auto simp: reassembled_def)
  show ?thesis
    using c save lt pend by (simp add: reassembling_def reassembler_call_def Let_def seen_snoc pieces_snoc joined_def)
qed

lemma reassembled_step:
  assumes "reassembled N ys r" and c: "ck_total c = int (N (ck_id c))" "ck_codes c \<noteq> None"
    and le: "length (seen (ck_id c) (ys @ [c])) \<le> N (ck_id c)" and save: "\<And>k v. save k v = None"
  shows "reassembled N (ys @ [c]) (fst (reassembling save c r))"
    and "map fst (ra_saved (fst (reassembling save c r))) = map fst (ra_saved r) @ snd (reassembling save c r)"
proof -
  obtain v where v: "ck_codes c = Some v" using c(2) by blast
  note st = reassembling_step [where save = save, OF assms(1) c(1) v le save]
  have lt: "length (seen (ck_id c) ys) < N (ck_id c)" using le by (simp add: seen_snoc)
  have P: "\<And>k. ra_pending r k = (if seen k ys = [] \<or> N k \<le> length (seen k ys) then None
                           else Some \<lparr>en_chunks = pieces (seen k ys), en_total = int (N k)\<rparr>)"
    and D: "distinct (map fst (ra_saved r))"
    and S: "\<And>k v. (k, v) \<in> set (ra_saved r) \<longleftrightarrow> seen k ys \<noteq> [] \<and> N k \<le> length (seen k ys) \<and> v = joined (seen k ys)"
    and T: "ra_seconds r = (\<Sum>(k, v) \<leftarrow> ra_saved r. real (length v) * 1024 / 22050)"
    using assms(1) by (simp_all add: reassembled_def)
  have new: "ck_id c \<notin> fst ` set (ra_saved r)" using S lt by force
  show "map fst (ra_saved (fst (reassembling save c r))) = map fst (ra_saved r) @ snd (reassembling save c r)"
    by (simp add: st)
  show "reassembled N (ys @ [c]) (fst (reassembling save c r))"
  proof (cases "length (seen (ck_id c) (ys @ [c])) < N (ck_id c)")
    case True
    then show ?thesis using P D S T lt by (auto simp: st reassembled_def seen_snoc)
  next
    case False
    then show ?thesis using P D S T lt new by (auto simp: st reassembled_def seen_snoc)
  qed
qed

lemma reassembled_calls:
  assumes "\<forall>c \<in> set ys. ck_total c = int (N (ck_id c)) \<and> ck_codes c \<noteq> None" and "\<forall>k. length (seen k ys) \<le> N k"
    and save: "\<And>k v. save k v = None"
  shows "reassembled N ys (fst (calls (reassembling save) ys reassembler_new))
    \<and> snd (calls (reassembling save) ys reassembler_new) = map fst (ra_saved (fst (calls (reassembling save) ys reassembler_new)))"
  using assms(1,2)
proof (induction ys rule: rev_induct)
  case Nil
  then show ?case by (simp add: reassembled_def reassembler_new_def seen_def)
next
  case (snoc c ys)
  obtain r outs where r: "calls (reassembling save) ys reassembler_new = (r, outs)" by force
  have "length (seen k ys) \<le> N k" for k using snoc.prems(2) [rule_format, of k] by (simp add: seen_snoc split: if_splits)
  then have IH: "reassembled N ys r" "outs = map fst (ra_saved r)" using snoc.IH snoc.prems(1) r by simp_all
  have c: "ck_total c = int (N (ck_id c))" "ck_codes c \<noteq> None" using snoc.prems(1) by simp_all
  show ?case using reassembled_step [where save = save, OF IH(1) c snoc.prems(2) [rule_format] save] IH(2)
    by (simp add: calls_snoc r case_prod_beta)
qed

section \<open>Cutting\<close>

text \<open>The reference: block after block, the last one padded.\<close>

fun blocks :: "nat \<Rightarrow> 'w::zero list \<Rightarrow> 'w list list" where
  "blocks 0 w = []"
| "blocks n [] = []"
| "blocks (Suc n) (x # xs) = pad_to (Suc n) (take (Suc n) (x # xs)) # blocks (Suc n) (drop n xs)"

lemma blocks_step: "0 < n \<Longrightarrow> w \<noteq> [] \<Longrightarrow> blocks n w = pad_to n (take n w) # blocks n (drop n w)"
  by (cases n; cases w) simp_all

lemma blocks_Nil [simp]: "blocks n [] = []"
  by (cases n) simp_all

lemma block_length: "b \<in> set (blocks n w) \<Longrightarrow> length b = n"
  by (induction n w rule: blocks.induct) (auto simp: pad_to_def)

text \<open>No sample is lost, and only zeros are added, fewer than a block.\<close>

lemma blocks_concat: "0 < n \<Longrightarrow> \<exists>k < n. concat (blocks n w) = w @ replicate k 0"
proof (induction n w rule: blocks.induct)
  case (3 n x xs)
  show ?case
  proof (cases "length (x # xs) < Suc n")
    case True
    then show ?thesis by (auto simp: pad_to_def intro!: exI [of _ "Suc n - length (x # xs)"])
  next
    case False
    then have "pad_to (Suc n) (take (Suc n) (x # xs)) @ drop n xs = x # xs" by (simp add: pad_to_def)
    then show ?thesis using 3 by (auto simp del: take_Suc_Cons simp: append_assoc [symmetric])
  qed
qed auto

lemma starts_blocks:
  "0 < n \<Longrightarrow> map (\<lambda>j. pad_to n (take n (drop (j * n) w))) [0..<(length w + n - 1) div n] = blocks n w"
proof (induction "length w" arbitrary: w rule: less_induct)
  case less
  show ?case
  proof (cases "w = []")
    case True
    then show ?thesis using less.prems by simp
  next
    case False
    then have "length w + n - 1 = (length w - 1) + n" by (cases w) simp_all
    then have "(length w + n - 1) div n = Suc ((length w - 1) div n)"
      using less.prems by (metis Suc_eq_plus1 div_add_self2 less_numeral_extra(3))
    moreover have "(length (drop n w) + n - 1) div n = (length w - 1) div n"
    proof (cases "n \<le> length w")
      case False
      then have "(length w - 1) div n = 0" "length (drop n w) = 0" "(n - 1) div n = 0" using less.prems by (auto intro!: div_less)
      then show ?thesis by simp
    qed simp
    ultimately have "(length w + n - 1) div n = Suc ((length (drop n w) + n - 1) div n)" by simp
    then have "map (\<lambda>j. pad_to n (take n (drop (j * n) w))) [0..<(length w + n - 1) div n]
      = pad_to n (take n w) # map (\<lambda>j. pad_to n (take n (drop (j * n) (drop n w)))) [0..<(length (drop n w) + n - 1) div n]"
      by (simp add: upt_conv_Cons map_Suc_upt [symmetric] comp_def add.commute del: upt_Suc)
    also have "\<dots> = blocks n w" using less.hyps [of "drop n w"] less.prems False unfolding blocks_step [OF less.prems False] by simp
    finally show ?thesis .
  qed
qed

lemma cut_audio_blocks:
  assumes "0 < n"
  shows "cut_audio half n k w = map (\<lambda>(j, b). \<lparr>ck_id = k, ck_idx = j, ck_total = int (length (blocks n w)), ck_wav = Some (map half b), ck_codes = None\<rparr>)
      (enumerate 0 (blocks n w))"
proof -
  have len: "(length w + n - 1) div n = length (blocks n w)" using starts_blocks [OF assms, of w] by (metis length_map length_upt diff_zero)
  have "blocks n w ! j = pad_to n (take n (drop (j * n) w))" if "j < length (blocks n w)" for j
    using starts_blocks [OF assms, of w] that len by (metis (no_types, lifting) add_0 diff_zero length_upt nth_map nth_upt)
  then show ?thesis unfolding cut_audio_def Let_def len by (auto intro!: nth_equalityI simp: nth_enumerate_eq)
qed

section \<open>The way of an item\<close>

text \<open>What the stages pass on: nothing when the call raises.\<close>

definition samples :: "('u \<Rightarrow> exn + 'v list) \<Rightarrow> 'u \<Rightarrow> 'v list" where
  "samples decode u = (case decode u of Inl _ \<Rightarrow> [] | Inr w \<Rightarrow> w)"

definition chunks_of :: "('u \<Rightarrow> exn + 'v::zero list) \<Rightarrow> ('v \<Rightarrow> 'w) \<Rightarrow> 'k \<times> 'u \<Rightarrow> ('k, 'w, 'c) chunk list" where
  "chunks_of decode half item = (case chunk_audio decode half item of Inl _ \<Rightarrow> [] | Inr cs \<Rightarrow> cs)"

definition encoded :: "('w list list \<Rightarrow> exn + 'c list list) \<Rightarrow> ('k, 'w, 'c) chunk list \<Rightarrow> ('k, 'w, 'c) chunk list" where
  "encoded encode batch = (case encoder_call encode batch of Inl _ \<Rightarrow> [] | Inr cs \<Rightarrow> cs)"

definition collated :: "int \<Rightarrow> 'x list \<Rightarrow> 'x list list" where
  "collated n cs = map (\<lambda>v. case v of ListV vs \<Rightarrow> List.map_filter (\<lambda>x. case x of Obj c \<Rightarrow> Some c | _ \<Rightarrow> None) vs | _ \<Rightarrow> [])
     (stream (returning collate_call) (flushing collate_flush) (map Obj cs) (collate_new n))"

abbreviation chunk_at :: "'k \<Rightarrow> nat \<Rightarrow> nat \<Rightarrow> 'w list \<Rightarrow> ('k, 'w, 'c) chunk" where
  "chunk_at k n j b \<equiv> \<lparr>ck_id = k, ck_idx = j, ck_total = int n, ck_wav = Some b, ck_codes = None\<rparr>"

lemma chunks_of_blocks:
  "chunks_of decode half (k, u) = map (\<lambda>(j, b). chunk_at k (length (blocks CHUNK_SIZE (samples decode u))) j (map half b))
     (enumerate 0 (blocks CHUNK_SIZE (samples decode u)))"
proof (cases "decode u")
  case (Inr w)
  have "0 < CHUNK_SIZE" by (simp add: CHUNK_SIZE_def)
  from cut_audio_blocks [OF this] show ?thesis using Inr by (simp add: chunks_of_def chunk_audio_def samples_def)
qed (simp add: chunks_of_def chunk_audio_def samples_def)

lemma collated_batches: "concat (collated n cs) = cs \<and> (\<forall>b \<in> set (collated n cs). b \<noteq> [])"
proof -
  have "cl_buffer (collate_new n) = []" by (simp add: collate_new_def)
  from ct.stream_batches [OF refl this, of "map Obj cs"] obtain bs where
    bs: "concat bs = map Obj cs" "\<forall>b \<in> set bs. b \<noteq> []"
      "stream (returning collate_call) (flushing collate_flush) (map Obj cs) (collate_new n) = concat (map (\<lambda>b. [ListV b]) bs)" by blast
  let ?u = "List.map_filter (\<lambda>x. case x of Obj c \<Rightarrow> Some c | _ \<Rightarrow> None)"
  have objs: "\<forall>b \<in> set bs. \<forall>x \<in> set b. \<exists>c. x = Obj c" using bs(1) by (metis (no_types, lifting) UN_I ex_map_conv in_set_conv_decomp set_concat)
  have "map Obj (?u b) = b" if "\<forall>x \<in> set b. \<exists>c. x = Obj c" for b :: "'a val list"
    using that by (induction b) (auto simp: List.map_filter_simps)
  then have us: "map Obj (?u b) = b" if "b \<in> set bs" for b using objs that by blast
  have coll: "collated n cs = map ?u bs" unfolding collated_def bs(3) by (induction bs) simp_all
  have "map Obj (concat (map ?u bs)) = concat bs" using us by (induction bs) simp_all
  then have "concat (map ?u bs) = cs" using bs(1) by (metis val.inject(3) inj_def list.inj_map_strong)
  moreover have "?u b \<noteq> []" if "b \<in> set bs" for b using us [OF that] bs(2) that by force
  ultimately show ?thesis using coll by auto
qed

text \<open>The codec answers a batch of full blocks with the codes of each.\<close>

definition block_codec :: "('w list list \<Rightarrow> exn + 'c list list) \<Rightarrow> ('w list \<Rightarrow> 'c list) \<Rightarrow> bool" where
  "block_codec encode enc \<longleftrightarrow> (\<forall>ws. ws \<noteq> [] \<and> (\<forall>w \<in> set ws. length w = CHUNK_SIZE) \<longrightarrow> encode ws = Inr (map enc ws))"

definition code :: "('w list \<Rightarrow> 'c list) \<Rightarrow> ('k, 'w, 'c) chunk \<Rightarrow> ('k, 'w, 'c) chunk" where
  "code enc c = coded (enc (the (ck_wav c))) c"

lemma encoded_batch:
  assumes "block_codec encode enc" and "b \<noteq> []" and "\<forall>c \<in> set b. \<exists>w. ck_wav c = Some w \<and> length w = CHUNK_SIZE"
  shows "encoded encode b = map (code enc) b"
proof -
  have "those (map ck_wav b) = Some (map (\<lambda>c. the (ck_wav c)) b)" using assms(3) by (induction b) auto
  moreover have "\<forall>w \<in> set (map (\<lambda>c. the (ck_wav c)) b). length w = CHUNK_SIZE" using assms(3) by auto
  then have "encode (map (\<lambda>c. the (ck_wav c)) b) = Inr (map enc (map (\<lambda>c. the (ck_wav c)) b))"
    using assms(1,2) unfolding block_codec_def by (metis map_is_Nil_conv)
  ultimately show ?thesis by (simp add: encoded_def encoder_call_def code_def zip_map1 zip_same_conv_map)
qed

lemma encoded_stream:
  assumes "block_codec encode enc" and "\<forall>c \<in> set cs. \<exists>w. ck_wav c = Some w \<and> length w = CHUNK_SIZE"
  shows "concat (map (encoded encode) (collated n cs)) = map (code enc) cs"
proof -
  have c: "concat (collated n cs) = cs" "\<forall>b \<in> set (collated n cs). b \<noteq> []" using collated_batches by blast+
  then have "(\<Union>b \<in> set (collated n cs). set b) = set cs" by (metis set_concat)
  then have "map (encoded encode) (collated n cs) = map (map (code enc)) (collated n cs)"
    using assms(2) c(2) by (intro map_cong refl encoded_batch [OF assms(1)]) blast+
  then show ?thesis using c(1) by (metis map_concat)
qed

section \<open>Everything is put together again\<close>

text \<open>The codes an item should end up with.\<close>

definition item_codes :: "('u \<Rightarrow> exn + 'v::zero list) \<Rightarrow> ('v \<Rightarrow> 'w) \<Rightarrow> ('w list \<Rightarrow> 'c list) \<Rightarrow> 'u \<Rightarrow> 'c list" where
  "item_codes decode half enc u = concat (map (\<lambda>b. enc (map half b)) (blocks CHUNK_SIZE (samples decode u)))"

lemma seen_chunks: "seen k (chunks_of decode half it) = (if fst it = k then chunks_of decode half it else [])"
  by (cases it) (auto simp: seen_def chunks_of_blocks filter_empty_conv filter_id_conv)

lemma seen_concat: "seen k (concat css) = concat (map (seen k) css)" "seen k (xs @ ys) = seen k xs @ seen k ys"
  by (induction css) (simp_all add: seen_def)

lemma seen_none: "k \<notin> fst ` set items \<Longrightarrow> seen k (concat (map (chunks_of decode half) items)) = []"
  by (auto simp: seen_concat seen_chunks)

lemma seen_item:
  "distinct (map fst items) \<Longrightarrow> (k, u) \<in> set items \<Longrightarrow> seen k (concat (map (chunks_of decode half) items)) = chunks_of decode half (k, u)"
proof (induction items)
  case (Cons it items)
  show ?case
  proof (cases "it = (k, u)")
    case True
    then show ?thesis using Cons.prems(1) seen_none [of k items decode half] by (simp add: seen_concat(2) seen_chunks)
  next
    case False
    then have "(k, u) \<in> set items" using Cons.prems(2) by simp
    moreover from this have "k \<in> fst ` set items" by (metis fst_conv image_eqI)
    ultimately have "(k, u) \<in> set items" "fst it \<noteq> k" using Cons.prems(1) by auto
    then show ?thesis using Cons.IH Cons.prems(1) by (simp add: seen_concat(2) seen_chunks)
  qed
qed simp

lemma code_simps [simp]: "ck_id (code enc c) = ck_id c" "ck_idx (code enc c) = ck_idx c" "ck_total (code enc c) = ck_total c"
  "ck_codes (code enc c) = Some (enc (the (ck_wav c)))"
  by (simp_all add: code_def coded_def)

lemma seen_coded: "mset xs = mset (map (code enc) cs) \<Longrightarrow> mset (seen k xs) = mset (map (code enc) (seen k cs))"
proof -
  assume "mset xs = mset (map (code enc) cs)"
  then have "mset (seen k xs) = mset (filter (\<lambda>c. ck_id c = k) (map (code enc) cs))" unfolding seen_def by (metis mset_filter)
  then show ?thesis by (simp add: filter_map comp_def seen_def)
qed

lemma joined_item:
  assumes "mset ys = mset (map (code enc) (chunks_of decode half (k, u)))"
  shows "joined ys = item_codes decode half enc u"
proof -
  let ?bl = "blocks CHUNK_SIZE (samples decode u)"
  let ?ps = "map (\<lambda>(j, b). (j, enc (map half b))) (enumerate 0 ?bl)"
  have "mset (pieces ys) = mset (pieces (map (code enc) (chunks_of decode half (k, u))))" 
    by (simp only: pieces_def mset_map assms)
  also have "pieces (map (code enc) (chunks_of decode half (k, u))) = ?ps"
    by (simp add: pieces_def chunks_of_blocks comp_def case_prod_beta)
  finally have m: "mset (pieces ys) = mset ?ps" .
  have keys: "map fst ?ps = [0..<length ?bl]" by (rule nth_equalityI) (simp_all add: nth_enumerate_eq)
  have "mset (map fst (pieces ys)) = mset (map fst ?ps)" by (simp only: mset_map m)
  then have "distinct (map fst (pieces ys))" unfolding keys by (simp only: mset_eq_imp_distinct_iff distinct_upt)
  then have "sort_key fst (pieces ys) = ?ps" using m keys by (intro sort_key_inj_key_eq) (simp_all add: distinct_map)
  moreover have "map snd ?ps = map (\<lambda>b. enc (map half b)) ?bl"
    by (rule nth_equalityI) (simp_all add: nth_enumerate_eq)
  ultimately show ?thesis by (simp add: joined_def item_codes_def)
qed

text \<open>Every item with samples is saved once, under its id, and nothing else is.\<close>

lemma reassembled_items:
  assumes "distinct (map fst items)" and all: "all = concat (map (chunks_of decode half) items)"
    and xs: "mset xs = mset (map (code enc) all)" and r: "reassembled (\<lambda>k. length (seen k all)) xs r"
  shows "ra_pending r = Map.empty"
    and "mset (ra_saved r) = mset (map (\<lambda>(k, u). (k, item_codes decode half enc u)) (filter (\<lambda>(k, u). samples decode u \<noteq> []) items))"
proof -
  let ?live = "filter (\<lambda>(k, u). samples decode u \<noteq> []) items"
  have sm: "mset (seen k xs) = mset (map (code enc) (seen k all))" for k by (rule seen_coded [OF xs])
  then have sl: "length (seen k xs) = length (seen k all)" for k by (metis length_map size_mset)
  then show "ra_pending r = Map.empty" using r by (auto simp: reassembled_def)
  have ne: "chunks_of decode half (k, u) \<noteq> [] \<longleftrightarrow> samples decode u \<noteq> []" for k u
    using blocks_step [of CHUNK_SIZE "samples decode u"] by (cases "samples decode u = []") (auto simp: chunks_of_blocks CHUNK_SIZE_def)
  have item: "seen k xs \<noteq> [] \<longleftrightarrow> samples decode u \<noteq> []" "joined (seen k xs) = item_codes decode half enc u" if "(k, u) \<in> set items" for k u
  proof -
    have "seen k all = chunks_of decode half (k, u)" unfolding all by (rule seen_item [OF assms(1) that])
    with sm [of k] sl [of k] ne [of k u] show "seen k xs \<noteq> [] \<longleftrightarrow> samples decode u \<noteq> []" "joined (seen k xs) = item_codes decode half enc u"
      using joined_item by (metis length_0_conv)+
  qed
  have saved: "(k, v) \<in> set (ra_saved r) \<longleftrightarrow> seen k xs \<noteq> [] \<and> v = joined (seen k xs)" for k v
    using r sl by (simp add: reassembled_def)
  have "seen k all = []" if "k \<notin> fst ` set items" for k unfolding all by (rule seen_none [OF that])
  with sl have known: "k \<in> fst ` set items" if "seen k xs \<noteq> []" for k using that by (metis length_0_conv)
  have "set (ra_saved r) = set (map (\<lambda>(k, u). (k, item_codes decode half enc u)) ?live)"
    using saved item known by (fastforce simp: image_iff)
  moreover have "distinct (ra_saved r)" using r by (simp add: reassembled_def distinct_map)
  moreover have "distinct (map (\<lambda>(k, u). (k, item_codes decode half enc u)) ?live)"
    using assms(1) by (fastforce simp: distinct_map inj_on_def intro: distinct_filter)
  ultimately show "mset (ra_saved r) = mset (map (\<lambda>(k, u). (k, item_codes decode half enc u)) ?live)"
    by (simp only: set_eq_iff_mset_eq_distinct [symmetric])
qed

text \<open>
  C20: Take items with distinct ids. Their chunks reach \<open>Collate\<close> in any order, the batches are encoded by a codec
  that encodes each block by itself, and the coded chunks reach the reassembler in any order, mixed
  over the items. Then the reassembler holds nothing back, and every item that has samples is saved and
  reported exactly once, with the codes of its blocks in the order of the audio. An item that cannot
  be decoded, or is empty, leaves no trace.
\<close>

theorem encode_reassembles:
  fixes cs :: "('k, 'w, 'c) chunk list"
  assumes "distinct (map fst items)" and "block_codec encode enc" and "\<forall>k v. save k v = None"
    and "mset cs = mset (concat (map (chunks_of decode half) items))"
    and "mset xs = mset (concat (map (encoded encode) (collated n cs)))"
  shows "case calls (reassembling save) xs reassembler_new of (r, ids) \<Rightarrow> ra_pending r = Map.empty \<and> ids = map fst (ra_saved r)
    \<and> mset (ra_saved r) = mset (map (\<lambda>(k, u). (k, item_codes decode half enc u)) (filter (\<lambda>(k, u). samples decode u \<noteq> []) items))"
proof -
  define all :: "('k, 'w, 'c) chunk list" where all: "all = concat (map (chunks_of decode half) items)"
  have "\<exists>w. ck_wav c = Some w \<and> length w = CHUNK_SIZE" if "c \<in> set all" for c
    using that by (auto simp: all chunks_of_blocks in_set_enumerate_eq intro!: block_length [OF nth_mem])
  moreover have "set cs = set all" using assms(4) unfolding all by (rule mset_eq_setD)
  ultimately have "mset xs = mset (map (code enc) cs)" using assms(5) encoded_stream [OF assms(2)] by metis
  then have xs: "mset xs = mset (map (code enc) all)" using assms(4) by (simp add: all)
  have "length (seen k xs) = length (seen k all)" for k using seen_coded [OF xs] by (metis length_map size_mset)
  moreover have "ck_total c = int (length (seen (ck_id c) all)) \<and> ck_codes c \<noteq> None" if c: "c \<in> set xs" for c
  proof -
    have "set xs = code enc ` set all" using mset_eq_setD [OF xs] by simp
    then obtain k u d where d: "c = code enc d" "(k, u) \<in> set items" "d \<in> set (chunks_of decode half (k, u))"
      using c by (auto simp: all)
    moreover from d(2) have "seen k all = chunks_of decode half (k, u)" unfolding all by (rule seen_item [OF assms(1)])
    ultimately show ?thesis by (auto simp: chunks_of_blocks)
  qed
  ultimately have "reassembled (\<lambda>k. length (seen k all)) xs (fst (calls (reassembling save) xs reassembler_new))
    \<and> snd (calls (reassembling save) xs reassembler_new) = map fst (ra_saved (fst (calls (reassembling save) xs reassembler_new)))"
    using assms(3) by (intro reassembled_calls) simp_all
  then show ?thesis using reassembled_items [OF assms(1) all xs] by (simp add: case_prod_beta)
qed

lemma item_codes_short:
  "w \<noteq> [] \<Longrightarrow> length w \<le> CHUNK_SIZE \<Longrightarrow> item_codes Inr half enc w = enc (map half (pad_to CHUNK_SIZE w))"
  using blocks_step [of CHUNK_SIZE w] by (simp add: item_codes_def samples_def CHUNK_SIZE_def)

theorem encode_reassembles_witness:
  "let items = [(7, [3, 2]), (8, []), (9 :: nat, [5 :: nat])]; encode = \<lambda>ws. Inr (map (take 2) ws);
     coded_chunks = concat (map (encoded encode) (collated 2 (rev (concat (map (chunks_of Inr id) items))))) in
   case calls (reassembling (\<lambda>_ _. None)) (rev coded_chunks) reassembler_new of (r, ids) \<Rightarrow>
     ra_pending r = Map.empty \<and> mset (ra_saved r) = mset [(7, [3, 2]), (9, [5, 0])]"
proof -
  let ?items = "[(7, [3, 2]), (8, []), (9 :: nat, [5 :: nat])]"
  have live: "filter (\<lambda>(k, u). samples Inr u \<noteq> []) ?items = [(7, [3, 2]), (9, [5])]" by (simp add: samples_def)
  have codes: "item_codes Inr id (take 2) [3, 2 :: nat] = [3, 2]" "item_codes Inr id (take 2) [5 :: nat] = [5, 0]"
    by (simp_all add: item_codes_short pad_to_def CHUNK_SIZE_def numeral_2_eq_2)
  have dist: "distinct (map fst ?items)" by simp
  show ?thesis
    using encode_reassembles [OF dist, of "\<lambda>ws. Inr (map (take 2) ws)" "take 2" "\<lambda>_ _. None" "rev (concat (map (chunks_of Inr id) ?items))" Inr id
        "rev (concat (map (encoded (\<lambda>ws. Inr (map (take 2) ws))) (collated 2 (rev (concat (map (chunks_of Inr id) ?items))))))" 2]
    unfolding live by (simp add: codes block_codec_def case_prod_beta Let_def del: concat.simps list.map)
qed

end
