(* ===== verification/Pipe_Keyed.thy ===== *)
theory Pipe_Keyed
  imports Pipe_Recipes "HOL-Library.AList"
begin

text \<open>
  Two examples whose stages decide item by item: grouping by key (\<^verbatim>\<open>examples/group_by_key.py\<close>) and
  downloads with a capped number of attempts (\<^verbatim>\<open>examples/retry_downloader.py\<close>). The network is a parameter.
\<close>

section \<open>Grouping\<close>

record ('k, 'x) group =
  gr_speaker :: 'k
  gr_clips :: "'x list"
  gr_partial :: "bool option"

text \<open>\<open>GroupBySpeaker\<close>: the dict is an association list in the order of insertion.\<close>

definition group_call ::
  "int \<Rightarrow> ('x \<Rightarrow> 'k) \<Rightarrow> 'x \<Rightarrow> ('k \<times> 'x list) list \<Rightarrow> ('k \<times> 'x list) list \<times> ('k, 'x) group list" where
  "group_call group_size speaker item groups =
     (let key = speaker item;
          clips = (case map_of groups key of None \<Rightarrow> [] | Some cs \<Rightarrow> cs) @ [item];
          groups1 = AList.update key clips groups
      in if group_size \<le> int (length clips)
         then (AList.delete key groups1, [\<lparr>gr_speaker = key, gr_clips = clips, gr_partial = None\<rparr>])
         else (groups1, []))"

definition group_flush :: "('k \<times> 'x list) list \<Rightarrow> ('k \<times> 'x list) list \<times> ('k, 'x) group list" where
  "group_flush groups = ([], map (\<lambda>(key, clips). \<lparr>gr_speaker = key, gr_clips = clips, gr_partial = Some True\<rparr>) groups)"

definition process_group :: "('k, 'x) group \<Rightarrow> 'k \<times> nat \<times> bool" where
  "process_group g = (gr_speaker g, length (gr_clips g), case gr_partial g of None \<Rightarrow> False | Some b \<Rightarrow> b)"

definition waiting_clips :: "('k \<times> 'x list) list \<Rightarrow> 'k \<Rightarrow> 'x list" where
  "waiting_clips groups k = (case map_of groups k of None \<Rightarrow> [] | Some cs \<Rightarrow> cs)"

definition clips_of :: "'k \<Rightarrow> ('k, 'x) group list \<Rightarrow> 'x list" where
  "clips_of k gs = concat (map gr_clips (filter (\<lambda>g. gr_speaker g = k) gs))"

text \<open>No key twice, no group empty or complete.\<close>

definition groups_ok :: "int \<Rightarrow> ('k \<times> 'x list) list \<Rightarrow> bool" where
  "groups_ok n groups \<longleftrightarrow> distinct (map fst groups) \<and> (\<forall>(k, cs) \<in> set groups. cs \<noteq> [] \<and> int (length cs) < max 1 n)"

lemma clips_of_simps [simp]:
  "clips_of k [] = []" "clips_of k (gs @ hs) = clips_of k gs @ clips_of k hs"
  "clips_of k (g # gs) = (if gr_speaker g = k then gr_clips g else []) @ clips_of k gs"
  by (simp_all add: clips_of_def)

lemma waiting_clips_ok: "groups_ok n groups \<Longrightarrow> int (length (waiting_clips groups k)) < max 1 n"
  by (auto simp: groups_ok_def waiting_clips_def split: option.splits dest: map_of_SomeD)

lemma set_update_subset: "set (AList.update k v xs) \<subseteq> insert (k, v) (set xs)"
  by (induction xs) auto

lemma group_call_step:
  assumes "groups_ok n groups" and "group_call n speaker x groups = (groups1, gs)"
  shows "groups_ok n groups1"
    and "clips_of k gs @ waiting_clips groups1 k = waiting_clips groups k @ (if speaker x = k then [x] else [])"
    and "\<forall>g \<in> set gs. gr_partial g = None \<and> int (length (gr_clips g)) = max 1 n"
proof -
  let ?c = "waiting_clips groups (speaker x) @ [x]"
  have len: "int (length (waiting_clips groups (speaker x))) < max 1 n" by (rule waiting_clips_ok [OF assms(1)])
  have d: "distinct (map fst (AList.update (speaker x) ?c groups))" using assms(1) by (simp add: groups_ok_def distinct_update)
  have "if n \<le> int (length ?c) then groups1 = AList.delete (speaker x) (AList.update (speaker x) ?c groups) \<and> gs = [\<lparr>gr_speaker = speaker x, gr_clips = ?c, gr_partial = None\<rparr>]
    else groups1 = AList.update (speaker x) ?c groups \<and> gs = []"
    using assms(2) by (auto simp: group_call_def Let_def waiting_clips_def)
  note eqs = this [unfolded if_bool_eq_conj]
  show "clips_of k gs @ waiting_clips groups1 k = waiting_clips groups k @ (if speaker x = k then [x] else [])"
    using eqs by (cases "n \<le> int (length ?c)") (auto simp: waiting_clips_def update_conv' delete_conv')
  show "\<forall>g \<in> set gs. gr_partial g = None \<and> int (length (gr_clips g)) = max 1 n"
    using eqs len by (cases "n \<le> int (length ?c)") auto
  note upd = set_update_subset [of "speaker x" ?c groups]
  show "groups_ok n groups1"
  proof (cases "n \<le> int (length ?c)")
    case True
    then have g: "groups1 = AList.delete (speaker x) (AList.update (speaker x) ?c groups)" using eqs by simp
    have "set groups1 \<subseteq> set groups" unfolding g using upd by (auto simp: AList.delete_eq)
    moreover have "distinct (map fst groups1)" unfolding g by (rule distinct_delete [OF d])
    ultimately show ?thesis using assms(1) by (auto simp: groups_ok_def)
  next
    case False
    then have "groups1 = AList.update (speaker x) ?c groups" using eqs by simp
    then show ?thesis using assms(1) d upd False by (fastforce simp: groups_ok_def)
  qed
qed

lemma group_calls:
  assumes "groups_ok n groups" and "calls (group_call n speaker) xs groups = (groups1, gs)"
  shows "groups_ok n groups1 \<and> (\<forall>k. clips_of k gs @ waiting_clips groups1 k = waiting_clips groups k @ filter (\<lambda>x. speaker x = k) xs)
    \<and> (\<forall>g \<in> set gs. gr_partial g = None \<and> int (length (gr_clips g)) = max 1 n)"
  using assms
proof (induction xs arbitrary: groups gs)
  case (Cons x xs)
  obtain g1 hs where c: "group_call n speaker x groups = (g1, hs)" by force
  then obtain ks where r: "calls (group_call n speaker) xs g1 = (groups1, ks)" "gs = hs @ ks" using Cons.prems(2) by (auto split: prod.splits)
  note step = group_call_step [OF Cons.prems(1) c]
  note IH = Cons.IH [OF step(1) r(1)]
  have "clips_of k gs @ waiting_clips groups1 k = waiting_clips groups k @ filter (\<lambda>x. speaker x = k) (x # xs)" for k
    using IH step(2) [of k] r(2) by (simp flip: append_assoc) (simp split: if_splits)
  then show ?case using IH step(3) r(2) by auto
qed simp

lemma clips_of_flush: "distinct (map fst groups) \<Longrightarrow> clips_of k (snd (group_flush groups)) = waiting_clips groups k"
proof (induction groups)
  case (Cons g groups)
  then have IH: "clips_of k (snd (group_flush groups)) = waiting_clips groups k" and d: "fst g \<notin> fst ` set groups" by simp_all
  have "waiting_clips groups (fst g) = []" using d map_of_eq_None_iff [of groups "fst g"] by (simp add: waiting_clips_def)
  then show ?case using IH by (cases g) (auto simp: group_flush_def waiting_clips_def)
qed (simp add: group_flush_def waiting_clips_def)

text \<open>
  Grouping loses no clip and keeps their order: for every speaker, the clips of the groups emitted for it, at
  the calls and by the flush, are exactly its clips in the order of the stream. A group emitted by a call has
  the group size, one emitted by the flush is marked partial, is not empty and smaller, and no
  speaker has two of those.
\<close>

theorem grouping_conserves:
  "let gs = stream (group_call n speaker) group_flush xs [] in
    (\<forall>k. clips_of k gs = filter (\<lambda>x. speaker x = k) xs)
    \<and> list_all (\<lambda>g. gr_clips g \<noteq> [] \<and> (if gr_partial g = None then int (length (gr_clips g)) = max 1 n else int (length (gr_clips g)) < max 1 n)) gs
    \<and> distinct (map gr_speaker (filter (\<lambda>g. gr_partial g = Some True) gs))"
proof -
  obtain groups gs where c: "calls (group_call n speaker) xs [] = (groups, gs)" by force
  have "groups_ok n []" by (simp add: groups_ok_def)
  from group_calls [OF this c] have G: "groups_ok n groups" "\<And>k. clips_of k gs @ waiting_clips groups k = filter (\<lambda>x. speaker x = k) xs"
    "\<forall>g \<in> set gs. gr_partial g = None \<and> int (length (gr_clips g)) = max 1 n" by (simp_all add: waiting_clips_def)
  have st: "stream (group_call n speaker) group_flush xs [] = gs @ snd (group_flush groups)" by (simp add: stream_def c)
  have "filter (\<lambda>g. gr_partial g = Some True) gs = []" using G(3) by (auto simp: filter_empty_conv)
  moreover have "map gr_speaker (snd (group_flush groups)) = map fst groups" by (auto simp: group_flush_def)
  moreover have "filter (\<lambda>g. gr_partial g = Some True) (snd (group_flush groups)) = snd (group_flush groups)"
    by (auto simp: group_flush_def filter_id_conv)
  moreover have "list_all (\<lambda>g. gr_clips g \<noteq> [] \<and> int (length (gr_clips g)) = max 1 n \<and> gr_partial g = None) gs" using G(3) by (force simp: list_all_iff)
  moreover have "list_all (\<lambda>g. gr_clips g \<noteq> [] \<and> int (length (gr_clips g)) < max 1 n \<and> gr_partial g = Some True) (snd (group_flush groups))"
    using G(1) by (auto simp: list_all_iff group_flush_def groups_ok_def)
  ultimately show ?thesis using G(1,2) clips_of_flush [of groups] by (auto simp: st groups_ok_def list_all_iff)
qed

section \<open>Downloads with retries\<close>

text \<open>\<open>_download\<close> of the example; \<open>draw\<close> is its random number.\<close>

datatype fetch = Got string | TimedOut | NotFound

definition retry_download :: "string \<Rightarrow> real \<Rightarrow> fetch" where
  "retry_download url draw =
     (if suffix ''_13'' url then NotFound else if draw < 0.3 then TimedOut else Got (replicate 1024 (CHR ''x'')))"

record dl_item =
  rt_id :: nat
  rt_url :: string
  rt_attempts :: int
  rt_data :: "string option"

definition MAX_ATTEMPTS :: int where "MAX_ATTEMPTS = 3"

text \<open>What becomes of the item: sent on, pushed back to the stage's own queue, or dropped.\<close>

datatype verdict = Sent dl_item | Pushed dl_item | GaveUp dl_item | Permanent dl_item

definition retry_call :: "fetch \<Rightarrow> dl_item \<Rightarrow> verdict" where
  "retry_call reply item =
     (let item1 = item\<lparr>rt_attempts := rt_attempts item + 1\<rparr> in
      case reply of
        Got data \<Rightarrow> Sent (item1\<lparr>rt_data := Some data\<rparr>)
      | TimedOut \<Rightarrow> if rt_attempts item1 < MAX_ATTEMPTS then Pushed item1 else GaveUp item1
      | NotFound \<Rightarrow> Permanent item1)"

definition url_source :: "nat \<Rightarrow> (nat \<Rightarrow> string) \<Rightarrow> dl_item list" where
  "url_source n name = map (\<lambda>i. \<lparr>rt_id = i, rt_url = ''https://example.com/file_'' @ name i, rt_attempts = 0, rt_data = None\<rparr>) [0..<n]"

definition retry_save :: "dl_item \<Rightarrow> exn + (nat \<times> int \<times> nat)" where
  "retry_save item = (case rt_data item of None \<Rightarrow> Inl OtherExn | Some d \<Rightarrow> Inr (rt_id item, rt_attempts item, length d))"

text \<open>
  The stage on its queue. Several workers serve it, so the item handled next is any of those waiting: \<open>pick\<close>
  chooses it and \<open>net\<close> answers. A pushed item is behind the others.
\<close>

definition tries_left :: "dl_item \<Rightarrow> nat" where
  "tries_left i = nat (max 1 (MAX_ATTEMPTS - rt_attempts i))"

lemma retry_pushed: "retry_call a i = Pushed j \<Longrightarrow> tries_left j < tries_left i \<and> rt_id j = rt_id i \<and> rt_attempts j = rt_attempts i + 1 \<and> rt_attempts j < MAX_ATTEMPTS"
  by (auto simp: retry_call_def tries_left_def Let_def MAX_ATTEMPTS_def split: fetch.splits if_splits)

lemma tries_without:
  assumes "k < length q"
  shows "sum_list (map tries_left (take k q @ drop (Suc k) q)) + tries_left (q ! k) = sum_list (map tries_left q)"
proof -
  have "q = take k q @ q ! k # drop (Suc k) q" by (rule id_take_nth_drop [OF assms])
  then have "sum_list (map tries_left q) = sum_list (map tries_left (take k q @ q ! k # drop (Suc k) q))" by simp
  then show ?thesis by simp
qed

function retry_run :: "(nat \<Rightarrow> string \<Rightarrow> fetch) \<Rightarrow> (nat \<Rightarrow> nat) \<Rightarrow> nat \<Rightarrow> dl_item list \<Rightarrow> verdict list" where
  "retry_run net pick t q =
     (if q = [] then []
      else let k = pick t mod length q; rest = take k q @ drop (Suc k) q; v = retry_call (net t (rt_url (q ! k))) (q ! k) in
       v # retry_run net pick (Suc t) (case v of Pushed j \<Rightarrow> rest @ [j] | _ \<Rightarrow> rest))"
  by pat_completeness auto
termination
proof (relation "measure (\<lambda>(net, pick, t, q). sum_list (map tries_left q))", goal_cases)
  case (2 net pick t q k rest v)
  have "k < length q" using 2(1,2) by simp
  note w = tries_without [OF this]
  have "0 < tries_left (q ! k)" by (simp add: tries_left_def)
  moreover have "tries_left j < tries_left (q ! k)" if "v = Pushed j" for j using that 2(4) retry_pushed [of "net t (rt_url (q ! k))" "q ! k" j] by simp
  ultimately show ?case using w 2(3) by (cases v) fastforce+
qed simp

declare retry_run.simps [simp del]

fun settled :: "verdict \<Rightarrow> dl_item option" where
  "settled (Sent i) = Some i"
| "settled (GaveUp i) = Some i"
| "settled (Permanent i) = Some i"
| "settled (Pushed i) = None"

fun fair_verdict :: "verdict \<Rightarrow> bool" where
  "fair_verdict (Sent i) \<longleftrightarrow> rt_data i \<noteq> None \<and> 1 \<le> rt_attempts i \<and> rt_attempts i \<le> MAX_ATTEMPTS"
| "fair_verdict (Pushed i) \<longleftrightarrow> rt_attempts i < MAX_ATTEMPTS"
| "fair_verdict (GaveUp i) \<longleftrightarrow> rt_attempts i = MAX_ATTEMPTS"
| "fair_verdict (Permanent i) \<longleftrightarrow> True"

abbreviation fresh_item :: "dl_item \<Rightarrow> bool" where
  "fresh_item i \<equiv> 0 \<le> rt_attempts i \<and> rt_attempts i < MAX_ATTEMPTS"

lemma retry_call_fair: "fresh_item i \<Longrightarrow> fair_verdict (retry_call a i)"
  by (auto simp: retry_call_def Let_def MAX_ATTEMPTS_def split: fetch.splits)

lemma retry_call_settled: "(\<exists>j. retry_call a i = Pushed j) \<or> (\<exists>j. settled (retry_call a i) = Some j \<and> rt_id j = rt_id i)"
  by (auto simp: retry_call_def Let_def split: fetch.splits)

lemma mset_without: "k < length q \<Longrightarrow> mset q = add_mset (q ! k) (mset (take k q @ drop (Suc k) q))"
  using id_take_nth_drop [of k q] by (metis mset_append mset.simps(2) union_mset_add_mset_right)

lemma requeue_fresh:
  assumes "\<forall>i \<in> set rest. fresh_item i" and "\<And>j. v = Pushed j \<Longrightarrow> fresh_item j"
  shows "\<forall>i \<in> set (case v of Pushed j \<Rightarrow> rest @ [j] | _ \<Rightarrow> rest). fresh_item i"
  using assms by (cases v) auto

lemma retry_run_settles:
  assumes "\<forall>i \<in> set q. fresh_item i"
  shows "mset (map rt_id (List.map_filter settled (retry_run net pick t q))) = mset (map rt_id q)
    \<and> length (retry_run net pick t q) \<le> sum_list (map tries_left q) \<and> list_all fair_verdict (retry_run net pick t q)"
  using assms
proof (induction net pick t q rule: retry_run.induct)
  case (1 net pick t q)
  show ?case
  proof (cases "q = []")
    case True
    then show ?thesis by (simp add: retry_run.simps List.map_filter_simps)
  next
    case False
    define k rest i v where "k = pick t mod length q" and "rest = take k q @ drop (Suc k) q" and "i = q ! k" and "v = retry_call (net t (rt_url i)) i"
    let ?q = "case v of Pushed j \<Rightarrow> rest @ [j] | _ \<Rightarrow> rest"
    have k: "k < length q" using False by (simp add: k_def)
    have run: "retry_run net pick t q = v # retry_run net pick (Suc t) ?q"
      using False unfolding v_def i_def rest_def k_def by (subst retry_run.simps) (simp only: Let_def if_False)
    have q: "mset q = add_mset i (mset rest)" unfolding rest_def i_def by (rule mset_without [OF k])
    have w: "sum_list (map tries_left rest) + tries_left i = sum_list (map tries_left q)" unfolding rest_def i_def by (rule tries_without [OF k])
    have "set q = insert i (set rest)" using q by (metis set_mset_add_mset_insert set_mset_mset)
    then have ok: "fresh_item i" "\<forall>i \<in> set rest. fresh_item i" using 1(2) by auto
    have pushed: "tries_left j < tries_left i \<and> rt_id j = rt_id i \<and> fresh_item j" if "v = Pushed j" for j
      using that ok(1) retry_pushed [of "net t (rt_url i)" i j] unfolding v_def by auto
    have "\<forall>i \<in> set ?q. fresh_item i" using requeue_fresh [OF ok(2)] pushed by blast
    then have IH: "mset (map rt_id (List.map_filter settled (retry_run net pick (Suc t) ?q))) = mset (map rt_id ?q)"
      "length (retry_run net pick (Suc t) ?q) \<le> sum_list (map tries_left ?q)" "list_all fair_verdict (retry_run net pick (Suc t) ?q)"
      using 1(1) [OF False k_def rest_def] unfolding v_def i_def by blast+
    have f: "fair_verdict v" unfolding v_def by (rule retry_call_fair [OF ok(1)])
    have ids: "mset (map rt_id q) = add_mset (rt_id i) (mset (map rt_id rest))" using q by simp
    have pos: "0 < tries_left i" by (simp add: tries_left_def)
    show ?thesis
    proof (cases "\<exists>j. v = Pushed j")
      case True
      then obtain j where j: "v = Pushed j" by blast
      show ?thesis using IH f ids w pushed [OF j] unfolding run by (simp add: j List.map_filter_simps)
    next
      case False
      then obtain j where j: "settled v = Some j" "rt_id j = rt_id i" "?q = rest"
        using retry_call_settled [of "net t (rt_url i)" i] unfolding v_def by (auto split: verdict.splits)
      then show ?thesis using IH f ids w pos unfolding run by (simp add: List.map_filter_simps)
    qed
  qed
qed

text \<open>
  C33: Retrying ends. For any answers of the network, and whichever waiting item the workers take next, items that
  start with no attempt are handled at most three times each in total; each of them is settled exactly once,
  sent with its data after one to three attempts, given up after exactly three, or dropped as permanent.
\<close>

theorem retry_settles:
  assumes "\<forall>i \<in> set q. rt_attempts i = 0"
  shows "mset (map rt_id (List.map_filter settled (retry_run net pick 0 q))) = mset (map rt_id q)
    \<and> length (retry_run net pick 0 q) \<le> 3 * length q \<and> list_all fair_verdict (retry_run net pick 0 q)"
proof -
  have "sum_list (map tries_left q) = 3 * length q" using assms by (induction q) (simp_all add: tries_left_def MAX_ATTEMPTS_def)
  then show ?thesis using retry_run_settles [of q net pick 0] assms by (simp add: MAX_ATTEMPTS_def)
qed

theorem retry_settles_witness:
  "mset (map rt_id (List.map_filter settled (retry_run (\<lambda>t url. retry_download url (if even t then 0 else 1)) (\<lambda>t. 5 * t) 0
     (url_source 20 (\<lambda>i. if i = 13 then ''13'' else ''x''))))) = mset [0..<20]"
  using retry_settles [of "url_source 20 (\<lambda>i. if i = 13 then ''13'' else ''x'')" "\<lambda>t url. retry_download url (if even t then 0 else 1)" "\<lambda>t. 5 * t"]
  by (simp add: url_source_def comp_def)

section \<open>Stages of the data loaders\<close>

text \<open>\<open>path.split("/", 3)[3]\<close>: what is behind the third slash; with fewer slashes the index raises.\<close>

fun behind_slashes :: "nat \<Rightarrow> string \<Rightarrow> string option" where
  "behind_slashes 0 s = Some s"
| "behind_slashes (Suc n) [] = None"
| "behind_slashes (Suc n) (c # s) = (if c = CHR ''/'' then behind_slashes n s else behind_slashes (Suc n) s)"

definition s3_key :: "string \<Rightarrow> exn + string" where
  "s3_key path = (case behind_slashes 3 path of None \<Rightarrow> Inl IndexE | Some key \<Rightarrow> Inr key)"

lemma behind_slashes_skip: "CHR ''/'' \<notin> set b \<Longrightarrow> behind_slashes (Suc n) (b @ CHR ''/'' # s) = behind_slashes n s"
  by (induction b) auto

lemma s3_key_roundtrip: "CHR ''/'' \<notin> set bucket \<Longrightarrow> s3_key (''s3://'' @ bucket @ ''/'' @ key) = Inr key"
  using behind_slashes_skip [of bucket 0 key] by (simp add: s3_key_def numeral_3_eq_3)

text \<open>\<open>S3Downloader.process\<close>: every exception, that of the key included, drops the item.\<close>

record s3_item =
  si_path :: string
  si_data :: "string option"

definition s3_process :: "(string \<Rightarrow> exn + string) \<Rightarrow> s3_item \<Rightarrow> s3_item option" where
  "s3_process get item =
     (case s3_key (si_path item) of
        Inl _ \<Rightarrow> None
      | Inr key \<Rightarrow> (case get key of Inl _ \<Rightarrow> None | Inr bytes \<Rightarrow> Some (item\<lparr>si_data := Some bytes\<rparr>)))"

text \<open>
  \<open>load_and_process\<close> of the training loader: the bytes are popped from the item before they are decoded, and
  only clips of one to thirty seconds are kept.
\<close>

record 'w clip =
  cp_id :: nat
  cp_text :: string
  cp_bytes :: "string option"
  cp_wav :: "'w list option"
  cp_duration :: "real option"

definition load_and_process :: "(string \<Rightarrow> exn + 'w list) \<Rightarrow> 'w clip \<Rightarrow> exn + 'w clip option" where
  "load_and_process decode item =
     (case cp_bytes item of
        None \<Rightarrow> Inl OtherExn
      | Some bytes \<Rightarrow> (case decode bytes of
           Inl e \<Rightarrow> Inl e
         | Inr wav \<Rightarrow> (let duration = real (length wav) / 16000 in
             if duration < 1 \<or> 30 < duration then Inr None
             else Inr (Some (item\<lparr>cp_bytes := None, cp_wav := Some wav, cp_duration := Some duration\<rparr>)))))"

lemma load_and_process_keeps:
  assumes "cp_bytes item = Some b" and "decode b = Inr wav"
  shows "(\<exists>c. load_and_process decode item = Inr (Some c)) \<longleftrightarrow> 16000 \<le> length wav \<and> length wav \<le> 480000"
  using assms by (auto simp: load_and_process_def Let_def divide_simps)

text \<open>\<open>collate\<close> of the training loader; padding is a parameter.\<close>

definition loader_collate :: "('w list list \<Rightarrow> 'p) \<Rightarrow> 'w clip list \<Rightarrow> exn + ('p \<times> string list \<times> nat list)" where
  "loader_collate pad batch =
     (case those (map cp_wav batch) of
        None \<Rightarrow> Inl OtherExn
      | Some wavs \<Rightarrow> Inr (pad wavs, map cp_text batch, map cp_id batch))"

end
