(* ===== verification/Pipe_Demo.thy ===== *)
theory Pipe_Demo
  imports Pipe_Chunks
begin

text \<open>
  The runnable examples: the demo pipeline (\<^verbatim>\<open>examples/demo.py\<close>, and \<^verbatim>\<open>planned/autoscale_demo.py\<close>, whose
  stages are the same), grouping by key (\<^verbatim>\<open>group_by_key.py\<close>) and retrying downloads
  (\<^verbatim>\<open>retry_downloader.py\<close>). Random numbers, hashes and the network are parameters.
\<close>

section \<open>The demo\<close>

record demo_item =
  di_id :: nat
  di_duration :: real
  di_data :: string
  di_downloaded :: bool
  di_hash :: "string option"
  di_processed :: bool

text \<open>\<open>AudioGenerator.__call__\<close>: the draws of the call for \<open>idx\<close> are \<open>expo idx\<close> and \<open>data idx\<close>.\<close>

definition audio_generator_call ::
  "(nat \<Rightarrow> real) \<Rightarrow> (nat \<Rightarrow> string) \<Rightarrow> int \<Rightarrow> nat \<Rightarrow> nat \<times> demo_item val" where
  "audio_generator_call expo data n_items idx =
     (if n_items \<le> int idx then (idx, EndV)
      else let duration = max 5 (min 120 (expo idx));
               item = \<lparr>di_id = idx, di_duration = duration, di_data = data idx, di_downloaded = False, di_hash = None, di_processed = False\<rparr>
           in if n_items \<le> int (Suc idx) then (Suc idx, ListV [Obj item, EndV]) else (Suc idx, Obj item))"

text \<open>The values of the first calls of the source.\<close>

fun generated :: "(nat \<Rightarrow> real) \<Rightarrow> (nat \<Rightarrow> string) \<Rightarrow> int \<Rightarrow> nat \<Rightarrow> nat \<Rightarrow> demo_item outcome list" where
  "generated expo data n 0 idx = []"
| "generated expo data n (Suc k) idx = (case audio_generator_call expo data n idx of (idx1, v) \<Rightarrow> Ret v # generated expo data n k idx1)"

definition demo_downloader :: "demo_item val \<Rightarrow> demo_item outcome" where
  "demo_downloader v = (case v of Obj it \<Rightarrow> Ret (Obj (it\<lparr>di_downloaded := True\<rparr>)) | _ \<Rightarrow> Raise TypeE)"

definition demo_processor :: "(string \<Rightarrow> string) \<Rightarrow> demo_item val \<Rightarrow> demo_item outcome" where
  "demo_processor sha256 v =
     (case v of Obj it \<Rightarrow> Ret (Obj (it\<lparr>di_hash := Some (take 16 (sha256 (di_data it))), di_processed := True\<rparr>)) | _ \<Rightarrow> Raise TypeE)"

definition demo_collector :: "demo_item val \<Rightarrow> demo_item outcome" where
  "demo_collector v = Ret v"

text \<open>The pipeline the script builds behind its source, with its numbers of workers.\<close>

definition demo_pipeline :: "(string \<Rightarrow> string) \<Rightarrow> (demo_item stage_run \<times> nat) list \<Rightarrow> bool" where
  "demo_pipeline sha256 srs \<longleftrightarrow>
     map (sr_fun \<circ> fst) srs = [demo_downloader, demo_processor sha256, demo_collector] \<and> map snd srs = [4, 2, 1]"

definition demo_result :: "(nat \<Rightarrow> real) \<Rightarrow> (nat \<Rightarrow> string) \<Rightarrow> (string \<Rightarrow> string) \<Rightarrow> nat \<Rightarrow> demo_item val" where
  "demo_result expo data sha256 i =
     Obj \<lparr>di_id = i, di_duration = max 5 (min 120 (expo i)), di_data = data i, di_downloaded = True,
          di_hash = Some (take 16 (sha256 (data i))), di_processed = True\<rparr>"

lemma generated_items:
  "idx < n \<Longrightarrow> n - idx \<le> k \<Longrightarrow> root_items (generated expo data (int n) k idx)
     = map (\<lambda>i. Obj \<lparr>di_id = i, di_duration = max 5 (min 120 (expo i)), di_data = data i, di_downloaded = False, di_hash = None, di_processed = False\<rparr>) [idx..<n]"
proof (induction k arbitrary: idx)
  case (Suc k)
  show ?case
  proof (cases "Suc idx < n")
    case True
    then have "Suc idx < n" "n - Suc idx \<le> k" using Suc.prems by simp_all
    from Suc.IH [OF this] show ?thesis using Suc.prems True by (simp add: audio_generator_call_def Let_def upt_conv_Cons)
  next
    case False
    then have "n = Suc idx" using Suc.prems by simp
    then show ?thesis by (simp add: audio_generator_call_def Let_def is_end_def)
  qed
qed simp

lemma generated_all:
  "root_items (generated expo data (int n) (Suc n) 0)
     = map (\<lambda>i. Obj \<lparr>di_id = i, di_duration = max 5 (min 120 (expo i)), di_data = data i, di_downloaded = False, di_hash = None, di_processed = False\<rparr>) [0..<n]"
  using generated_items [of 0 n "Suc n" expo data] by (cases n) (simp_all add: audio_generator_call_def)

lemma demo_through:
  "through [demo_downloader, demo_processor sha256, demo_collector] (root_items (generated expo data (int n) (Suc n) 0))
     = map (demo_result expo data sha256) [0..<n]"
proof -
  have each: "concat (map (\<lambda>i. [g i]) is) = map g is" for g and "is" :: "nat list" by (induction "is") simp_all
  show ?thesis
    unfolding generated_all through.simps
    by (simp add: outputs_def result_list_def demo_downloader_def demo_processor_def demo_collector_def demo_result_def comp_def each
        del: upt_Suc)
qed

text \<open>
  The demo, in every interleaving of its four downloaders, two processors and one collector in which no worker
  leaves on a stale answer, and such a run exists: the loop of the script ends, and its results are the
  \<open>n_items\<close> items of the generator, each once, downloaded, processed and with its hash, whatever the draws were.
\<close>

theorem demo_yields:
  assumes "demo_pipeline sha256 srs" and "\<forall>(sr, n) \<in> set srs. stage_ok sr" and "wellformed ms"
    and "unchunk ms = root_items (generated expo data (int n) (Suc n) 0) @ [EndV]"
  shows "(\<exists>ms'. fleet_stages srs ms ms') \<and> (\<forall>ms'. fleet_stages srs ms ms' \<longrightarrow> (\<exists>st. read_all ms' = Complete st
    \<and> length (it_yielded st) = n \<and> mset (it_yielded st) = mset (map (demo_result expo data sha256) [0..<n])))"
proof -
  have "set (map snd srs) = {4, 2, 1}" using assms(1) by (simp add: demo_pipeline_def)
  then have "\<forall>(sr, n) \<in> set srs. 0 < n" by force
  then have "\<exists>ms'. fleet_stages srs ms ms'" using fleet_stages_exist [of srs ms] assms(2,3) by fast
  moreover have "\<exists>st. read_all ms' = Complete st \<and> length (it_yielded st) = n \<and> mset (it_yielded st) = mset (map (demo_result expo data sha256) [0..<n])"
    if ms': "fleet_stages srs ms ms'" for ms'
  proof -
    have "through (map (sr_fun \<circ> fst) srs) (root_items (generated expo data (int n) (Suc n) 0)) = map (demo_result expo data sha256) [0..<n]"
      using assms(1) demo_through by (simp only: demo_pipeline_def)
    with fleet_pipeline_yields [OF assms(2-4) ms'] obtain st where
      y: "read_all ms' = Complete st" "mset (it_yielded st) = mset (map (demo_result expo data sha256) [0..<n])" by auto
    moreover have "length (it_yielded st) = n" using mset_eq_length [OF y(2)] by simp
    ultimately show ?thesis by blast
  qed
  ultimately show ?thesis by blast
qed

text \<open>A stage whose queues answer at once.\<close>

definition steady_stage :: "('a val \<Rightarrow> 'a outcome) \<Rightarrow> 'a stage_run" where
  "steady_stage f =
     (let ob = \<lparr>io_stop = 0, io_now = 0, io_flush_exn = None, io_stop1 = 0, io_park = None,
          io_park_obs = \<lparr>po_hook = HookItems [], po_emit = sample_emit, po_flush = None, po_reads = [], po_stop_after = 0, po_has_unpark = False, po_has_load = False\<rparr>,
          io_drain_set = False, io_upstream = True, io_call = f,
          io_call_start = 1, io_elapsed = 1, io_emit = sample_emit, io_gen_stop = (\<lambda>_. False),
          io_clocks = [(0, 0), (0, 0)], io_deadline = 1, io_retry_now = 0, io_retry = []\<rparr>
      in \<lparr>sr_cfg = \<lparr>c_root = False, c_raise_errors = False, c_batch_size = 0, c_drain = True,
            c_threshold = empty_threshold 0.3, c_timing = True, c_busy = True, c_view = (\<lambda>_. LeafS), c_dict = (\<lambda>_. None)\<rparr>,
          sr_chunk = 0, sr_chunk_ms = 10, sr_fun = f, sr_obs = (\<lambda>_. ob), sr_last = ob\<rparr>)"

lemma steady_stage_ok:
  assumes "mild f" and "\<And>x y. plain x \<Longrightarrow> y \<in> set (outputs f x) \<Longrightarrow> plain y"
  shows "stage_ok (steady_stage f)"
  using assms by (simp add: stage_ok_def steady_stage_def calm_def quiet_def sample_emit_def empty_threshold_def Let_def)

lemma demo_stages_ok: "stage_ok (steady_stage demo_downloader)" "stage_ok (steady_stage (demo_processor sha256))" "stage_ok (steady_stage demo_collector)"
proof -
  show "stage_ok (steady_stage demo_downloader)"
    by (rule steady_stage_ok)
      (auto simp: mild_def demo_downloader_def outputs_def result_list_def is_connection_error_def split: val.splits)
  show "stage_ok (steady_stage (demo_processor sha256))"
    by (rule steady_stage_ok)
      (auto simp: mild_def demo_processor_def outputs_def result_list_def is_connection_error_def split: val.splits)
  show "stage_ok (steady_stage demo_collector)"
    by (rule steady_stage_ok) (auto simp: mild_def demo_collector_def outputs_def result_list_def list_all_iff split: val.splits)
qed

theorem demo_yields_witness:
  "\<exists>ms' st. fleet_stages [(steady_stage demo_downloader, 4), (steady_stage (demo_processor id), 2), (steady_stage demo_collector, 1)]
       (map ItemM (root_items (generated (\<lambda>_. 300) (\<lambda>_. ''ab'') 2 3 0)) @ [ItemM EndV]) ms'
     \<and> read_all ms' = Complete st \<and> length (it_yielded st) = 2
     \<and> mset (it_yielded st) = mset (map (demo_result (\<lambda>_. 120) (\<lambda>_. ''ab'') id) [0, 1])"
proof -
  let ?srs = "[(steady_stage demo_downloader, 4), (steady_stage (demo_processor id), 2), (steady_stage demo_collector, 1)]"
    and ?src = "generated (\<lambda>_. 300) (\<lambda>_. ''ab'') (int 2) (Suc 2) 0"
  let ?ms = "map ItemM (root_items ?src) @ [ItemM EndV]"
  have sf: "sr_fun (steady_stage f) = f" for f :: "demo_item val \<Rightarrow> demo_item outcome" by (simp add: steady_stage_def Let_def)
  have p: "demo_pipeline id ?srs" by (simp add: demo_pipeline_def sf)
  have ok: "\<forall>(sr, n) \<in> set ?srs. stage_ok sr" by (simp add: demo_stages_ok)
  have un: "unchunk (map ItemM xs) = xs" for xs :: "demo_item val list" by (induction xs) simp_all
  have "\<forall>x \<in> set (root_items ?src). plain x" unfolding generated_all by simp
  then have wf: "wellformed ?ms" by (auto simp: wellformed_def un simp del: generated.simps)
  have u: "unchunk ?ms = root_items ?src @ [EndV]" by (simp add: un del: generated.simps)
  have r: "demo_result (\<lambda>_. 300) (\<lambda>_. ''ab'') id = demo_result (\<lambda>_. 120) (\<lambda>_. ''ab'') id" by (simp add: demo_result_def fun_eq_iff)
  have i: "[0..<2] = [0, 1 :: nat]" and n: "int 2 = 2" "Suc 2 = 3" by (simp_all add: numeral_2_eq_2)
  show ?thesis using demo_yields [OF p ok wf u] unfolding r i n by blast
qed

end
