(* ===== verification/Pipe_Bench.thy ===== *)
theory Pipe_Bench
  imports Pipe_Demo "HOL-Library.Sublist"
begin

text \<open>
  The benchmarks: how a worker fills a batch from its queue, by the old and by the new rule
  (\<^verbatim>\<open>bench/bench_batch_accumulation.py\<close>), and items through stages that do nothing
  (\<^verbatim>\<open>bench/bench_pipe_overhead.py\<close>).
\<close>

section \<open>Filling a batch\<close>

text \<open>
  The queue is given by what a producer puts on it: the items with the times of their arrival, the
  times ascending. \<open>q.get(timeout)\<close> at time \<open>now\<close> waits for the next item, at most for the timeout; \<open>get_nowait\<close> is
  the timeout 0. The result carries the time of the return; the calls themselves take no time.
\<close>

type_synonym 'x arrivals = "(real \<times> 'x) list"

definition timed_get :: "real \<Rightarrow> real \<Rightarrow> 'x arrivals \<Rightarrow> real \<times> ('x \<times> 'x arrivals) option" where
  "timed_get timeout now q =
     (case q of
        [] \<Rightarrow> (now + timeout, None)
      | (a, x) # rest \<Rightarrow> if a \<le> now + timeout then (max now a, Some (x, rest)) else (now + timeout, None))"

definition slow_producer :: "nat \<Rightarrow> real \<Rightarrow> nat arrivals" where
  "slow_producer n_items interval = map (\<lambda>i. (real i * max 0 interval, i)) [0..<n_items]"

text \<open>The loop of \<open>batch_old_style\<close>: \<open>get_nowait\<close> until the first \<open>Empty\<close>.\<close>

fun old_fill :: "int \<Rightarrow> real \<Rightarrow> 'x arrivals \<Rightarrow> 'x list \<Rightarrow> 'x list \<times> 'x arrivals" where
  "old_fill n now [] batch = (batch, [])"
| "old_fill n now ((a, x) # q) batch =
     (if int (length batch) < n \<and> snd (timed_get 0 now ((a, x) # q)) \<noteq> None then old_fill n now q (batch @ [x])
      else (batch, (a, x) # q))"

definition batch_old_style :: "int \<Rightarrow> real \<Rightarrow> real \<Rightarrow> 'x arrivals \<Rightarrow> 'x list option \<times> 'x arrivals" where
  "batch_old_style n timeout now q =
     (case timed_get timeout now q of
        (now1, None) \<Rightarrow> (None, q)
      | (now1, Some (item, rest)) \<Rightarrow> (case old_fill n now1 rest [item] of (batch, q1) \<Rightarrow> (Some batch, q1)))"

text \<open>The loop of \<open>batch_new_style\<close>: waits of at most 10 ms until the deadline.\<close>

function new_fill :: "int \<Rightarrow> real \<Rightarrow> real \<Rightarrow> 'x arrivals \<Rightarrow> 'x list \<Rightarrow> 'x list \<times> 'x arrivals" where
  "new_fill n deadline now q batch =
     (if int (length batch) < n then
        let remaining = deadline - now in
        if remaining \<le> 0 then (batch, q)
        else case timed_get (min remaining 0.01) now q of
               (now1, None) \<Rightarrow> if deadline \<le> now1 then (batch, q) else new_fill n deadline now1 q batch
             | (now1, Some (raw, rest)) \<Rightarrow> new_fill n deadline now1 rest (batch @ [raw])
      else (batch, q))"
  by pat_completeness auto

definition fill_measure :: "real \<Rightarrow> real \<Rightarrow> 'x arrivals \<Rightarrow> nat" where
  "fill_measure deadline now q = length q + nat \<lceil>(deadline - now) * 100\<rceil>"

lemma fill_measure_got:
  assumes "timed_get w now q = (now1, Some (x, rest))"
  shows "fill_measure deadline now1 rest < fill_measure deadline now q"
proof -
  have "length q = Suc (length rest)" "now \<le> now1" using assms by (auto simp: timed_get_def split: list.splits if_splits)
  moreover from this have "nat \<lceil>(deadline - now1) * 100\<rceil> \<le> nat \<lceil>(deadline - now) * 100\<rceil>" by (intro nat_mono ceiling_mono) simp
  ultimately show ?thesis unfolding fill_measure_def by linarith
qed

lemma fill_measure_waited:
  assumes "timed_get (min (deadline - now) (1 / 100)) now q = (now1, None)" and "now1 < deadline"
  shows "fill_measure deadline now1 q < fill_measure deadline now q"
proof -
  have "now1 = now + min (deadline - now) 0.01" using assms(1) by (auto simp: timed_get_def split: list.splits if_splits)
  then have n: "now1 = now + 0.01" using assms(2) by (auto simp: min_def split: if_splits)
  then have "(deadline - now) * 100 = (deadline - now1) * 100 + 1" by (simp add: algebra_simps)
  then have "\<lceil>(deadline - now) * 100\<rceil> = \<lceil>(deadline - now1) * 100\<rceil> + 1" by (simp only: ceiling_add_one)
  moreover have "0 \<le> \<lceil>(deadline - now1) * 100\<rceil>" using assms(2) by simp
  ultimately show ?thesis unfolding fill_measure_def by linarith
qed

termination new_fill
  by (relation "measure (\<lambda>(n, deadline, now, q, batch). fill_measure deadline now q)")
    (auto intro: fill_measure_got [OF sym] fill_measure_waited [OF sym])

declare new_fill.simps [simp del]

definition batch_new_style :: "int \<Rightarrow> real \<Rightarrow> real \<Rightarrow> 'x arrivals \<Rightarrow> 'x list option \<times> 'x arrivals" where
  "batch_new_style n timeout now q =
     (case timed_get timeout now q of
        (now1, None) \<Rightarrow> (None, q)
      | (now1, Some (item, rest)) \<Rightarrow> (case new_fill n (now1 + 0.05) now1 rest [item] of (batch, q1) \<Rightarrow> (Some batch, q1)))"

text \<open>
  What the two loops take off the queue: \<open>j\<close> items. The old one takes those that are there, the new one
  those that arrive before the deadline, in both cases up to the size of the batch.
\<close>

abbreviation arrived :: "real \<Rightarrow> 'x arrivals \<Rightarrow> nat" where
  "arrived t q \<equiv> length (takeWhile (\<lambda>p. fst p \<le> t) q)"

lemma room_left: "int (length batch) < n \<Longrightarrow> nat (n - int (length batch)) = Suc (nat (n - int (length (batch @ [x]))))"
  by (simp add: nat_diff_distrib' Suc_nat_eq_nat_zadd1)

lemma old_fill_takes:
  "old_fill n now q batch = (let j = min (nat (n - int (length batch))) (arrived now q) in (batch @ map snd (take j q), drop j q))"
proof (induction n now q batch rule: old_fill.induct)
  case (2 n now a x q batch)
  show ?case
  proof (cases "int (length batch) < n \<and> a \<le> now")
    case True
    then have "nat (n - int (length batch)) = Suc (nat (n - int (length (batch @ [x]))))" by (intro room_left) simp
    then show ?thesis using 2 True by (simp add: timed_get_def Let_def)
  next
    case False
    then show ?thesis by (auto simp: timed_get_def Let_def)
  qed
qed simp

definition filled :: "int \<Rightarrow> real \<Rightarrow> 'x arrivals \<Rightarrow> 'x list \<Rightarrow> 'x list \<times> 'x arrivals \<Rightarrow> bool" where
  "filled n deadline q batch res \<longleftrightarrow> (\<exists>j. res = (batch @ map snd (take j q), drop j q)
     \<and> min (nat (n - int (length batch))) (length (takeWhile (\<lambda>p. fst p < deadline) q)) \<le> j
     \<and> j \<le> min (nat (n - int (length batch))) (arrived deadline q))"

lemma filled_none:
  "\<not> int (length batch) < n \<or> takeWhile (\<lambda>p. fst p < deadline) q = [] \<Longrightarrow> filled n deadline q batch (batch, q)"
  unfolding filled_def by (intro exI [of _ 0]) auto

lemma filled_more:
  assumes "filled n deadline rest (batch @ [x]) res" and "int (length batch) < n" and "a \<le> deadline"
  shows "filled n deadline ((a, x) # rest) batch res"
proof -
  from assms(1) obtain j where j: "res = ((batch @ [x]) @ map snd (take j rest), drop j rest)"
    "min (nat (n - int (length (batch @ [x])))) (length (takeWhile (\<lambda>p. fst p < deadline) rest)) \<le> j"
    "j \<le> min (nat (n - int (length (batch @ [x])))) (arrived deadline rest)" unfolding filled_def by blast
  then show ?thesis
    unfolding filled_def using room_left [OF assms(2), of x] assms(3) by (intro exI [of _ "Suc j"]) auto
qed

lemma new_fill_waits:
  assumes "int (length batch) < n" and "now < deadline"
  shows "timed_get (min (deadline - now) 0.01) now q = (now1, None) \<Longrightarrow>
      new_fill n deadline now q batch = (if deadline \<le> now1 then (batch, q) else new_fill n deadline now1 q batch)"
    and "timed_get (min (deadline - now) 0.01) now q = (now1, Some (x, rest)) \<Longrightarrow>
      new_fill n deadline now q batch = new_fill n deadline now1 rest (batch @ [x])"
  using assms by (subst new_fill.simps, simp add: Let_def)+

lemma new_fill_takes:
  assumes "sorted (map fst q)" and "now < deadline \<or> (\<forall>p \<in> set q. deadline \<le> fst p)"
  shows "filled n deadline q batch (new_fill n deadline now q batch)"
  using assms
proof (induction n deadline now q batch rule: new_fill.induct)
  case (1 n deadline now q batch)
  show ?case
  proof (cases "int (length batch) < n \<and> now < deadline")
    case False
    then have "new_fill n deadline now q batch = (batch, q)" by (subst new_fill.simps) auto
    moreover have "\<not> int (length batch) < n \<or> takeWhile (\<lambda>p. fst p < deadline) q = []" using False 1(4) by (cases q) auto
    ultimately show ?thesis using filled_none by simp
  next
    case True
    let ?w = "min (deadline - now) 0.01"
    note step = new_fill_waits [OF conjunct1 [OF True] conjunct2 [OF True]]
    obtain now1 ans where g: "timed_get ?w now q = (now1, ans)" by force
    show ?thesis
    proof (cases ans)
      case None
      have n1: "now1 = now + ?w" using g None by (auto simp: timed_get_def split: list.splits if_splits)
      have "takeWhile (\<lambda>p. fst p < deadline) q = []" if "deadline \<le> now1"
        using that g None n1 by (cases q) (auto simp: timed_get_def split: if_splits)
      then show ?thesis
        using step(1) [OF g [unfolded None]] filled_none 1(1) [OF conjunct1 [OF True] refl _ g [symmetric] None] 1(3) True by auto
    next
      case (Some p)
      obtain x rest where p: "p = (x, rest)" by force
      then obtain a where q: "q = (a, x) # rest" "a \<le> now + ?w" "now1 = max now a"
        using g Some by (auto simp: timed_get_def split: list.splits if_splits)
      have "\<forall>p \<in> set rest. a \<le> fst p" "sorted (map fst rest)" using 1(3) unfolding q(1) by simp_all
      moreover have "now1 < deadline \<or> deadline \<le> a" using q(3) True by (auto simp: max_def)
      ultimately have "now1 < deadline \<or> (\<forall>p \<in> set rest. deadline \<le> fst p)" by (meson order_trans)
      with 1(2) [OF conjunct1 [OF True] refl _ g [symmetric] Some p [symmetric] \<open>sorted (map fst rest)\<close>] True
      have "filled n deadline rest (batch @ [x]) (new_fill n deadline now1 rest (batch @ [x]))" by auto
      moreover have "a \<le> deadline" using q(2) by (auto simp: min_def split: if_splits)
      ultimately show ?thesis using filled_more True step(2) [OF g [unfolded Some p]] unfolding q(1) by metis
    qed
  qed
qed

text \<open>
  The new rule never yields a smaller batch than the old one. On the same arrivals both wait for the first item
  alike and give nothing in the same cases; from the first item on, the old batch holds what has
  arrived by then, the new one starts with the same items, and it holds everything that arrives
  before 50 ms have passed and nothing that arrives later, both up to the batch size. Both leave the
  rest of the queue in order, and the loop of the new rule ends.
\<close>

theorem new_style_extends_old:
  assumes "sorted (map fst q)"
  shows "case (batch_old_style n timeout now q, batch_new_style n timeout now q) of
      ((None, q1), (None, q2)) \<Rightarrow> q1 = q \<and> q2 = q \<and> arrived (now + timeout) q = 0
    | ((Some old, q1), (Some new, q2)) \<Rightarrow> prefix old new \<and> old @ map snd q1 = map snd q \<and> new @ map snd q2 = map snd q
        \<and> length old = min (max 1 (nat n)) (arrived (max now (fst (hd q))) q)
        \<and> min (max 1 (nat n)) (length (takeWhile (\<lambda>p. fst p < max now (fst (hd q)) + 0.05) q)) \<le> length new
        \<and> length new \<le> min (max 1 (nat n)) (arrived (max now (fst (hd q)) + 0.05) q)
    | _ \<Rightarrow> False"
proof (cases "snd (timed_get timeout now q)")
  case None
  then have "arrived (now + timeout) q = 0" by (cases q) (auto simp: timed_get_def split: if_splits)
  then show ?thesis using None by (simp add: batch_old_style_def batch_new_style_def case_prod_beta)
next
  case (Some p)
  then obtain a x rest where q: "q = (a, x) # rest" "timed_get timeout now q = (max now a, Some (x, rest))"
    by (auto simp: timed_get_def split: list.splits if_splits)
  let ?t = "max now a"
  have room: "max 1 (nat n) = Suc (nat (n - 1))" by simp
  let ?i = "min (nat (n - 1)) (arrived ?t rest)"
  have old: "batch_old_style n timeout now q = (Some (x # map snd (take ?i rest)), drop ?i rest)"
    by (simp add: batch_old_style_def q(2) old_fill_takes Let_def)
  have "sorted (map fst rest)" using assms unfolding q(1) by simp
  then obtain j where j: "new_fill n (?t + 0.05) ?t rest [x] = ([x] @ map snd (take j rest), drop j rest)"
    "min (nat (n - 1)) (length (takeWhile (\<lambda>p. fst p < ?t + 0.05) rest)) \<le> j" "j \<le> min (nat (n - 1)) (arrived (?t + 0.05) rest)"
    using new_fill_takes [of rest ?t "?t + 0.05" n "[x]"] by (auto simp: filled_def)
  have new: "batch_new_style n timeout now q = (Some (x # map snd (take j rest)), drop j rest)"
    using j(1) by (simp add: batch_new_style_def q(2))
  have "arrived ?t rest \<le> length (takeWhile (\<lambda>p. fst p < ?t + 0.05) rest)" by (induction rest) auto
  then have ij: "?i \<le> j" using j(2) by linarith
  then have "take j rest = take ?i rest @ take (j - ?i) (drop ?i rest)" by (metis le_add_diff_inverse take_add)
  then have "prefix (x # map snd (take ?i rest)) (x # map snd (take j rest))" by (simp add: prefix_def)
  moreover have lens: "arrived ?t rest \<le> length rest" "arrived (?t + 0.05) rest \<le> length rest" by (rule length_takeWhile_le)+
  ultimately show ?thesis
    using j(2,3) lens unfolding old new room by (auto simp: q(1) simp flip: map_append)
qed

theorem new_style_extends_old_witness:
  "\<exists>old new. fst (batch_old_style 4 1 0 (slow_producer 4 0.02)) = Some old \<and> fst (batch_new_style 4 1 0 (slow_producer 4 0.02)) = Some new
     \<and> prefix old new \<and> length old = 1 \<and> length new = 3"
proof -
  have q: "slow_producer 4 0.02 = [(0, 0), (0.02, 1), (0.04, 2), (0.06, 3)]" by (simp add: slow_producer_def upt_rec)
  have s: "sorted (map fst (slow_producer 4 0.02))" unfolding q by simp
  show ?thesis using new_style_extends_old [OF s, where n = 4 and timeout = 1 and now = 0] unfolding q by (auto split: prod.splits option.splits)
qed

section \<open>Items through idle stages\<close>

record overhead_item =
  oi_id :: nat
  oi_text :: string

definition overhead_source :: "nat \<Rightarrow> string \<Rightarrow> overhead_item outcome" where
  "overhead_source n payload = Gen (map (\<lambda>i. Obj \<lparr>oi_id = i, oi_text = payload\<rparr>) [0..<n]) None"

definition passthrough :: "'a val \<Rightarrow> 'a outcome" where
  "passthrough item = Ret item"

text \<open>The loop of the benchmark: it counts the items and leaves at the \<open>n\<close>-th.\<close>

fun count_until :: "nat \<Rightarrow> nat \<Rightarrow> 'x list \<Rightarrow> nat" where
  "count_until n c [] = c"
| "count_until n c (x # xs) = (if Suc c = n then Suc c else count_until n (Suc c) xs)"

lemma count_until_all: "c + length xs \<le> n \<Longrightarrow> count_until n c xs = c + length xs"
  by (induction xs arbitrary: c) auto

lemma passthrough_through: "\<forall>x \<in> set xs. \<exists>a. x = Obj a \<Longrightarrow> through (replicate k passthrough) xs = xs"
proof (induction k)
  case (Suc k)
  have "concat (map (outputs passthrough) xs) = xs"
    using Suc.prems by (induction xs) (auto simp: outputs_def passthrough_def result_list_def)
  then show ?case using Suc by simp
qed simp

text \<open>
  The overhead benchmark counts what it says: with any number of idle stages and of workers, in every run in which no worker
  leaves on a stale answer, all \<open>n\<close> items of the source come out unchanged, and the loop that measures has
  counted \<open>n\<close> of them when it ends.
\<close>

lemma overhead_counts_all:
  assumes "map (sr_fun \<circ> fst) srs = replicate k passthrough" and "\<forall>(sr, n) \<in> set srs. stage_ok sr" and "wellformed ms"
    and "unchunk ms = root_items [overhead_source n payload] @ [EndV]" and "fleet_stages srs ms ms'"
  shows "\<exists>st. read_all ms' = Complete st \<and> count_until n 0 (it_yielded st) = n
    \<and> mset (it_yielded st) = mset (map (\<lambda>i. Obj \<lparr>oi_id = i, oi_text = payload\<rparr>) [0..<n])"
proof -
  have items: "root_items [overhead_source n payload] = map (\<lambda>i. Obj \<lparr>oi_id = i, oi_text = payload\<rparr>) [0..<n]"
    by (simp add: overhead_source_def valid_items_def filter_id_conv)
  have "through (map (sr_fun \<circ> fst) srs) (root_items [overhead_source n payload]) = root_items [overhead_source n payload]"
    unfolding assms(1) items by (intro passthrough_through) auto
  with fleet_pipeline_yields [OF assms(2-5)] items obtain st where
    y: "read_all ms' = Complete st" "mset (it_yielded st) = mset (map (\<lambda>i. Obj \<lparr>oi_id = i, oi_text = payload\<rparr>) [0..<n])" by auto
  have "length (it_yielded st) = n" using mset_eq_length [OF y(2)] by simp
  then show ?thesis using y count_until_all [of 0 "it_yielded st" n] by auto
qed

end
