(* ===== verification/Spec2Isabelle.thy ===== *)
theory Spec2Isabelle
  imports Pipe_Push Pipe_Chain Pipe_Shm_Chain Pipe_Threads Pipe_Probe Pipe_Pool Pipe_Names Pipe_Putter
    Pipe_Autoscale Pipe_Exit Pipe_Prologue Pipe_Surface Pipe_Lock Pipe_Wait
    Pipe_Fleet Pipe_Thread_Run Pipe_Chunks Pipe_Keyed Pipe_Bench
begin

text \<open>
  This development verifies \<^verbatim>\<open>gpupipe\<close>, a Python framework (\<^verbatim>\<open>src/pipe/\<close>) for multi-stage,
  multi-process pipelines on GPU machines, with a shared-memory ring queue and a store for large
  arrays written in Rust (\<^verbatim>\<open>rust/src/ring.rs\<close>, \<^verbatim>\<open>rust/src/store.rs\<close>). Paths below are relative to the repository.

  \<^bold>\<open>The program.\<close> A \<open>Pipe\<close> holds a list of jobs (\<open>add\<close>); \<open>start\<close> makes one queue per stage and
  spawns the workers of each stage; stage \<open>i\<close> reads queue \<open>i - 1\<close> and writes queue \<open>i\<close>; the parent
  iterates over the last queue. The first stage is a source. An object put on a queue is pickled into
  the ring; its large arrays are left in reference-counted blocks of the payload store and travel by
  handle. Workers read through an input channel and
  write through an output channel, which bundles payloads into chunks. When a stage's workers have
  all finished, the last one puts \<open>End\<close> on the queue and sets the stage's done event; a worker
  leaves when its upstream is done and its queue stayed empty for a while. Around this core: workers
  may push items back to earlier stages, run threads, hold, park or be frozen by the scavenger when
  somebody else needs their GPU, be killed by the hang check or restarted by the health monitor. A
  sequential mode runs everything in one process, and a web server can hand out the results. An
  autoscaler is kept for later use.

  \<^bold>\<open>Theories and the code they model.\<close>
  \<^item> \<open>Pipe_Prelude\<close>: values, sentinels (\<^verbatim>\<open>types.py\<close>), exceptions, outcomes of user code, shared lemmas.
  \<^item> \<open>Pipe_Queue_Spec\<close>: the interface of a bounded queue as a locale, \<open>fifo_queue\<close>, with what every client
    may rely on (histories are first in, first out); the reference queue \<open>bqueue\<close> interprets it.
  \<^item> \<open>Pipe_Bytes\<close>, \<open>Pipe_Ring\<close>: the byte ring of \<^verbatim>\<open>ring.rs\<close> (records, padding, wrap-around, spilling to
    shared memory or files, word-sized lengths); interprets \<open>fifo_queue\<close>.
  \<^item> \<open>Pipe_Crash\<close>, \<open>Pipe_Lock\<close>, \<open>Pipe_Wait\<close>, \<open>Pipe_Teardown\<close>: what makes the ring safe between processes: its
    puts and pops store by store, cut off where a process is killed; the process-shared lock of
    \<^verbatim>\<open>sys.rs\<close> with its take-over from a dead holder; the waits of producers and consumers on the
    sequence words; and \<open>unlink\<close>, with the table of producers that wait with a spilled message. The ring
    interprets \<open>fifo_queue\<close> a second time, with the invariant that no spilled message is orphaned.
  \<^item> \<open>Pipe_Store\<close>, \<open>Pipe_Blocks\<close>, \<open>Pipe_Payload\<close>: the payload store of \<^verbatim>\<open>store.rs\<close>: size classes and packed
    handles; headers, free lists, segments and the operations on blocks, with the invariant they keep;
    what a client may rely on, as the locale \<open>payload_store\<close>, interpreted on the model of the store.
  \<^item> \<open>Pipe_Shm\<close>, \<open>Pipe_Shm_Setup\<close>: \<^verbatim>\<open>shmqueue.py\<close> and \<^verbatim>\<open>shmstore.py\<close>: reducing and rebuilding arrays, encoding
    and loading objects, a step relation for the processes that share an edge and the store; sizes of
    rings and store, warnings, and sweeping what dead owners left (with the names of \<^verbatim>\<open>sys.rs\<close>).
    \<open>Pipe_Names\<close>: the names of store and rings and the resource tracker. \<open>Pipe_Putter\<close>: how often a message
    is encoded when its queue is full.
  \<^item> \<open>Pipe_Channels\<close>: \<^verbatim>\<open>queues.py\<close> (retrying put, output and input channels, instrumented queue, the
    iterator for several readers).
  \<^item> \<open>Pipe_Placement\<close>, \<open>Pipe_Workers\<close>, \<open>Pipe_Push\<close>, \<open>Pipe_Parking\<close>: the helpers of \<^verbatim>\<open>workers.py\<close>.
  \<^item> \<open>Pipe_Loop\<close>: \<open>_worker_run\<close>, the loop of a worker process: gathering batches, calling the user's
    code, handling results and exceptions, leaving, and the epilogue.
  \<^item> \<open>Pipe_Threads\<close>: \<open>_threaded_worker_run\<close>; its branch for stages with a \<open>run()\<close> and its end are in
    \<open>Pipe_Thread_Run\<close>. \<open>Pipe_Pool\<close>: \<open>pull\<close> for stages with a \<open>run()\<close> and the
    \<open>AsyncPoolWorker\<close> of \<^verbatim>\<open>utils.py\<close>. \<open>Pipe_Utils\<close>: the other ready-made stages. \<open>Pipe_Prologue\<close>: what a
    worker does before its loop, as a sequence of effects, and counting the devices.
  \<^item> \<open>Pipe_Completion\<close>: \<open>_finish_worker\<close> and \<open>_scavenge_hold_wait\<close>, with a step relation for the
    workers of a stage that finish concurrently.
  \<^item> \<open>Pipe_Exit\<close>: the end of a worker process: what \<open>on_park\<close> returns, who still holds the stage, giving the GPU
    back, staying alive; access to torch, running under the profiler, watching the parent.
  \<^item> \<open>Pipe_Scavenge\<close>: \<^verbatim>\<open>scavenge.py\<close>, one poll over all slots, and a step relation of scavenger and worker.
    \<open>Pipe_Probe\<close>: the questions it asks the machine.
  \<^item> \<open>Pipe_Config\<close>, \<open>Pipe_Plan\<close>: \<open>Pipe.add\<close> (\<^verbatim>\<open>pipe.py\<close>) and what \<open>start\<close> (\<^verbatim>\<open>lifecycle.py\<close>) decides.
  \<^item> \<open>Pipe_Monitor\<close>: \<^verbatim>\<open>monitors.py\<close>. \<open>Pipe_Display\<close>: the pinned line, the displayed rates and the profile
    summary. \<open>Pipe_Lifecycle\<close>: restarts and \<open>Pipe.__iter__\<close>. \<open>Pipe_Shutdown\<close>: stopping, service threads and
    signals. \<open>Pipe_Sequential\<close>: \<^verbatim>\<open>sequential.py\<close>. \<open>Pipe_Web\<close>: \<^verbatim>\<open>web.py\<close>. \<open>Pipe_Autoscale\<close>:
    \<^verbatim>\<open>_planned/autoscale.py\<close>.
  \<^item> \<open>Pipe_Chain\<close> connects the stages of a whole pipeline; the theorem about it is below. \<open>Pipe_Shm_Chain\<close> puts
    shared-memory edges between them. \<open>Pipe_Surface\<close>: the first steps of \<open>start\<close> and \<open>__iter__\<close>, \<open>run\<close>, the loops
    of the monitor threads, the lifetime of the web server.
  \<^item> \<open>Pipe_Fleet\<close>: a stage whose workers share one queue and run beside their upstream, every atomic action a
    step, with the invariant that accounts for each payload; and pipelines of such stages.
  \<^item> \<open>Pipe_Recipes\<close>, \<open>Pipe_Chunks\<close>, \<open>Pipe_Demo\<close>, \<open>Pipe_Keyed\<close>: the stages of the programs under \<^verbatim>\<open>examples/\<close>. What the stages
    that collect items share is the locale \<open>collecting\<close>, interpreted on the four of them. \<open>Pipe_Bench\<close>: the two
    rules for filling a batch and the idle stages of \<^verbatim>\<open>bench/\<close>.

  \<^bold>\<open>How the code is modelled.\<close> Stateful code passes its state explicitly, as a record named after
  the object or the local variables it stands for. What a piece of code reads from outside (clocks,
  shared flags, what a queue or a subprocess answers, when a put fails) comes as an observation
  record, one per loop iteration, so a theorem for all observations covers every behaviour of the
  environment. User code is a function from an item to an outcome: a returned value, a generator
  (its items and how it ends) or an exception. Exceptions of the code are values of \<open>exn\<close> or of an error
  type of the component. Real time and delays are real numbers; Python's unbounded integers are \<open>int\<close>
  or \<open>nat\<close>; the ring's fields and the packed handles of the store keep their machine widths.
  Libraries the code calls (pickle, numpy's and torch's views, the web server's serializer, the
  database driver) are parameters, and what is relied on of them is a named predicate (\<open>pickles\<close>,
  \<open>wf_leaf\<close>) that a concrete pickler satisfies in the witnesses. Where processes interleave and the order
  matters, each atomic action is a step of an inductive relation.

  \<^bold>\<open>What is shown.\<close> The core: a worker's loop is a stream transformer that loses, repeats and
  reorders nothing, ends once upstream is done, and leaves nothing in its channel; the ring refines
  a bounded queue over every history of puts and gets; objects and their arrays arrive whole and in
  order over ring and store together, blocks are never shared by mistake and never leaked; chunked edges are transparent; \<open>End\<close> never
  overtakes an item however the workers of a stage interleave; readers that share the final queue
  deliver every item exactly once; a whole pipeline computes what its stages compute, and so does
  the sequential mode, over ideal queues and over shared-memory edges alike; stages with several workers on
  one queue compute the same up to order, unless a worker leaves on a poll older than the done event, and
  what is then lost is shown too. Between processes: a process
  killed at any instruction of a put or get costs at most the item it was handling, the lock excludes
  and is taken over from the dead, no wake-up is lost, and teardown leaves no object behind. Around it: parking acknowledges only when everything is downstream; the
  scavenger keeps track of every waiting worker and never leaves the driver half done; push tells
  the truth; hang check and health monitor act exactly when they should; accepted configurations
  are sound and plans match what completion waits for. The examples: chunks are reassembled
  exactly, groups conserve their clips, retries end, the demo yields all its items, and the new rule for
  batches extends the old one. Several theorems describe behaviour that
  differs from what the code means to do (a restart that is never noticed by the iterator or that
  doubles the health monitor and silences the statistics, a late signal that stops the next run, a
  finisher counted twice, a late acknowledgement, polls that count too early, \<open>End\<close> before a thread's
  last chunk, a lost last page, items stranded by the sequential flush, an edge wedged by a consumer that
  died between two stores, references leaked by retries in debug mode, a stage the profiler keeps on the
  GPU, items sent after \<open>End\<close>, a probe that ends the scavenger, a failed start that counts as one, batches
  that the inference example undoes).

  \<^bold>\<open>Fuel and bounds.\<close> \<open>new_fill\<close> and \<open>retry_run\<close> terminate by their measures. Worker, thread and pull loops recurse over the list of observations; the
  theorems say how many suffice (the input ahead plus \<open>EMPTY_THRESHOLD\<close>). \<open>seq_loop\<close>, \<open>tail_loop\<close> and
  \<open>retrieve_all\<close> take fuel; their theorems give fuel that is enough. The ring is at most \<open>2 ^ 32 - 8\<close>
  bytes and the store at most \<open>2 ^ 40\<close>: above that, lengths in record headers and offsets in packed
  handles would not fit; the code's own defaults are 16 MiB and 16 GiB. Reference counts are
  unbounded where the code has 32 bits.

  \<^bold>\<open>Between processes.\<close> In \<open>Pipe_Crash\<close> the stores of a process take effect in program order, as the lock's
  acquire and release make them for everyone else. In \<open>Pipe_Lock\<close> a dead process's number is not used again
  while its lock is held, and deciding that a holder is dead may take any number of rounds. In \<open>Pipe_Wait\<close>
  fewer than \<open>2 ^ 32\<close> items pass between the look at a sequence word and the sleep on it.

  \<^bold>\<open>What is not modelled.\<close> Mapping and attaching shared memory, the futex calls and their time slices,
  caching one pickler per thread; formatting tables and messages; the web framework around the routes
  and the arguments it is started with; opening connections, printing and timing in the examples and
  benchmarks. These
  call the operating system or a library and keep no state of the pipeline. Floating-point arithmetic
  is real arithmetic. What Python's interpreter itself holds on its stack is not part of the references
  counted in \<open>Pipe_Exit\<close>.
\<close>

section \<open>The pipeline as a whole\<close>



end
